theory Spec2Isabelle
  imports Main "HOL-Library.Word" "HOL-Library.Multiset"
begin

section \<open>Row grouping (arrow/compute/row/grouper.cc)\<close>

text \<open>
  The development follows \<^verbatim>\<open>cpp/src/arrow/compute/row/grouper.cc\<close>. Member
  variables of the C++ classes end in an underscore there; the record fields below carry
  the suffix \<open>_m\<close> instead.

  A batch (\<^verbatim>\<open>ExecSpan\<close>) is viewed row-wise: row \<open>i\<close> is the tuple of the
  \<open>i\<close>-th values of the key columns, a scalar column being the same value in every row.
  The per-column \<^verbatim>\<open>KeyEncoder\<close> objects are declared in
  \<^verbatim>\<open>row_encoder_internal.h\<close>; their joint effect on one row (\<^verbatim>\<open>AddLength\<close>
  followed by \<^verbatim>\<open>Encode\<close> of every column) is the parameter \<open>enc\<close> of the
  functions below, and \<^verbatim>\<open>Decode\<close> is the parameter \<open>dec\<close>.
  Failures of the memory pool and of the encoders are not modelled.
\<close>

subsection \<open>Basic types\<close>

type_synonym byte = "8 word"
type_synonym bytes = "byte list"
type_synonym group_id_t = "32 word"

definition kNoGroupId :: group_id_t where
  "kNoGroupId = - 1"

text \<open>\<^verbatim>\<open>Status\<close>: the two error codes this file returns.\<close>

datatype Status = Invalid | NotImplemented

datatype GrouperMode = kPopulate | kConsume | kLookup

text \<open>
  A \<^verbatim>\<open>UInt32Array\<close> is given by its length, its values and its validity bitmap
  (\<open>None\<close> when the array is built with a null bitmap pointer, that is, when it has no
  nulls; otherwise one bit per value, set where the value is valid). A \<^verbatim>\<open>Datum\<close> is
  the empty datum returned by populate, or such an array.
\<close>

datatype UInt32Array = UInt32Array int "group_id_t list" "bool list option"

datatype Datum = NoDatum | ArrayDatum UInt32Array

text \<open>
  Offsets and lengths of key bytes are \<^verbatim>\<open>int32_t\<close>. \<open>int32 x\<close> is the value that an
  integer \<open>x\<close> has as an \<^verbatim>\<open>int32_t\<close>, after an operation on \<^verbatim>\<open>int32_t\<close> values or a
  \<^verbatim>\<open>static_cast<int32_t>\<close>: \<open>x\<close> reduced to the range from \<open>- 2^31\<close> to \<open>2^31 - 1\<close>.
  A size that is negative as an \<^verbatim>\<open>int32_t\<close> is taken as 0; the theorems are about inputs
  on which every such value is in range.
\<close>

definition int32 :: "int \<Rightarrow> int" where
  "int32 x = (x + 2 ^ 31) mod 2 ^ 32 - 2 ^ 31"

text \<open>
  \<^verbatim>\<open>std::vector::resize\<close> of a byte vector, and writing a sequence of values into a
  buffer at a position (\<^verbatim>\<open>memcpy\<close>).
\<close>

definition resize :: "bytes \<Rightarrow> nat \<Rightarrow> bytes" where
  "resize buf n = take n buf @ replicate (n - length buf) 0"

definition write_at :: "'a list \<Rightarrow> nat \<Rightarrow> 'a list \<Rightarrow> 'a list" where
  "write_at buf pos vals = take pos buf @ vals @ drop (pos + length vals) buf"

subsection \<open>Length capping and slicing\<close>

definition CheckAndCapLengthForConsume :: "int \<Rightarrow> int \<Rightarrow> int \<Rightarrow> Status + int" where
  "CheckAndCapLengthForConsume batch_length consume_offset consume_length =
     (if consume_offset < 0 then Inl Invalid
      else if consume_length < 0 then Inr (batch_length - consume_offset)
      else Inr consume_length)"

text \<open>
  \<^verbatim>\<open>ExecBatch::Slice(offset, length)\<close> on the row view: the rows from \<open>offset\<close> on, at
  most \<open>length\<close> of them.
\<close>

definition Slice :: "'row list \<Rightarrow> int \<Rightarrow> int \<Rightarrow> 'row list" where
  "Slice batch offset len = take (nat len) (drop (nat offset) batch)"

subsection \<open>The fallback grouper \<^verbatim>\<open>GrouperImpl\<close>\<close>

record GrouperImpl =
  map_m :: "bytes \<rightharpoonup> group_id_t"
  offsets_m :: "int list"
  key_bytes_m :: bytes
  num_groups_m :: group_id_t

text \<open>The state after \<^verbatim>\<open>GrouperImpl::Make\<close>: the member initialisers of the class.\<close>

definition GrouperImpl_Make :: GrouperImpl where
  "GrouperImpl_Make = \<lparr>map_m = Map.empty, offsets_m = [0], key_bytes_m = [], num_groups_m = 0\<rparr>"

definition GrouperImpl_Reset :: "GrouperImpl \<Rightarrow> GrouperImpl" where
  "GrouperImpl_Reset s = s\<lparr>map_m := Map.empty, offsets_m := [], key_bytes_m := [], num_groups_m := 0\<rparr>"

text \<open>
  One iteration of the loop of \<^verbatim>\<open>VisitKeys\<close> for the key string \<open>key\<close>, whose size is
  \<open>key_length\<close>. The second component records the callback that ran: \<open>Some id\<close> for
  \<^verbatim>\<open>visit_group(id)\<close>, \<open>None\<close> for \<^verbatim>\<open>visit_unknown_group()\<close>. For a new key that is
  not empty, \<^verbatim>\<open>key_bytes_\<close> is resized to \<open>next_key_offset + key_length\<close> bytes and the
  key is copied to \<open>next_key_offset\<close>, the size of \<^verbatim>\<open>key_bytes_\<close> as an \<^verbatim>\<open>int32_t\<close>.
\<close>

definition visit_key :: "bool \<Rightarrow> bytes \<Rightarrow> GrouperImpl \<Rightarrow> GrouperImpl \<times> group_id_t option" where
  "visit_key insert_new_keys key s =
     (if insert_new_keys then
        (case map_m s key of
           None \<Rightarrow>
             (let s1 = s\<lparr>map_m := (map_m s)(key \<mapsto> num_groups_m s),
                          num_groups_m := num_groups_m s + 1\<rparr>;
                  key_length = int32 (int (length key));
                  s2 = (if key_length > 0 then
                          (let next_key_offset = int32 (int (length (key_bytes_m s1)));
                               key_bytes = resize (key_bytes_m s1) (nat (int32 (next_key_offset + key_length)))
                           in s1\<lparr>key_bytes_m := write_at key_bytes (nat next_key_offset) key,
                                  offsets_m := offsets_m s1 @ [int32 (next_key_offset + key_length)]\<rparr>)
                        else s1)
              in (s2, Some (num_groups_m s)))
         | Some group_id \<Rightarrow> (s, Some group_id))
      else
        (case map_m s key of
           None \<Rightarrow> (s, None)
         | Some group_id \<Rightarrow> (s, Some group_id)))"

text \<open>
  \<^verbatim>\<open>VisitKeys\<close>: the loop over \<open>i = 0 .. length - 1\<close>; key \<open>i\<close> is the slice
  \<open>key_offsets[i] .. key_offsets[i+1]\<close> of \<open>key_data\<close>. The offsets and \<open>key_length\<close>
  are \<^verbatim>\<open>int32_t\<close>; a negative one is a read outside the buffer, of which the model
  keeps nothing.
\<close>

definition key_at :: "int list \<Rightarrow> bytes \<Rightarrow> nat \<Rightarrow> bytes" where
  "key_at key_offsets key_data i =
     (let key_length = int32 (key_offsets ! (i + 1) - key_offsets ! i)
      in take (nat key_length) (drop (nat (key_offsets ! i)) key_data))"

definition VisitKeys ::
  "nat \<Rightarrow> int list \<Rightarrow> bytes \<Rightarrow> bool \<Rightarrow> GrouperImpl \<Rightarrow> GrouperImpl \<times> group_id_t option list" where
  "VisitKeys len key_offsets key_data insert_new_keys s =
     fold (\<lambda>i (s, visited).
             (let (s', v) = visit_key insert_new_keys (key_at key_offsets key_data i) s
              in (s', visited @ [v])))
          [0..<len] (s, [])"

text \<open>
  The exclusive prefix sum that turns the per-row lengths in \<open>offsets_batch\<close> into
  offsets, with the total in the last cell; \<open>total_length\<close> is an \<^verbatim>\<open>int32_t\<close>.
\<close>

definition prefix_sum_offsets :: "nat \<Rightarrow> int list \<Rightarrow> int list" where
  "prefix_sum_offsets n offsets_batch =
     (let (total_length, offs) =
            fold (\<lambda>i (total_length, offs).
                    (let total_length_before = total_length
                     in (int32 (total_length + offs ! i), offs[i := total_length_before])))
                 [0..<n] (0, offsets_batch)
      in offs[n := total_length])"

text \<open>
  The body of \<^verbatim>\<open>ConsumeImpl\<close> once the batch is the very range to process.
  \<open>offsets_batch\<close> starts as \<open>batch.length + 1\<close> zeros, to which the encoders add the
  length of every row; the encoders then write the rows one after the other into
  \<open>key_bytes_batch\<close>.
\<close>

definition ConsumeBody ::
  "('row \<Rightarrow> bytes) \<Rightarrow> GrouperImpl \<Rightarrow> 'row list \<Rightarrow> GrouperMode \<Rightarrow> GrouperImpl \<times> Datum" where
  "ConsumeBody enc s batch mode =
     (let n = length batch;
          offsets_batch = prefix_sum_offsets n (map (\<lambda>r. int32 (int (length (enc r)))) batch @ [0]);
          key_bytes_batch = concat (map enc batch)
      in (case mode of
            kPopulate \<Rightarrow>
              (let (s', visited) = VisitKeys n offsets_batch key_bytes_batch True s
               in (s', NoDatum))
          | kConsume \<Rightarrow>
              (let (s', visited) = VisitKeys n offsets_batch key_bytes_batch True s
               in (s', ArrayDatum (UInt32Array (int n) (map the (filter (\<lambda>v. v \<noteq> None) visited)) None)))
          | kLookup \<Rightarrow>
              (let (s', visited) = VisitKeys n offsets_batch key_bytes_batch False s
               in (s', ArrayDatum (UInt32Array (int n)
                         (map (\<lambda>v. case v of Some group_id \<Rightarrow> group_id | None \<Rightarrow> 0) visited)
                         (Some (map (\<lambda>v. v \<noteq> None) visited)))))))"

function ConsumeImpl ::
  "('row \<Rightarrow> bytes) \<Rightarrow> GrouperImpl \<Rightarrow> 'row list \<Rightarrow> int \<Rightarrow> int \<Rightarrow> GrouperMode
     \<Rightarrow> Status + (GrouperImpl \<times> Datum)" where
  "ConsumeImpl enc s batch offset len mode =
     (case CheckAndCapLengthForConsume (int (length batch)) offset len of
        Inl e \<Rightarrow> Inl e
      | Inr len' \<Rightarrow>
          if offset \<noteq> 0 \<or> len' \<noteq> int (length batch)
          then ConsumeImpl enc s (Slice batch offset len') 0 (- 1) mode
          else Inr (ConsumeBody enc s batch mode))"
  by pat_completeness auto
termination
  by (relation "measure (\<lambda>(enc, s, batch, offset, len, mode). if offset = 0 \<and> len < 0 then 0 else 1)")
     (auto simp: CheckAndCapLengthForConsume_def split: if_splits)

declare ConsumeImpl.simps [simp del]

definition Populate :: "('row \<Rightarrow> bytes) \<Rightarrow> GrouperImpl \<Rightarrow> 'row list \<Rightarrow> int \<Rightarrow> int
     \<Rightarrow> Status + (GrouperImpl \<times> Datum)" where
  "Populate enc s batch offset len = ConsumeImpl enc s batch offset len kPopulate"

definition Consume :: "('row \<Rightarrow> bytes) \<Rightarrow> GrouperImpl \<Rightarrow> 'row list \<Rightarrow> int \<Rightarrow> int
     \<Rightarrow> Status + (GrouperImpl \<times> Datum)" where
  "Consume enc s batch offset len = ConsumeImpl enc s batch offset len kConsume"

definition Lookup :: "('row \<Rightarrow> bytes) \<Rightarrow> GrouperImpl \<Rightarrow> 'row list \<Rightarrow> int \<Rightarrow> int
     \<Rightarrow> Status + (GrouperImpl \<times> Datum)" where
  "Lookup enc s batch offset len = ConsumeImpl enc s batch offset len kLookup"

definition GrouperImpl_num_groups :: "GrouperImpl \<Rightarrow> group_id_t" where
  "GrouperImpl_num_groups s = num_groups_m s"

text \<open>
  \<^verbatim>\<open>GetUniques\<close>: row \<open>i\<close> is decoded from the pointer \<open>key_bytes_.data() + offsets_[i]\<close>.
  \<open>dec\<close> reads one row from the bytes that start at the pointer; it yields \<open>None\<close> when
  they do not hold a whole row. A read of \<open>offsets_\<close> past its size is \<open>None\<close> as well:
  both are reads outside the grouper's buffers. The decoders are asked for
  \<^verbatim>\<open>static_cast<int32_t>(num_groups_)\<close> rows.
\<close>

definition GetUniques :: "(bytes \<Rightarrow> 'row option) \<Rightarrow> GrouperImpl \<Rightarrow> 'row option list" where
  "GetUniques dec s =
     map (\<lambda>i. if i < length (offsets_m s)
               then dec (drop (nat (offsets_m s ! i)) (key_bytes_m s))
               else None)
         [0..<nat (int32 (uint (num_groups_m s)))]"

primrec visit_keys :: "bool \<Rightarrow> bytes list \<Rightarrow> GrouperImpl \<Rightarrow> GrouperImpl \<times> group_id_t option list" where
  "visit_keys ins [] s = (s, [])"
| "visit_keys ins (k # ks) s =
     (let (s', v) = visit_key ins k s; (s'', vs) = visit_keys ins ks s' in (s'', v # vs))"

fun first_index :: "'a list \<Rightarrow> 'a \<Rightarrow> nat" where
  "first_index [] k = 0"
| "first_index (x # xs) k = (if x = k then 0 else Suc (first_index xs k))"

definition insert_key :: "'a list \<Rightarrow> 'a \<Rightarrow> 'a list" where
  "insert_key ks k = (if k \<in> set ks then ks else ks @ [k])"

definition insert_keys :: "'a list \<Rightarrow> 'a list \<Rightarrow> 'a list" where
  "insert_keys ks keys = foldl insert_key ks keys"

definition grouper_inv :: "GrouperImpl \<Rightarrow> bytes list \<Rightarrow> bool" where
  "grouper_inv s ks \<longleftrightarrow>
     distinct ks \<and> length ks < 2 ^ 32 \<and> num_groups_m s = of_nat (length ks) \<and>
     map_m s = (\<lambda>k. if k \<in> set ks then Some (of_nat (first_index ks k)) else None)"

datatype 'row grouper_call =
    CallPopulate "'row list" int int
  | CallConsume "'row list" int int
  | CallLookup "'row list" int int
  | CallReset

fun do_call :: "('row \<Rightarrow> bytes) \<Rightarrow> GrouperImpl \<Rightarrow> 'row grouper_call \<Rightarrow> GrouperImpl \<times> (Status + Datum)" where
  "do_call enc s (CallPopulate batch offset len) =
     (case Populate enc s batch offset len of Inl e \<Rightarrow> (s, Inl e) | Inr (s', d) \<Rightarrow> (s', Inr d))"
| "do_call enc s (CallConsume batch offset len) =
     (case Consume enc s batch offset len of Inl e \<Rightarrow> (s, Inl e) | Inr (s', d) \<Rightarrow> (s', Inr d))"
| "do_call enc s (CallLookup batch offset len) =
     (case Lookup enc s batch offset len of Inl e \<Rightarrow> (s, Inl e) | Inr (s', d) \<Rightarrow> (s', Inr d))"
| "do_call enc s CallReset = (GrouperImpl_Reset s, Inr NoDatum)"

fun run_calls :: "('row \<Rightarrow> bytes) \<Rightarrow> GrouperImpl \<Rightarrow> 'row grouper_call list \<Rightarrow> GrouperImpl \<times> (Status + Datum) list" where
  "run_calls enc s [] = (s, [])"
| "run_calls enc s (c # cs) =
     (let (s', r) = do_call enc s c; (s'', rs) = run_calls enc s' cs in (s'', r # rs))"

fun call_rows :: "'row grouper_call \<Rightarrow> nat" where
  "call_rows (CallPopulate batch offset len) = length batch"
| "call_rows (CallConsume batch offset len) = length batch"
| "call_rows (CallLookup batch offset len) = length batch"
| "call_rows CallReset = 0"

definition capped_rows :: "'row list \<Rightarrow> int \<Rightarrow> int \<Rightarrow> 'row list" where
  "capped_rows batch offset len =
     Slice batch offset (if len < 0 then int (length batch) - offset else len)"

definition group_ids_of :: "bytes list \<Rightarrow> bytes list \<Rightarrow> group_id_t list" where
  "group_ids_of ks keys = map (\<lambda>k. of_nat (first_index ks k)) keys"

fun keys_after_call :: "('row \<Rightarrow> bytes) \<Rightarrow> bytes list \<Rightarrow> 'row grouper_call \<Rightarrow> bytes list" where
  "keys_after_call enc ks (CallPopulate batch offset len) =
     (if offset < 0 then ks else insert_keys ks (map enc (capped_rows batch offset len)))"
| "keys_after_call enc ks (CallConsume batch offset len) =
     (if offset < 0 then ks else insert_keys ks (map enc (capped_rows batch offset len)))"
| "keys_after_call enc ks (CallLookup batch offset len) = ks"
| "keys_after_call enc ks CallReset = []"

definition keys_after :: "('row \<Rightarrow> bytes) \<Rightarrow> bytes list \<Rightarrow> 'row grouper_call list \<Rightarrow> bytes list" where
  "keys_after enc ks calls = foldl (keys_after_call enc) ks calls"

definition calls_rows :: "'row grouper_call list \<Rightarrow> nat" where
  "calls_rows calls = sum_list (map call_rows calls)"

text \<open>The number of key bytes that the rows of a batch, of a call and of calls encode to.\<close>

definition batch_bytes :: "('row \<Rightarrow> bytes) \<Rightarrow> 'row list \<Rightarrow> nat" where
  "batch_bytes enc batch = length (concat (map enc batch))"

fun call_bytes :: "('row \<Rightarrow> bytes) \<Rightarrow> 'row grouper_call \<Rightarrow> nat" where
  "call_bytes enc (CallPopulate batch offset len) = batch_bytes enc batch"
| "call_bytes enc (CallConsume batch offset len) = batch_bytes enc batch"
| "call_bytes enc (CallLookup batch offset len) = batch_bytes enc batch"
| "call_bytes enc CallReset = 0"

definition calls_bytes :: "('row \<Rightarrow> bytes) \<Rightarrow> 'row grouper_call list \<Rightarrow> nat" where
  "calls_bytes enc calls = sum_list (map (call_bytes enc) calls)"

subsection \<open>Calls on a grouper and what they return\<close>

fun is_consume :: "'row grouper_call \<Rightarrow> bool" where
  "is_consume (CallConsume batch offset len) = True"
| "is_consume c = False"

fun is_populate :: "'row grouper_call \<Rightarrow> bool" where
  "is_populate (CallPopulate batch offset len) = True"
| "is_populate c = False"

definition populate_or_consume :: "'row grouper_call \<Rightarrow> bool" where
  "populate_or_consume c \<longleftrightarrow> is_populate c \<or> is_consume c"

fun datum_ids :: "Status + Datum \<Rightarrow> group_id_t list" where
  "datum_ids (Inr (ArrayDatum (UInt32Array n ids bitmap))) = ids"
| "datum_ids r = []"

definition returned_ids :: "(Status + Datum) list \<Rightarrow> group_id_t list" where
  "returned_ids results = concat (map datum_ids results)"

fun consumed_of :: "('row \<Rightarrow> bytes) \<Rightarrow> 'row grouper_call \<Rightarrow> bytes list" where
  "consumed_of enc (CallConsume batch offset len) =
     (if offset < 0 then [] else map enc (capped_rows batch offset len))"
| "consumed_of enc c = []"

definition consumed_keys :: "('row \<Rightarrow> bytes) \<Rightarrow> 'row grouper_call list \<Rightarrow> bytes list" where
  "consumed_keys enc calls = concat (map (consumed_of enc) calls)"

subsection \<open>An example key schema\<close>

text \<open>
  Modelled from the spec: the key encoders are not part of \<^verbatim>\<open>grouper.cc\<close>. For a
  key schema of one nullable fixed-width column of one byte, a row is encoded as a null
  flag (1 for null, 0 for valid) followed by the value byte (0 for null), and decoded
  from the first two bytes at the pointer.
\<close>

definition encode_uint8_key :: "byte option \<Rightarrow> bytes" where
  "encode_uint8_key v = (case v of None \<Rightarrow> [1, 0] | Some b \<Rightarrow> [0, b])"

definition decode_uint8_key :: "bytes \<Rightarrow> byte option option" where
  "decode_uint8_key bs =
     (case bs of
        flag # b # rest \<Rightarrow> Some (if flag = 0 then Some b else None)
      | _ \<Rightarrow> None)"

section \<open>\<^verbatim>\<open>Grouper::MakeGroupings\<close>\<close>

text \<open>
  The accessors of \<^verbatim>\<open>UInt32Array\<close> that \<^verbatim>\<open>MakeGroupings\<close> uses.
\<close>

fun null_count :: "UInt32Array \<Rightarrow> nat" where
  "null_count (UInt32Array n vals None) = 0"
| "null_count (UInt32Array n vals (Some valid)) = length (filter (\<lambda>b. \<not> b) valid)"

fun array_length :: "UInt32Array \<Rightarrow> int" where
  "array_length (UInt32Array n vals bitmap) = n"

fun array_values :: "UInt32Array \<Rightarrow> group_id_t list" where
  "array_values (UInt32Array n vals bitmap) = vals"

definition Value :: "UInt32Array \<Rightarrow> nat \<Rightarrow> group_id_t" where
  "Value ids i = array_values ids ! i"

text \<open>
  The result: a \<^verbatim>\<open>ListArray\<close> of \<open>num_groups\<close> lists, given by its offsets buffer and
  its child array of \<^verbatim>\<open>int32\<close> values.
\<close>

record ListArray =
  list_length :: int
  value_offsets :: "int list"
  list_values :: "int list"

text \<open>
  \<^verbatim>\<open>DCHECK_LT\<close> and \<^verbatim>\<open>DCHECK_EQ\<close> abort a debug build and are compiled out of a
  release build, where the code that follows a failed \<^verbatim>\<open>DCHECK_LT\<close> writes outside the
  offsets buffer. Neither returns a \<^verbatim>\<open>Status\<close>; a failed check is the outcome
  \<open>DCheckFailed\<close>.
\<close>

datatype 'a dchecked = DCheckFailed | Returned 'a

text \<open>The counting loop: \<^verbatim>\<open>raw_offsets[ids.Value(i)] += 1\<close> for every \<open>i\<close>.\<close>

definition count_ids :: "UInt32Array \<Rightarrow> group_id_t \<Rightarrow> int list \<Rightarrow> int list option" where
  "count_ids ids num_groups raw_offsets =
     fold (\<lambda>i acc.
             (case acc of
                None \<Rightarrow> None
              | Some raw \<Rightarrow>
                  if Value ids i < num_groups
                  then Some (raw[unat (Value ids i) := raw ! unat (Value ids i) + 1])
                  else None))
          [0..<nat (array_length ids)] (Some raw_offsets)"

text \<open>The loop that turns the counts into offsets; it returns the offsets and \<open>length\<close>.\<close>

definition counts_to_offsets :: "group_id_t \<Rightarrow> int list \<Rightarrow> int list \<times> int" where
  "counts_to_offsets num_groups raw_offsets =
     (let (len, raw) =
            fold (\<lambda>id (len, raw).
                    (let offset = raw ! id in (len + offset, raw[id := len])))
                 [0..<unat num_groups] (0, raw_offsets)
      in (raw[unat num_groups := len], len))"

text \<open>
  The placement loop: \<^verbatim>\<open>raw_sort_indices[raw_offsets[ids.Value(i)]++] = i\<close> on a copy
  of the offsets. The indices buffer comes uninitialised from the allocator; it is all zeros
  here.
\<close>

definition place_indices :: "UInt32Array \<Rightarrow> int list \<Rightarrow> int list" where
  "place_indices ids offsets_copy =
     snd (fold (\<lambda>i (raw, sort_indices).
                  (let id = unat (Value ids i)
                   in (raw[id := raw ! id + 1], sort_indices[nat (raw ! id) := int i])))
               [0..<nat (array_length ids)]
               (offsets_copy, replicate (nat (array_length ids)) 0))"

definition MakeGroupings :: "UInt32Array \<Rightarrow> group_id_t \<Rightarrow> (Status + ListArray) dchecked" where
  "MakeGroupings ids num_groups =
     (if null_count ids \<noteq> 0 then Returned (Inl Invalid)
      else
        (case count_ids ids num_groups (replicate (unat (num_groups + 1)) 0) of
           None \<Rightarrow> DCheckFailed
         | Some counts \<Rightarrow>
             (let (offsets, len) = counts_to_offsets num_groups counts
              in if array_length ids \<noteq> len then DCheckFailed
                 else Returned (Inr \<lparr>list_length = int (unat num_groups),
                                     value_offsets = offsets,
                                     list_values = place_indices ids offsets\<rparr>))))"

text \<open>
  Two notions for stating what \<^verbatim>\<open>MakeGroupings\<close> computes: how many ids are below a
  group, and the positions of a group in ascending order.
\<close>

definition ids_below :: "nat list \<Rightarrow> nat \<Rightarrow> nat" where
  "ids_below xs g = length (filter (\<lambda>x. x < g) xs)"

definition positions_of :: "nat list \<Rightarrow> nat \<Rightarrow> nat \<Rightarrow> nat list" where
  "positions_of xs k g = filter (\<lambda>i. xs ! i = g) [0..<k]"

section \<open>The fast grouper \<^verbatim>\<open>GrouperFastImpl\<close>\<close>

text \<open>
  \<^verbatim>\<open>GrouperFastImpl\<close> drives a \<^verbatim>\<open>RowTableEncoder\<close>, a \<^verbatim>\<open>RowTableImpl\<close> and a
  \<^verbatim>\<open>SwissTable\<close>, none of which is defined in \<^verbatim>\<open>grouper.cc\<close>. The row image that
  the encoder produces for a row is the parameter \<open>img\<close>, its inverse (the decoding in
  \<^verbatim>\<open>GetUniques\<close>) the parameter \<open>unimg\<close>, the 32-bit row hash of
  \<^verbatim>\<open>Hashing32::HashMultiColumn\<close> the parameter \<open>hash\<close>, and the constant
  \<^verbatim>\<open>MiniBatch::kMiniBatchLength\<close> the parameter \<open>minibatch_size_max\<close>. Dictionary
  columns are taken to carry the same dictionary in every batch, so that the check of
  the dictionaries in \<^verbatim>\<open>ConsumeImpl\<close> passes.

  Modelled from the spec: the hash table. It maps a row hash to the ids of the stored
  rows with that hash. \<open>early_filter\<close> sets a bit for every probed row whose hash might
  match an entry; \<open>find\<close> resolves the candidates through the equality callback, giving
  the rows that pass their stored group id and clearing the bit of the rows that fail;
  \<open>map_new_keys\<close> takes the rows whose bit is clear, de-duplicates them among
  themselves, persists the new ones through the append callback and assigns them the
  next contiguous group ids.
\<close>

type_synonym SwissTable = "32 word \<Rightarrow> group_id_t list"

definition early_filter :: "SwissTable \<Rightarrow> 32 word list \<Rightarrow> bool list" where
  "early_filter tbl hashes = map (\<lambda>h. tbl h \<noteq> []) hashes"

definition find_st ::
  "SwissTable \<Rightarrow> ('img \<Rightarrow> group_id_t \<Rightarrow> bool) \<Rightarrow> 'img list \<Rightarrow> 32 word list \<Rightarrow> bool list
     \<Rightarrow> group_id_t list \<Rightarrow> bool list \<times> group_id_t list" where
  "find_st tbl equal_impl keys hashes match_bits out_group_ids =
     fold (\<lambda>i (bits, ids).
             if bits ! i
             then (case List.find (equal_impl (keys ! i)) (tbl (hashes ! i)) of
                     Some g \<Rightarrow> (bits, ids[i := g])
                   | None \<Rightarrow> (bits[i := False], ids))
             else (bits, ids))
          [0..<length keys] (match_bits, out_group_ids)"

definition map_new_keys ::
  "('img list \<Rightarrow> 'img \<Rightarrow> group_id_t \<Rightarrow> bool) \<Rightarrow> ('img list \<Rightarrow> 'img \<Rightarrow> 'img list)
     \<Rightarrow> nat list \<Rightarrow> 'img list \<Rightarrow> 32 word list
     \<Rightarrow> SwissTable \<times> 'img list \<times> group_id_t list \<Rightarrow> SwissTable \<times> 'img list \<times> group_id_t list" where
  "map_new_keys equal_impl append_impl selection keys hashes start =
     fold (\<lambda>i (tbl, rws, ids).
             (case List.find (equal_impl rws (keys ! i)) (tbl (hashes ! i)) of
                Some g \<Rightarrow> (tbl, rws, ids[i := g])
              | None \<Rightarrow>
                  (let g = of_nat (length rws)
                   in (tbl((hashes ! i) := tbl (hashes ! i) @ [g]),
                       append_impl rws (keys ! i), ids[i := g]))))
          selection start"

text \<open>
  The two callbacks that \<^verbatim>\<open>GrouperFastImpl::Make\<close> installs: \<^verbatim>\<open>map_equal_impl_\<close>
  compares an encoded row with the stored row of a group id, \<^verbatim>\<open>map_append_impl_\<close>
  appends an encoded row to \<^verbatim>\<open>rows_\<close>.
\<close>

definition map_equal_impl :: "'img list \<Rightarrow> 'img \<Rightarrow> group_id_t \<Rightarrow> bool" where
  "map_equal_impl rws key g \<longleftrightarrow> rws ! unat g = key"

definition map_append_impl :: "'img list \<Rightarrow> 'img \<Rightarrow> 'img list" where
  "map_append_impl rws key = rws @ [key]"

record 'img GrouperFastImpl =
  fast_rows_m :: "'img list"
  fast_map_m :: SwissTable
  fast_minibatch_size_m :: nat

definition minibatch_size_min :: nat where
  "minibatch_size_min = 128"

definition GrouperFastImpl_Make :: "'img GrouperFastImpl" where
  "GrouperFastImpl_Make =
     \<lparr>fast_rows_m = [], fast_map_m = (\<lambda>h. []), fast_minibatch_size_m = minibatch_size_min\<rparr>"

definition GrouperFastImpl_Reset :: "'img GrouperFastImpl \<Rightarrow> 'img GrouperFastImpl" where
  "GrouperFastImpl_Reset s = s\<lparr>fast_rows_m := [], fast_map_m := (\<lambda>h. [])\<rparr>"

definition GrouperFastImpl_num_groups :: "'img GrouperFastImpl \<Rightarrow> group_id_t" where
  "GrouperFastImpl_num_groups s = of_nat (length (fast_rows_m s))"

text \<open>\<^verbatim>\<open>bits_to_indexes(0, ...)\<close>: the positions of the bits that are 0.\<close>

definition bits_to_indexes_0 :: "bool list \<Rightarrow> nat list" where
  "bits_to_indexes_0 bits = filter (\<lambda>i. \<not> bits ! i) [0..<length bits]"

text \<open>
  One iteration of the mini-batch loop of \<^verbatim>\<open>ConsumeImpl(batch, mode)\<close> for the rows
  \<open>start_row .. start_row + batch_size_next - 1\<close>.
\<close>

definition minibatch_step ::
  "('row \<Rightarrow> 'img) \<Rightarrow> ('img \<Rightarrow> 32 word) \<Rightarrow> GrouperMode \<Rightarrow> 'row list \<Rightarrow> nat \<Rightarrow> nat
     \<Rightarrow> 'img GrouperFastImpl \<times> group_id_t list \<times> bool list
     \<Rightarrow> 'img GrouperFastImpl \<times> group_id_t list \<times> bool list" where
  "minibatch_step img hash mode batch start_row batch_size_next st =
     (case st of (s, group_ids, null_bitmap) \<Rightarrow>
        (let pos = (if mode = kPopulate then 0 else start_row);
             batch_group_ids =
               (if mode = kLookup then replicate batch_size_next 0
                else take batch_size_next (drop pos group_ids));
             keys = map img (take batch_size_next (drop start_row batch));
             minibatch_hashes = map hash keys;
             match_bitvector = early_filter (fast_map_m s) minibatch_hashes;
             (match_bitvector, batch_group_ids) =
               find_st (fast_map_m s) (map_equal_impl (fast_rows_m s)) keys minibatch_hashes
                 match_bitvector batch_group_ids
         in if mode = kLookup
            then (s, write_at group_ids pos batch_group_ids,
                  write_at null_bitmap start_row match_bitvector)
            else
              (let ids = bits_to_indexes_0 match_bitvector;
                   (tbl, rws, batch_group_ids) =
                     map_new_keys map_equal_impl map_append_impl ids keys minibatch_hashes
                       (fast_map_m s, fast_rows_m s, batch_group_ids)
               in (s\<lparr>fast_rows_m := rws, fast_map_m := tbl\<rparr>,
                   write_at group_ids pos batch_group_ids, null_bitmap))))"

text \<open>
  The mini-batch loop. \<open>None\<close> stands for a loop that makes no progress, which is the
  case when the mini-batch size is 0.
\<close>

function minibatch_loop ::
  "('row \<Rightarrow> 'img) \<Rightarrow> ('img \<Rightarrow> 32 word) \<Rightarrow> nat \<Rightarrow> GrouperMode \<Rightarrow> 'row list \<Rightarrow> nat
     \<Rightarrow> 'img GrouperFastImpl \<times> group_id_t list \<times> bool list
     \<Rightarrow> ('img GrouperFastImpl \<times> group_id_t list \<times> bool list) option" where
  "minibatch_loop img hash minibatch_size_max mode batch start_row st =
     (if start_row < length batch then
        (let batch_size_next = min (fast_minibatch_size_m (fst st)) (length batch - start_row)
         in if batch_size_next = 0 then None
            else
              (case minibatch_step img hash mode batch start_row batch_size_next st of
                 (s, group_ids, null_bitmap) \<Rightarrow>
                   minibatch_loop img hash minibatch_size_max mode batch
                     (start_row + batch_size_next)
                     (s\<lparr>fast_minibatch_size_m :=
                          min minibatch_size_max (2 * fast_minibatch_size_m s)\<rparr>,
                      group_ids, null_bitmap)))
      else Some st)"
  by pat_completeness auto
termination
  by (relation "measure (\<lambda>(img, hash, mx, mode, batch, start_row, st). length batch - start_row)")
     auto

declare minibatch_loop.simps [simp del]

text \<open>
  \<^verbatim>\<open>ConsumeImpl(batch, mode)\<close>: the buffers are allocated (the group ids for all rows,
  or for one mini-batch of maximal size in populate mode; the validity bitmap in lookup
  mode), then the loop runs.
\<close>

definition Fast_ConsumeBody ::
  "('row \<Rightarrow> 'img) \<Rightarrow> ('img \<Rightarrow> 32 word) \<Rightarrow> nat \<Rightarrow> 'img GrouperFastImpl \<Rightarrow> 'row list \<Rightarrow> GrouperMode
     \<Rightarrow> ('img GrouperFastImpl \<times> Datum) option" where
  "Fast_ConsumeBody img hash minibatch_size_max s batch mode =
     (let num_rows = length batch;
          groups_ids_size = (if mode = kPopulate then minibatch_size_max else num_rows);
          group_ids = replicate groups_ids_size 0;
          null_bitmap = (if mode = kLookup then replicate groups_ids_size False else [])
      in (case minibatch_loop img hash minibatch_size_max mode batch 0 (s, group_ids, null_bitmap) of
            None \<Rightarrow> None
          | Some (s', group_ids, null_bitmap) \<Rightarrow>
              if mode = kPopulate then Some (s', NoDatum)
              else Some (s', ArrayDatum (UInt32Array (int (length batch)) group_ids
                                           (if mode = kLookup then Some null_bitmap else None)))))"

function Fast_ConsumeImpl ::
  "('row \<Rightarrow> 'img) \<Rightarrow> ('img \<Rightarrow> 32 word) \<Rightarrow> nat \<Rightarrow> 'img GrouperFastImpl \<Rightarrow> 'row list \<Rightarrow> int \<Rightarrow> int
     \<Rightarrow> GrouperMode \<Rightarrow> (Status + ('img GrouperFastImpl \<times> Datum)) option" where
  "Fast_ConsumeImpl img hash minibatch_size_max s batch offset len mode =
     (case CheckAndCapLengthForConsume (int (length batch)) offset len of
        Inl e \<Rightarrow> Some (Inl e)
      | Inr len' \<Rightarrow>
          if offset \<noteq> 0 \<or> len' \<noteq> int (length batch)
          then Fast_ConsumeImpl img hash minibatch_size_max s (Slice batch offset len') 0 (- 1) mode
          else map_option Inr (Fast_ConsumeBody img hash minibatch_size_max s batch mode))"
  by pat_completeness auto
termination
  by (relation "measure (\<lambda>(img, hash, mx, s, batch, offset, len, mode).
                           if offset = 0 \<and> len < 0 then 0 else 1)")
     (auto simp: CheckAndCapLengthForConsume_def split: if_splits)

declare Fast_ConsumeImpl.simps [simp del]

text \<open>
  \<^verbatim>\<open>GetUniques\<close> decodes \<^verbatim>\<open>rows_\<close> in chunks of at most \<open>minibatch_size_max\<close> rows.
\<close>

function decode_loop :: "('img \<Rightarrow> 'row) \<Rightarrow> nat \<Rightarrow> 'img list \<Rightarrow> nat \<Rightarrow> 'row list \<Rightarrow> 'row list option" where
  "decode_loop unimg minibatch_size_max rws start_row out =
     (if start_row < length rws then
        (let batch_size_next = min (length rws - start_row) minibatch_size_max
         in if batch_size_next = 0 then None
            else decode_loop unimg minibatch_size_max rws (start_row + batch_size_next)
                   (out @ map unimg (take batch_size_next (drop start_row rws))))
      else Some out)"
  by pat_completeness auto
termination
  by (relation "measure (\<lambda>(unimg, mx, rws, start_row, out). length rws - start_row)") auto

declare decode_loop.simps [simp del]

definition Fast_GetUniques :: "('img \<Rightarrow> 'row) \<Rightarrow> nat \<Rightarrow> 'img GrouperFastImpl \<Rightarrow> 'row list option" where
  "Fast_GetUniques unimg minibatch_size_max s =
     decode_loop unimg minibatch_size_max (fast_rows_m s) 0 []"

text \<open>Calls on a fast grouper, as \<open>do_call\<close> and \<open>run_calls\<close> for the fallback grouper.\<close>

fun Fast_do_call ::
  "('row \<Rightarrow> 'img) \<Rightarrow> ('img \<Rightarrow> 32 word) \<Rightarrow> nat \<Rightarrow> 'img GrouperFastImpl \<Rightarrow> 'row grouper_call
     \<Rightarrow> ('img GrouperFastImpl \<times> (Status + Datum)) option" where
  "Fast_do_call img hash mx s (CallPopulate batch offset len) =
     (case Fast_ConsumeImpl img hash mx s batch offset len kPopulate of
        None \<Rightarrow> None
      | Some (Inl e) \<Rightarrow> Some (s, Inl e)
      | Some (Inr (s', d)) \<Rightarrow> Some (s', Inr d))"
| "Fast_do_call img hash mx s (CallConsume batch offset len) =
     (case Fast_ConsumeImpl img hash mx s batch offset len kConsume of
        None \<Rightarrow> None
      | Some (Inl e) \<Rightarrow> Some (s, Inl e)
      | Some (Inr (s', d)) \<Rightarrow> Some (s', Inr d))"
| "Fast_do_call img hash mx s (CallLookup batch offset len) =
     (case Fast_ConsumeImpl img hash mx s batch offset len kLookup of
        None \<Rightarrow> None
      | Some (Inl e) \<Rightarrow> Some (s, Inl e)
      | Some (Inr (s', d)) \<Rightarrow> Some (s', Inr d))"
| "Fast_do_call img hash mx s CallReset = Some (GrouperFastImpl_Reset s, Inr NoDatum)"

fun Fast_run_calls ::
  "('row \<Rightarrow> 'img) \<Rightarrow> ('img \<Rightarrow> 32 word) \<Rightarrow> nat \<Rightarrow> 'img GrouperFastImpl \<Rightarrow> 'row grouper_call list
     \<Rightarrow> ('img GrouperFastImpl \<times> (Status + Datum) list) option" where
  "Fast_run_calls img hash mx s [] = Some (s, [])"
| "Fast_run_calls img hash mx s (c # cs) =
     (case Fast_do_call img hash mx s c of
        None \<Rightarrow> None
      | Some (s', r) \<Rightarrow>
          (case Fast_run_calls img hash mx s' cs of
             None \<Rightarrow> None
           | Some (s'', rs) \<Rightarrow> Some (s'', r # rs)))"

text \<open>
  The state of a fast grouper that holds the distinct rows \<open>rs\<close>, in the order of their
  first appearance: \<^verbatim>\<open>rows_\<close> holds their images, and the hash table lists the id of
  every stored row under the hash of its image, and nothing else.
\<close>

definition fast_inv ::
  "('row \<Rightarrow> 'img) \<Rightarrow> ('img \<Rightarrow> 32 word) \<Rightarrow> SwissTable \<Rightarrow> 'img list \<Rightarrow> 'row list \<Rightarrow> bool" where
  "fast_inv img hash tbl rws rs \<longleftrightarrow>
     distinct rs \<and> length rs < 2 ^ 32 \<and> rws = map img rs \<and>
     (\<forall>h g. g \<in> set (tbl h) \<longleftrightarrow> unat g < length rs \<and> hash (img (rs ! unat g)) = h)"

text \<open>
  The same for the fallback grouper, with the bytes and the offsets from which
  \<^verbatim>\<open>GetUniques\<close> decodes: \<^verbatim>\<open>offsets_\<close> starts with 0 and gets one more entry, the
  size of \<^verbatim>\<open>key_bytes_\<close>, with every key that is not empty.
\<close>

definition uniques_inv :: "GrouperImpl \<Rightarrow> bytes list \<Rightarrow> bool" where
  "uniques_inv s ks \<longleftrightarrow>
     key_bytes_m s = concat ks \<and>
     offsets_m s =
       0 # map (\<lambda>i. int (length (concat (take (Suc i) (filter (\<lambda>k. k \<noteq> []) ks)))))
             [0..<length (filter (\<lambda>k. k \<noteq> []) ks)]"

text \<open>
  A fast grouper \<open>sf\<close> and a fallback grouper \<open>s\<close> that both hold the distinct rows
  \<open>rs\<close>; the mini-batch size of the fast grouper is positive and at most the maximal one.
\<close>

definition fast_sim ::
  "('row \<Rightarrow> 'img) \<Rightarrow> ('img \<Rightarrow> 32 word) \<Rightarrow> ('row \<Rightarrow> bytes) \<Rightarrow> nat
     \<Rightarrow> 'img GrouperFastImpl \<Rightarrow> GrouperImpl \<Rightarrow> 'row list \<Rightarrow> bool" where
  "fast_sim img hash enc mx sf s rs \<longleftrightarrow>
     fast_inv img hash (fast_map_m sf) (fast_rows_m sf) rs \<and>
     grouper_inv s (map enc rs) \<and>
     0 < fast_minibatch_size_m sf \<and> fast_minibatch_size_m sf \<le> mx"

section \<open>The grouper that \<^verbatim>\<open>Grouper::Make\<close> returns\<close>

text \<open>
  \<^verbatim>\<open>GrouperFastImpl::CanUse\<close>; the byte order of the host (\<^verbatim>\<open>ARROW_LITTLE_ENDIAN\<close>) and
  the predicate \<^verbatim>\<open>is_large_binary_like\<close> on key types are parameters.
\<close>

definition CanUse :: "bool \<Rightarrow> ('t \<Rightarrow> bool) \<Rightarrow> 't list \<Rightarrow> bool" where
  "CanUse little_endian is_large_binary_like key_types =
     (if length key_types = 0 then False
      else if little_endian then \<not> list_ex is_large_binary_like key_types
      else False)"

text \<open>
  A \<^verbatim>\<open>Grouper\<close> is one of the two implementations; \<^verbatim>\<open>Grouper::Make\<close> chooses. The key
  types are taken to be ones that the encoders of the chosen implementation support.
\<close>

datatype 'img Grouper = FastGrouper "'img GrouperFastImpl" | FallbackGrouper GrouperImpl

definition Grouper_Make :: "bool \<Rightarrow> ('t \<Rightarrow> bool) \<Rightarrow> 't list \<Rightarrow> 'img Grouper" where
  "Grouper_Make little_endian is_large_binary_like key_types =
     (if CanUse little_endian is_large_binary_like key_types
      then FastGrouper GrouperFastImpl_Make
      else FallbackGrouper GrouperImpl_Make)"

text \<open>
  The virtual member functions: a call goes to the implementation behind the
  \<^verbatim>\<open>Grouper\<close>. \<open>None\<close> is a call on the fast grouper that does not return.
\<close>

fun Grouper_do_call ::
  "('row \<Rightarrow> bytes) \<Rightarrow> ('row \<Rightarrow> 'img) \<Rightarrow> ('img \<Rightarrow> 32 word) \<Rightarrow> nat \<Rightarrow> 'img Grouper
     \<Rightarrow> 'row grouper_call \<Rightarrow> ('img Grouper \<times> (Status + Datum)) option" where
  "Grouper_do_call enc img hash mx (FallbackGrouper s) c =
     (case do_call enc s c of (s', r) \<Rightarrow> Some (FallbackGrouper s', r))"
| "Grouper_do_call enc img hash mx (FastGrouper s) c =
     (case Fast_do_call img hash mx s c of
        None \<Rightarrow> None
      | Some (s', r) \<Rightarrow> Some (FastGrouper s', r))"

fun Grouper_run_calls ::
  "('row \<Rightarrow> bytes) \<Rightarrow> ('row \<Rightarrow> 'img) \<Rightarrow> ('img \<Rightarrow> 32 word) \<Rightarrow> nat \<Rightarrow> 'img Grouper
     \<Rightarrow> 'row grouper_call list \<Rightarrow> ('img Grouper \<times> (Status + Datum) list) option" where
  "Grouper_run_calls enc img hash mx g [] = Some (g, [])"
| "Grouper_run_calls enc img hash mx g (c # cs) =
     (case Grouper_do_call enc img hash mx g c of
        None \<Rightarrow> None
      | Some (g', r) \<Rightarrow>
          (case Grouper_run_calls enc img hash mx g' cs of
             None \<Rightarrow> None
           | Some (g'', rs) \<Rightarrow> Some (g'', r # rs)))"

fun Grouper_num_groups :: "'img Grouper \<Rightarrow> group_id_t" where
  "Grouper_num_groups (FallbackGrouper s) = GrouperImpl_num_groups s"
| "Grouper_num_groups (FastGrouper s) = GrouperFastImpl_num_groups s"

fun Grouper_GetUniques ::
  "(bytes \<Rightarrow> 'row option) \<Rightarrow> ('img \<Rightarrow> 'row) \<Rightarrow> nat \<Rightarrow> 'img Grouper \<Rightarrow> 'row option list option" where
  "Grouper_GetUniques dec unimg mx (FallbackGrouper s) = Some (GetUniques dec s)"
| "Grouper_GetUniques dec unimg mx (FastGrouper s) =
     map_option (map Some) (Fast_GetUniques unimg mx s)"

fun Grouper_Consume ::
  "('row \<Rightarrow> bytes) \<Rightarrow> ('row \<Rightarrow> 'img) \<Rightarrow> ('img \<Rightarrow> 32 word) \<Rightarrow> nat \<Rightarrow> 'img Grouper
     \<Rightarrow> 'row list \<Rightarrow> int \<Rightarrow> int \<Rightarrow> (Status + 'img Grouper \<times> Datum) option" where
  "Grouper_Consume enc img hash mx (FallbackGrouper s) batch offset len =
     (case Consume enc s batch offset len of
        Inl e \<Rightarrow> Some (Inl e)
      | Inr (s', d) \<Rightarrow> Some (Inr (FallbackGrouper s', d)))"
| "Grouper_Consume enc img hash mx (FastGrouper s) batch offset len =
     (case Fast_ConsumeImpl img hash mx s batch offset len kConsume of
        None \<Rightarrow> None
      | Some (Inl e) \<Rightarrow> Some (Inl e)
      | Some (Inr (s', d)) \<Rightarrow> Some (Inr (FastGrouper s', d)))"

fun Grouper_Reset :: "'img Grouper \<Rightarrow> 'img Grouper" where
  "Grouper_Reset (FallbackGrouper s) = FallbackGrouper (GrouperImpl_Reset s)"
| "Grouper_Reset (FastGrouper s) = FastGrouper (GrouperFastImpl_Reset s)"

section \<open>Row segmenters\<close>

text \<open>
  A \<^verbatim>\<open>Segment\<close> is \<open>(offset, length, is_open_end, extends)\<close>.
\<close>

datatype Segment =
  Segment (seg_offset: int) (seg_length: int) (is_open_end: bool) (seg_extends: bool)

definition MakeSegment :: "int \<Rightarrow> int \<Rightarrow> int \<Rightarrow> bool \<Rightarrow> Segment" where
  "MakeSegment batch_length offset len extends =
     Segment offset len (offset + len \<ge> batch_length) extends"

definition kDefaultExtends :: bool where
  "kDefaultExtends = True"

text \<open>
  For the segmenters a batch carries the types of its values next to its rows;
  \<open>batch.length\<close> is the number of rows.
\<close>

record ('t, 'row) ExecSpan =
  value_types :: "'t list"
  rows :: "'row list"

definition span_length :: "('t, 'row, 'more) ExecSpan_scheme \<Rightarrow> int" where
  "span_length batch = int (length (rows batch))"

definition CheckForGetSegments ::
  "('t, 'row, 'more) ExecSpan_scheme \<Rightarrow> 't list \<Rightarrow> Status + unit" where
  "CheckForGetSegments batch key_types =
     (if length (value_types batch) \<noteq> length key_types then Inl Invalid
      else if list_ex (\<lambda>i. value_types batch ! i \<noteq> key_types ! i) [0..<length key_types]
      then Inl Invalid
      else Inr ())"

subsection \<open>\<^verbatim>\<open>NoKeysSegmenter\<close>\<close>

definition NoKeysSegmenter_GetSegments :: "('t, 'row) ExecSpan \<Rightarrow> Status + Segment list" where
  "NoKeysSegmenter_GetSegments batch =
     (case CheckForGetSegments batch [] of
        Inl e \<Rightarrow> Inl e
      | Inr u \<Rightarrow>
          if span_length batch = 0 then Inr []
          else Inr [MakeSegment (span_length batch) 0 (span_length batch - 0) kDefaultExtends])"

subsection \<open>\<^verbatim>\<open>AnyKeysSegmenter\<close>\<close>

text \<open>
  The segmenter owns the grouper that \<^verbatim>\<open>Grouper::Make\<close> returns for its key types, and
  the group id of the last row it has seen. \<^verbatim>\<open>Consume(batch)\<close> is
  \<^verbatim>\<open>Consume(batch, 0, -1)\<close> by the default arguments of the interface. \<open>None\<close> is a
  call that does not return, because a call on the grouper does not.
\<close>

record 'img AnyKeysSegmenter =
  grouper_m :: "'img Grouper"
  save_group_id_m :: group_id_t

definition AnyKeysSegmenter_Make :: "bool \<Rightarrow> ('t \<Rightarrow> bool) \<Rightarrow> 't list \<Rightarrow> 'img AnyKeysSegmenter" where
  "AnyKeysSegmenter_Make little_endian is_large_binary_like key_types =
     \<lparr>grouper_m = Grouper_Make little_endian is_large_binary_like key_types,
      save_group_id_m = kNoGroupId\<rparr>"

definition AnyKeysSegmenter_Reset :: "'img AnyKeysSegmenter \<Rightarrow> 'img AnyKeysSegmenter" where
  "AnyKeysSegmenter_Reset seg =
     \<lparr>grouper_m = Grouper_Reset (grouper_m seg), save_group_id_m = kNoGroupId\<rparr>"

definition MapGroupIdAt ::
  "('row \<Rightarrow> bytes) \<Rightarrow> ('row \<Rightarrow> 'img) \<Rightarrow> ('img \<Rightarrow> 32 word) \<Rightarrow> nat \<Rightarrow> 'img Grouper
     \<Rightarrow> ('t, 'row) ExecSpan \<Rightarrow> int
     \<Rightarrow> (Status + 'img Grouper \<times> group_id_t) dchecked option" where
  "MapGroupIdAt enc img hash mx grouper batch offset =
     (case Grouper_Consume enc img hash mx grouper (rows batch) offset 1 of
        None \<Rightarrow> None
      | Some (Inl e) \<Rightarrow> Some (Returned (Inl e))
      | Some (Inr (grouper', datum)) \<Rightarrow>
          Some (case datum of
                  NoDatum \<Rightarrow> DCheckFailed
                | ArrayDatum data \<Rightarrow>
                    if null_count data = 0 \<and> 1 = array_length data
                    then Returned (Inr (grouper', array_values data ! 0))
                    else DCheckFailed))"

text \<open>
  The scan of the group ids for runs. \<open>cursor\<close> runs from 1 to \<open>data->length - 1\<close>;
  after the loop it is \<open>data->length\<close>, or 1 when the loop body never ran.
\<close>

definition scan_segments :: "group_id_t list \<Rightarrow> int \<Rightarrow> int \<Rightarrow> bool \<Rightarrow> Segment list" where
  "scan_segments group_ids batch_length data_length extends =
     (let (current_group_offset, segments) =
            fold (\<lambda>cursor (current_group_offset, segments).
                    if group_ids ! cursor \<noteq> group_ids ! current_group_offset
                    then (cursor,
                          segments @
                            [MakeSegment batch_length (int current_group_offset)
                               (int cursor - int current_group_offset)
                               (if current_group_offset = 0 then extends else False)])
                    else (current_group_offset, segments))
                 [1..<nat data_length] (0, []);
          cursor = (if 1 < data_length then nat data_length else 1)
      in segments @
           [MakeSegment batch_length (int current_group_offset)
              (int cursor - int current_group_offset)
              (if current_group_offset = 0 then extends else False)])"

definition AnyKeysSegmenter_GetSegments ::
  "('row \<Rightarrow> bytes) \<Rightarrow> ('row \<Rightarrow> 'img) \<Rightarrow> ('img \<Rightarrow> 32 word) \<Rightarrow> nat \<Rightarrow> 't list
     \<Rightarrow> 'img AnyKeysSegmenter \<Rightarrow> ('t, 'row) ExecSpan
     \<Rightarrow> (Status + 'img AnyKeysSegmenter \<times> Segment list) dchecked option" where
  "AnyKeysSegmenter_GetSegments enc img hash mx key_types seg batch =
     (case CheckForGetSegments batch key_types of
        Inl e \<Rightarrow> Some (Returned (Inl e))
      | Inr u \<Rightarrow>
          if span_length batch = 0 then Some (Returned (Inr (seg, [])))
          else
            (case (if save_group_id_m seg \<noteq> kNoGroupId
                   then (case MapGroupIdAt enc img hash mx (grouper_m seg) batch 0 of
                           None \<Rightarrow> None
                         | Some DCheckFailed \<Rightarrow> Some DCheckFailed
                         | Some (Returned (Inl e)) \<Rightarrow> Some (Returned (Inl e))
                         | Some (Returned (Inr (grouper1, group_id))) \<Rightarrow>
                             Some (Returned (Inr (grouper1, group_id = save_group_id_m seg))))
                   else Some (Returned (Inr (grouper_m seg, kDefaultExtends)))) of
               None \<Rightarrow> None
             | Some DCheckFailed \<Rightarrow> Some DCheckFailed
             | Some (Returned (Inl e)) \<Rightarrow> Some (Returned (Inl e))
             | Some (Returned (Inr (grouper1, extends))) \<Rightarrow>
                 (case Grouper_Consume enc img hash mx (Grouper_Reset grouper1) (rows batch) 0 (- 1) of
                    None \<Rightarrow> None
                  | Some (Inl e) \<Rightarrow> Some (Returned (Inl e))
                  | Some (Inr (grouper2, datum)) \<Rightarrow>
                      Some (case datum of
                              NoDatum \<Rightarrow> DCheckFailed
                            | ArrayDatum data \<Rightarrow>
                                if array_length data = span_length batch \<and> null_count data = 0
                                then Returned
                                       (Inr (\<lparr>grouper_m = grouper2,
                                              save_group_id_m =
                                                array_values data ! nat (span_length batch - 1)\<rparr>,
                                             scan_segments (array_values data) (span_length batch)
                                               (array_length data) extends))
                                else DCheckFailed))))"

text \<open>A stream of batches through one segmenter; the segments of every batch.\<close>

fun AnyKeysSegmenter_run ::
  "('row \<Rightarrow> bytes) \<Rightarrow> ('row \<Rightarrow> 'img) \<Rightarrow> ('img \<Rightarrow> 32 word) \<Rightarrow> nat \<Rightarrow> 't list
     \<Rightarrow> 'img AnyKeysSegmenter \<Rightarrow> ('t, 'row) ExecSpan list
     \<Rightarrow> (Status + 'img AnyKeysSegmenter \<times> Segment list list) dchecked option" where
  "AnyKeysSegmenter_run enc img hash mx key_types seg [] = Some (Returned (Inr (seg, [])))"
| "AnyKeysSegmenter_run enc img hash mx key_types seg (batch # batches) =
     (case AnyKeysSegmenter_GetSegments enc img hash mx key_types seg batch of
        None \<Rightarrow> None
      | Some DCheckFailed \<Rightarrow> Some DCheckFailed
      | Some (Returned (Inl e)) \<Rightarrow> Some (Returned (Inl e))
      | Some (Returned (Inr (seg', segments))) \<Rightarrow>
          (case AnyKeysSegmenter_run enc img hash mx key_types seg' batches of
             None \<Rightarrow> None
           | Some DCheckFailed \<Rightarrow> Some DCheckFailed
           | Some (Returned (Inl e)) \<Rightarrow> Some (Returned (Inl e))
           | Some (Returned (Inr (seg'', rest))) \<Rightarrow>
               Some (Returned (Inr (seg'', segments # rest)))))"

subsection \<open>\<^verbatim>\<open>SimpleKeySegmenter\<close>\<close>

text \<open>
  The segmenter for one fixed-width key column without nulls reads the first value of
  the batch: a scalar (its validity and its data), or an array (its null count, the
  bytes of its values from the array's offset on, and its length). A pointer into a
  buffer is the bytes from the pointer on; \<open>memcmp(a, b, n) == 0\<close> is \<open>memcmp_equal a b n\<close>.
\<close>

datatype KeyValue = ScalarValue bool bytes | ArrayValue int bytes nat

record 't KeyExecSpan = "('t, bytes) ExecSpan" +
  first_value :: KeyValue

definition memcmp_equal :: "bytes \<Rightarrow> bytes \<Rightarrow> nat \<Rightarrow> bool" where
  "memcmp_equal a b n \<longleftrightarrow> take n a = take n b"

record SimpleKeySegmenter =
  save_key_data_m :: bytes
  extend_was_called_m :: bool

definition SimpleKeySegmenter_Make :: "nat \<Rightarrow> SimpleKeySegmenter" where
  "SimpleKeySegmenter_Make byte_width =
     \<lparr>save_key_data_m = replicate byte_width 0, extend_was_called_m = False\<rparr>"

definition SimpleKeySegmenter_Reset :: "SimpleKeySegmenter \<Rightarrow> SimpleKeySegmenter" where
  "SimpleKeySegmenter_Reset seg = seg\<lparr>extend_was_called_m := False\<rparr>"

definition Extend :: "bytes \<Rightarrow> SimpleKeySegmenter \<Rightarrow> SimpleKeySegmenter \<times> bool" where
  "Extend data seg =
     (if \<not> extend_was_called_m seg
      then (seg\<lparr>extend_was_called_m := True\<rparr>, kDefaultExtends)
      else (seg, memcmp_equal (save_key_data_m seg) data (length (save_key_data_m seg))))"

definition SaveKeyData :: "bytes \<Rightarrow> SimpleKeySegmenter \<Rightarrow> SimpleKeySegmenter" where
  "SaveKeyData data seg =
     seg\<lparr>save_key_data_m := take (length (save_key_data_m seg)) data\<rparr>"

text \<open>
  The loop of \<^verbatim>\<open>GetMatchLength\<close>; \<open>byte_cursor\<close> is \<open>match_width * cursor\<close> throughout.
\<close>

function match_cursor :: "bytes \<Rightarrow> nat \<Rightarrow> bytes \<Rightarrow> nat \<Rightarrow> nat \<Rightarrow> nat" where
  "match_cursor match_bytes match_width array_bytes cursor len =
     (if cursor < len then
        (if \<not> memcmp_equal match_bytes (drop (match_width * cursor) array_bytes) match_width
         then cursor
         else match_cursor match_bytes match_width array_bytes (cursor + 1) len)
      else cursor)"
  by pat_completeness auto
termination
  by (relation "measure (\<lambda>(match_bytes, match_width, array_bytes, cursor, len). len - cursor)")
     auto

declare match_cursor.simps [simp del]

definition GetMatchLength :: "bytes \<Rightarrow> nat \<Rightarrow> bytes \<Rightarrow> nat \<Rightarrow> nat \<Rightarrow> nat" where
  "GetMatchLength match_bytes match_width array_bytes offset len =
     min (match_cursor match_bytes match_width array_bytes offset len) len - offset"

text \<open>
  The loop of \<^verbatim>\<open>GetSegments\<close> over an array. It ends because the value at \<open>offset\<close>
  matches itself, so that \<open>match_length\<close> is positive.
\<close>

function segment_loop ::
  "bytes \<Rightarrow> nat \<Rightarrow> nat \<Rightarrow> bool \<Rightarrow> nat \<Rightarrow> Segment list \<Rightarrow> Segment list" where
  "segment_loop data byte_width array_len extends offset segments =
     (if offset < array_len then
        (let match_length =
               GetMatchLength (drop (offset * byte_width) data) byte_width data offset array_len
         in segment_loop data byte_width array_len extends (offset + match_length)
              (segments @
                 [MakeSegment (int array_len) (int offset) (int match_length)
                    (if offset = 0 then extends else False)]))
      else segments)"
  by pat_completeness auto
termination
proof (relation "measure (\<lambda>(data, byte_width, array_len, extends, offset, segments).
                            array_len - offset)")
  show "wf (measure (\<lambda>(data, byte_width, array_len, extends, offset, segments).
                        array_len - offset))"
    by simp
next
  fix data :: bytes and byte_width array_len :: nat and extends :: bool
    and offset :: nat and segments :: "Segment list" and x :: nat
  assume lt: "offset < array_len"
    and x: "x = GetMatchLength (drop (offset * byte_width) data) byte_width data offset array_len"
  have ge: "c \<le> match_cursor m w a c l" for m w a c l
    by (induction m w a c l rule: match_cursor.induct)
       (subst match_cursor.simps, auto)
  have same: "memcmp_equal (drop (offset * byte_width) data) (drop (byte_width * offset) data) byte_width"
    by (simp add: memcmp_equal_def mult.commute)
  have "match_cursor (drop (offset * byte_width) data) byte_width data offset array_len
          = match_cursor (drop (offset * byte_width) data) byte_width data (offset + 1) array_len"
    using lt same by (subst match_cursor.simps) simp
  hence "offset + 1 \<le> match_cursor (drop (offset * byte_width) data) byte_width data offset array_len"
    using ge[of "offset + 1" "drop (offset * byte_width) data" byte_width data array_len] by simp
  hence "0 < x" using lt unfolding x GetMatchLength_def by simp
  thus "((data, byte_width, array_len, extends, offset + x,
          segments @ [MakeSegment (int array_len) (int offset) (int x)
                        (if offset = 0 then extends else False)]),
         data, byte_width, array_len, extends, offset, segments)
        \<in> measure (\<lambda>(data, byte_width, array_len, extends, offset, segments).
                      array_len - offset)"
    using lt by simp
qed

declare segment_loop.simps [simp del]

text \<open>
  \<^verbatim>\<open>GetSegments\<close>. \<open>byte_width\<close> is the width of the key type, which is also the size of
  \<^verbatim>\<open>save_key_data_\<close>; \<^verbatim>\<open>GetValuesAsBytes\<close> checks with \<^verbatim>\<open>DCHECK_GT\<close> that it is
  positive. The checks of this function are \<^verbatim>\<open>DCHECK\<close>s, which a release build
  (\<^verbatim>\<open>NDEBUG\<close>) compiles out: \<open>dchecks\<close> says whether they are compiled in.
\<close>

definition SimpleKeySegmenter_GetSegments ::
  "bool \<Rightarrow> 't \<Rightarrow> nat \<Rightarrow> SimpleKeySegmenter \<Rightarrow> 't KeyExecSpan
     \<Rightarrow> (Status + SimpleKeySegmenter \<times> Segment list) dchecked" where
  "SimpleKeySegmenter_GetSegments dchecks key_type byte_width seg batch =
     (case CheckForGetSegments batch [key_type] of
        Inl e \<Rightarrow> Returned (Inl e)
      | Inr u \<Rightarrow>
          if span_length batch = 0 then Returned (Inr (seg, []))
          else
            (case first_value batch of
               ScalarValue is_valid key_data \<Rightarrow>
                 if dchecks \<and> \<not> is_valid then DCheckFailed
                 else
                   (let (seg1, extends) = Extend key_data seg;
                        segments = [MakeSegment (span_length batch) 0 (span_length batch) extends]
                    in Returned (Inr (SaveKeyData key_data seg1, segments)))
             | ArrayValue n_nulls data array_len \<Rightarrow>
                 if dchecks \<and> (n_nulls \<noteq> 0 \<or> \<not> 0 < byte_width) then DCheckFailed
                 else
                   (let (seg1, extends) = Extend data seg;
                        segments = segment_loop data byte_width array_len extends 0 [];
                        key_data = drop ((array_len - 1) * byte_width) data
                    in Returned (Inr (SaveKeyData key_data seg1, segments)))))"

fun SimpleKeySegmenter_run ::
  "bool \<Rightarrow> 't \<Rightarrow> nat \<Rightarrow> SimpleKeySegmenter \<Rightarrow> 't KeyExecSpan list
     \<Rightarrow> (Status + SimpleKeySegmenter \<times> Segment list list) dchecked" where
  "SimpleKeySegmenter_run dchecks key_type byte_width seg [] = Returned (Inr (seg, []))"
| "SimpleKeySegmenter_run dchecks key_type byte_width seg (batch # batches) =
     (case SimpleKeySegmenter_GetSegments dchecks key_type byte_width seg batch of
        DCheckFailed \<Rightarrow> DCheckFailed
      | Returned (Inl e) \<Rightarrow> Returned (Inl e)
      | Returned (Inr (seg', segments)) \<Rightarrow>
          (case SimpleKeySegmenter_run dchecks key_type byte_width seg' batches of
             DCheckFailed \<Rightarrow> DCheckFailed
           | Returned (Inl e) \<Rightarrow> Returned (Inl e)
           | Returned (Inr (seg'', rest)) \<Rightarrow> Returned (Inr (seg'', segments # rest))))"

subsection \<open>\<^verbatim>\<open>RowSegmenter::Make\<close>\<close>

text \<open>
  The choice of the segmenter. The predicate \<^verbatim>\<open>is_fixed_width\<close> and the byte width
  \<^verbatim>\<open>byte_width()\<close> of a key type are parameters; every key type holder holds a type
  (none is \<^verbatim>\<open>NULLPTR\<close>).
\<close>

datatype 'img RowSegmenter =
    NoKeys
  | SimpleKey SimpleKeySegmenter
  | AnyKeys "'img AnyKeysSegmenter"

definition RowSegmenter_Make ::
  "bool \<Rightarrow> ('t \<Rightarrow> bool) \<Rightarrow> ('t \<Rightarrow> bool) \<Rightarrow> ('t \<Rightarrow> nat) \<Rightarrow> 't list \<Rightarrow> bool \<Rightarrow> 'img RowSegmenter" where
  "RowSegmenter_Make little_endian is_large_binary_like is_fixed_width byte_width key_types
       nullable_keys =
     (if length key_types = 0 then NoKeys
      else if \<not> nullable_keys \<and> length key_types = 1 \<and> is_fixed_width (key_types ! 0)
      then SimpleKey (SimpleKeySegmenter_Make (byte_width (key_types ! 0)))
      else AnyKeys (AnyKeysSegmenter_Make little_endian is_large_binary_like key_types))"

text \<open>
  What the scan has established when the segments \<open>segs\<close> end at row \<open>cur\<close>: they
  follow each other without gap from row 0, neighbours start with different rows, the
  rows of a segment equal its first row, and the flags are as \<^verbatim>\<open>MakeSegment\<close> sets
  them.
\<close>

definition segs_ok :: "'row list \<Rightarrow> int \<Rightarrow> bool \<Rightarrow> nat \<Rightarrow> Segment list \<Rightarrow> bool" where
  "segs_ok rws batch_length ext cur segs \<longleftrightarrow>
     successively (\<lambda>a b. seg_offset b = seg_offset a + seg_length a) segs \<and>
     successively (\<lambda>a b. rws ! nat (seg_offset b) \<noteq> rws ! nat (seg_offset a)) segs \<and>
     list_all (\<lambda>s. 0 \<le> seg_offset s \<and> 0 < seg_length s \<and>
                    (\<forall>i. seg_offset s \<le> int i \<and> int i < seg_offset s + seg_length s \<longrightarrow>
                           rws ! i = rws ! nat (seg_offset s)) \<and>
                    (is_open_end s \<longleftrightarrow> seg_offset s + seg_length s = batch_length)) segs \<and>
     (segs = [] \<longrightarrow> cur = 0) \<and>
     (segs \<noteq> [] \<longrightarrow>
        seg_offset (hd segs) = 0 \<and>
        seg_offset (last segs) + seg_length (last segs) = int cur \<and>
        (seg_extends (hd segs) \<longleftrightarrow> ext) \<and>
        list_all (\<lambda>s. \<not> seg_extends s) (tl segs))"

text \<open>
  A grouper that holds the distinct rows \<open>rs\<close>, whichever implementation it is.
\<close>

definition Grouper_inv ::
  "('row \<Rightarrow> bytes) \<Rightarrow> ('row \<Rightarrow> 'img) \<Rightarrow> ('img \<Rightarrow> 32 word) \<Rightarrow> nat \<Rightarrow> 'img Grouper
     \<Rightarrow> 'row list \<Rightarrow> bool" where
  "Grouper_inv enc img hash mx g rs \<longleftrightarrow>
     (case g of
        FallbackGrouper s \<Rightarrow> grouper_inv s (map enc rs)
      | FastGrouper s \<Rightarrow>
          fast_inv img hash (fast_map_m s) (fast_rows_m s) rs \<and>
          0 < fast_minibatch_size_m s \<and> fast_minibatch_size_m s \<le> mx)"

text \<open>
  The state of an \<^verbatim>\<open>AnyKeysSegmenter\<close> after the rows \<open>prev\<close>: the saved id is the
  sentinel when there was no row, and else the id of the last row in the grouper.
\<close>

definition segmenter_inv ::
  "('row \<Rightarrow> bytes) \<Rightarrow> ('row \<Rightarrow> 'img) \<Rightarrow> ('img \<Rightarrow> 32 word) \<Rightarrow> nat \<Rightarrow> 'img AnyKeysSegmenter
     \<Rightarrow> 'row list \<Rightarrow> bool" where
  "segmenter_inv enc img hash mx seg prev \<longleftrightarrow>
     (\<exists>rs. Grouper_inv enc img hash mx (grouper_m seg) rs \<and> Suc (length rs) < 2 ^ 32 \<and>
           (if prev = [] then save_group_id_m seg = kNoGroupId
            else last prev \<in> set rs \<and>
                 save_group_id_m seg = of_nat (first_index rs (last prev))))"

text \<open>
  Value \<open>i\<close> of an array of values of \<open>w\<close> bytes each, and a batch that the
  \<^verbatim>\<open>SimpleKeySegmenter\<close> for a key type of width \<open>w\<close> expects: its rows are the values of
  its first value, a valid scalar (the value of every row) or an array without nulls that
  is as long as the batch.
\<close>

definition row_at :: "bytes \<Rightarrow> nat \<Rightarrow> nat \<Rightarrow> bytes" where
  "row_at data w i = take w (drop (i * w) data)"

definition key_batch_ok :: "nat \<Rightarrow> 't KeyExecSpan \<Rightarrow> bool" where
  "key_batch_ok w batch \<longleftrightarrow>
     (case first_value batch of
        ScalarValue is_valid key_data \<Rightarrow>
          is_valid \<and> length key_data = w \<and>
          (\<forall>r\<in>set (rows batch). r = key_data)
      | ArrayValue n_nulls data array_len \<Rightarrow>
          n_nulls = 0 \<and> array_len = length (rows batch) \<and>
          length data = array_len * w \<and>
          rows batch = map (row_at data w) [0..<array_len])"

text \<open>
  The state of a \<^verbatim>\<open>SimpleKeySegmenter\<close> after the rows \<open>prev\<close>: \<^verbatim>\<open>Extend\<close> was called
  when there was a row, and the saved key is the last row.
\<close>

definition simple_inv :: "nat \<Rightarrow> SimpleKeySegmenter \<Rightarrow> bytes list \<Rightarrow> bool" where
  "simple_inv w seg prev \<longleftrightarrow>
     length (save_key_data_m seg) = w \<and>
     (extend_was_called_m seg \<longleftrightarrow> prev \<noteq> []) \<and>
     (prev \<noteq> [] \<longrightarrow> save_key_data_m seg = last prev)"

text \<open>
  What the segments \<open>segs\<close> of a batch with the rows \<open>rws\<close> are to be, after the rows
  \<open>prev\<close> of the batches before: none for an empty batch, and otherwise the first starts
  at row 0, each starts where the one before ends, the last ends at the batch length, all
  have positive length; the rows of a segment equal its first row and neighbouring
  segments start with different rows; \<open>is_open_end\<close> holds exactly for a segment whose
  offset plus length is the batch length; \<open>extends\<close> is false on every segment but the
  first, where it is true exactly when no row came before or the last row before equals
  row 0.
\<close>

definition segments_spec :: "'row list \<Rightarrow> 'row list \<Rightarrow> Segment list \<Rightarrow> bool" where
  "segments_spec prev rws segs \<longleftrightarrow>
     (if rws = [] then segs = []
      else segs \<noteq> [] \<and>
           seg_offset (hd segs) = 0 \<and>
           successively (\<lambda>a b. seg_offset b = seg_offset a + seg_length a) segs \<and>
           seg_offset (last segs) + seg_length (last segs) = int (length rws) \<and>
           list_all (\<lambda>s. 0 < seg_length s \<and>
                          (\<forall>i. seg_offset s \<le> int i \<and> int i < seg_offset s + seg_length s \<longrightarrow>
                                 rws ! i = rws ! nat (seg_offset s)) \<and>
                          (is_open_end s \<longleftrightarrow> seg_offset s + seg_length s = int (length rws))) segs \<and>
           successively (\<lambda>a b. rws ! nat (seg_offset b) \<noteq> rws ! nat (seg_offset a)) segs \<and>
           (seg_extends (hd segs) \<longleftrightarrow> (prev = [] \<or> last prev = rws ! 0)) \<and>
           list_all (\<lambda>s. \<not> seg_extends s) (tl segs))"

section \<open>Properties of the fallback grouper\<close>

lemma prefix_fold_inv:
  "k \<le> length ls \<Longrightarrow>
   fold (\<lambda>i (total_length, offs).
           (let total_length_before = total_length
            in (total_length + offs ! i, offs[i := total_length_before])))
        [0..<k] (0, ls @ [0])
   = (sum_list (take k ls), map (\<lambda>i. sum_list (take i ls)) [0..<k] @ drop k (ls @ [0]))"
proof (induction k)
  case 0
  then show ?case by simp
next
  case (Suc k)
  then have k: "k < length ls" by simp
  have d: "drop k ls = ls ! k # drop (Suc k) ls"
    using k by (simp add: Cons_nth_drop_Suc)
  show ?case
    using Suc k
    by (simp add: d nth_append take_Suc_conv_app_nth list_update_append)
qed

lemma int32_id: "- (2 ^ 31) \<le> x \<Longrightarrow> x < 2 ^ 31 \<Longrightarrow> int32 x = x"
  by (simp add: int32_def)

lemma int32_nat: "n < 2 ^ 31 \<Longrightarrow> int32 (int n) = int n"
  by (rule int32_id) simp_all

lemma sum_list_take_nonneg:
  assumes "\<forall>x\<in>set ls. (0 :: int) \<le> x"
  shows "0 \<le> sum_list (take k ls)" and "sum_list (take k ls) \<le> sum_list ls"
proof -
  have a: "0 \<le> sum_list (take k ls)"
    using assms by (intro sum_list_nonneg) (auto dest: in_set_takeD)
  have b: "0 \<le> sum_list (drop k ls)"
    using assms by (intro sum_list_nonneg) (auto dest: in_set_dropD)
  have "sum_list ls = sum_list (take k ls) + sum_list (drop k ls)"
    by (metis append_take_drop_id sum_list_append)
  thus "0 \<le> sum_list (take k ls)" and "sum_list (take k ls) \<le> sum_list ls"
    using a b by simp_all
qed

lemma prefix_fold32_inv:
  assumes nonneg: "\<forall>x\<in>set ls. (0 :: int) \<le> x" and small: "sum_list ls < 2 ^ 31"
  shows "k \<le> length ls \<Longrightarrow>
   fold (\<lambda>i (total_length, offs).
           (let total_length_before = total_length
            in (int32 (total_length + offs ! i), offs[i := total_length_before])))
        [0..<k] (0, ls @ [0])
   = (sum_list (take k ls), map (\<lambda>i. sum_list (take i ls)) [0..<k] @ drop k (ls @ [0]))"
proof (induction k)
  case 0
  then show ?case by simp
next
  case (Suc k)
  then have k: "k < length ls" by simp
  have d: "drop k ls = ls ! k # drop (Suc k) ls"
    using k by (simp add: Cons_nth_drop_Suc)
  have s: "sum_list (take (Suc k) ls) = sum_list (take k ls) + ls ! k"
    using k by (simp add: take_Suc_conv_app_nth)
  have "int32 (sum_list (take k ls) + ls ! k) = sum_list (take k ls) + ls ! k"
    unfolding s[symmetric]
    using sum_list_take_nonneg[OF nonneg, of "Suc k"] small by (intro int32_id) simp_all
  then show ?case
    using Suc k
    by (simp add: d nth_append take_Suc_conv_app_nth list_update_append)
qed

lemma prefix_sum_offsets_eq:
  assumes "\<forall>x\<in>set ls. (0 :: int) \<le> x" and "sum_list ls < 2 ^ 31"
  shows "prefix_sum_offsets (length ls) (ls @ [0]) = map (\<lambda>i. sum_list (take i ls)) [0..<Suc (length ls)]"
  unfolding prefix_sum_offsets_def
  by (simp add: prefix_fold32_inv[OF assms, of "length ls", simplified] list_update_append)

lemma sum_list_lengths_concat:
  "sum_list (map (\<lambda>k. int (length k)) ks) = int (length (concat ks))"
  by (induction ks) auto

lemma concat_take_drop_nth:
  "i < length ks \<Longrightarrow> concat ks = concat (take i ks) @ ks ! i @ concat (drop (Suc i) ks)"
  by (metis append_take_drop_id concat_append concat.simps(2) Cons_nth_drop_Suc)

lemma length_le_concat: "k \<in> set ks \<Longrightarrow> length k \<le> length (concat ks)"
  by (induction ks) auto

lemma map_int32_lengths:
  assumes "length (concat ks) < 2 ^ 31"
  shows "map (\<lambda>k. int32 (int (length k))) ks = map (\<lambda>k. int (length k)) ks"
proof (rule map_cong[OF refl])
  fix k assume "k \<in> set ks"
  hence "length k < 2 ^ 31" using length_le_concat[of k ks] assms by simp
  thus "int32 (int (length k)) = int (length k)" by (rule int32_nat)
qed

lemma key_at_batch:
  assumes "i < length ks" and bytes: "length (concat ks) < 2 ^ 31"
  shows "key_at (prefix_sum_offsets (length ks) (map (\<lambda>k. int32 (int (length k))) ks @ [0]))
           (concat ks) i = ks ! i"
proof -
  let ?ls = "map (\<lambda>k. int (length k)) ks"
  have nonneg: "\<forall>x\<in>set ?ls. 0 \<le> x" by auto
  have small: "sum_list ?ls < 2 ^ 31" using bytes by (simp add: sum_list_lengths_concat)
  have offs: "prefix_sum_offsets (length ks) (?ls @ [0]) = map (\<lambda>i. sum_list (take i ?ls)) [0..<Suc (length ks)]"
    using prefix_sum_offsets_eq[OF nonneg small] by simp
  have s: "\<And>j. sum_list (take j ?ls) = int (length (concat (take j ks)))"
    by (simp add: take_map sum_list_lengths_concat)
  have a: "map (\<lambda>i. sum_list (take i ?ls)) [0..<Suc (length ks)] ! i = int (length (concat (take i ks)))"
    using assms s by (simp add: nth_append del: upt_Suc)
  have b: "map (\<lambda>i. sum_list (take i ?ls)) [0..<Suc (length ks)] ! (i + 1) = int (length (concat (take (Suc i) ks)))"
    using assms s by (simp add: nth_append del: upt_Suc)
  have c: "concat (take (Suc i) ks) = concat (take i ks) @ ks ! i"
    using assms by (simp add: take_Suc_conv_app_nth)
  have "length (ks ! i) < 2 ^ 31"
    using length_le_concat[of "ks ! i" ks] assms by simp
  hence kl: "int32 (int (length (ks ! i))) = int (length (ks ! i))" by (rule int32_nat)
  show ?thesis
    unfolding map_int32_lengths[OF bytes] key_at_def offs a b c Let_def
    using concat_take_drop_nth[OF assms(1)] by (simp add: kl)
qed

lemma fold_visit_keys:
  "fold (\<lambda>i (s, visited).
           (let (s', v) = visit_key ins (f i) s in (s', visited @ [v]))) js (s, acc)
   = (fst (visit_keys ins (map f js) s), acc @ snd (visit_keys ins (map f js) s))"
  by (induction js arbitrary: s acc) (auto simp: split_beta Let_def)

lemma VisitKeys_batch:
  assumes bytes: "length (concat ks) < 2 ^ 31"
  shows "VisitKeys (length ks)
      (prefix_sum_offsets (length ks) (map (\<lambda>k. int32 (int (length k))) ks @ [0]))
      (concat ks) ins s = visit_keys ins ks s"
proof -
  let ?offs = "prefix_sum_offsets (length ks) (map (\<lambda>k. int32 (int (length k))) ks @ [0])"
  have "map (key_at ?offs (concat ks)) [0..<length ks] = ks"
    by (rule nth_equalityI) (simp_all add: key_at_batch[OF _ bytes])
  then show ?thesis
    unfolding VisitKeys_def fold_visit_keys by simp
qed

lemma first_index_less: "k \<in> set ks \<Longrightarrow> first_index ks k < length ks"
  by (induction ks) auto

lemma first_index_le: "first_index ks k \<le> length ks"
  by (induction ks) auto

lemma first_index_nth: "k \<in> set ks \<Longrightarrow> ks ! first_index ks k = k"
  by (induction ks) auto

lemma first_index_append: "k \<in> set ks \<Longrightarrow> first_index (ks @ zs) k = first_index ks k"
  by (induction ks) auto

lemma first_index_notin: "k \<notin> set ks \<Longrightarrow> first_index (ks @ [k]) k = length ks"
  by (induction ks) auto

lemma first_index_nth_distinct: "distinct ks \<Longrightarrow> i < length ks \<Longrightarrow> first_index ks (ks ! i) = i"
  by (induction ks arbitrary: i) (auto simp: nth_Cons split: nat.splits)

lemma first_index_eq_iff:
  "k \<in> set ks \<Longrightarrow> k' \<in> set ks \<Longrightarrow> first_index ks k = first_index ks k' \<longleftrightarrow> k = k'"
proof
  assume a: "first_index ks k = first_index ks k'"
  assume k: "k \<in> set ks" and k': "k' \<in> set ks"
  have "k = ks ! first_index ks k" using k by (simp add: first_index_nth)
  also have "\<dots> = ks ! first_index ks k'" by (simp only: a)
  also have "\<dots> = k'" using k' by (simp add: first_index_nth)
  finally show "k = k'" .
qed simp

lemma insert_keys_Nil [simp]: "insert_keys ks [] = ks"
  by (simp add: insert_keys_def)

lemma insert_keys_Cons [simp]: "insert_keys ks (k # keys) = insert_keys (insert_key ks k) keys"
  by (simp add: insert_keys_def)

lemma insert_keys_append: "insert_keys ks (xs @ ys) = insert_keys (insert_keys ks xs) ys"
  by (simp add: insert_keys_def)

lemma insert_key_extends: "\<exists>zs. insert_key ks k = ks @ zs"
  by (simp add: insert_key_def)

lemma insert_keys_extends: "\<exists>zs. insert_keys ks keys = ks @ zs"
proof (induction keys arbitrary: ks)
  case Nil
  show ?case by (rule exI[of _ "[]"]) simp
next
  case (Cons k keys)
  from Cons.IH[of "insert_key ks k"]
  obtain zs where zs: "insert_keys (insert_key ks k) keys = insert_key ks k @ zs" ..
  from insert_key_extends[of ks k]
  obtain ys where ys: "insert_key ks k = ks @ ys" ..
  have "insert_keys ks (k # keys) = insert_keys (insert_key ks k) keys"
    by (rule insert_keys_Cons)
  also have "\<dots> = insert_key ks k @ zs" by (rule zs)
  also have "\<dots> = ks @ (ys @ zs)" by (simp only: ys append_assoc)
  finally show ?case by (rule exI)
qed

lemma set_insert_key [simp]: "set (insert_key ks k) = insert k (set ks)"
  by (auto simp: insert_key_def)

lemma set_insert_keys [simp]: "set (insert_keys ks keys) = set ks \<union> set keys"
  by (induction keys arbitrary: ks) auto

lemma distinct_insert_key: "distinct ks \<Longrightarrow> distinct (insert_key ks k)"
  by (simp add: insert_key_def)

lemma distinct_insert_keys: "distinct ks \<Longrightarrow> distinct (insert_keys ks keys)"
  by (induction keys arbitrary: ks) (auto simp: distinct_insert_key)

lemma length_insert_key: "length (insert_key ks k) \<le> Suc (length ks)"
  by (simp add: insert_key_def)

lemma length_insert_keys: "length (insert_keys ks keys) \<le> length ks + length keys"
proof (induction keys arbitrary: ks)
  case Nil
  then show ?case by simp
next
  case (Cons k keys)
  have "length (insert_keys (insert_key ks k) keys) \<le> length (insert_key ks k) + length keys"
    by (rule Cons.IH)
  also have "\<dots> \<le> Suc (length ks) + length keys"
    using length_insert_key[of ks k] by simp
  finally show ?case by simp
qed

lemma first_index_insert_keys:
  "k \<in> set ks \<Longrightarrow> first_index (insert_keys ks keys) k = first_index ks k"
proof -
  assume k: "k \<in> set ks"
  obtain zs where "insert_keys ks keys = ks @ zs"
    using insert_keys_extends by blast
  then show ?thesis using k by (simp add: first_index_append)
qed

lemma grouper_inv_Make: "grouper_inv GrouperImpl_Make []"
  by (simp add: grouper_inv_def GrouperImpl_Make_def)

lemma grouper_inv_Reset: "grouper_inv (GrouperImpl_Reset s) []"
  by (simp add: grouper_inv_def GrouperImpl_Reset_def)

lemma visit_key_new:
  assumes "map_m s key = None"
  shows "map_m (fst (visit_key True key s)) = (map_m s)(key \<mapsto> num_groups_m s)"
    and "num_groups_m (fst (visit_key True key s)) = num_groups_m s + 1"
    and "snd (visit_key True key s) = Some (num_groups_m s)"
  using assms by (simp_all add: visit_key_def Let_def)

lemma visit_key_new_bytes:
  assumes "map_m s key = None" and bytes: "length (key_bytes_m s) + length key < 2 ^ 31"
  shows "key_bytes_m (fst (visit_key True key s)) = key_bytes_m s @ key"
    and "offsets_m (fst (visit_key True key s)) =
           (if key = [] then offsets_m s
            else offsets_m s @ [int (length (key_bytes_m s)) + int (length key)])"
proof -
  have a: "int32 (int (length key)) = int (length key)"
    and b: "int32 (int (length (key_bytes_m s))) = int (length (key_bytes_m s))"
    and c: "int32 (int (length (key_bytes_m s)) + int (length key))
              = int (length (key_bytes_m s)) + int (length key)"
    using bytes by (simp_all add: int32_id)
  show "key_bytes_m (fst (visit_key True key s)) = key_bytes_m s @ key"
    using assms(1) by (simp add: visit_key_def Let_def a b c resize_def write_at_def nat_add_distrib)
  show "offsets_m (fst (visit_key True key s)) =
           (if key = [] then offsets_m s
            else offsets_m s @ [int (length (key_bytes_m s)) + int (length key)])"
    using assms(1) by (simp add: visit_key_def Let_def a b c)
qed

lemma visit_key_old:
  assumes "map_m s key = Some g"
  shows "visit_key ins key s = (s, Some g)"
  using assms by (simp add: visit_key_def)

lemma visit_key_insert:
  assumes inv: "grouper_inv s ks" and bound: "Suc (length ks) < 2 ^ 32"
  shows "grouper_inv (fst (visit_key True k s)) (insert_key ks k) \<and>
         snd (visit_key True k s) = Some (of_nat (first_index (insert_key ks k) k))"
proof (cases "k \<in> set ks")
  case True
  have "map_m s k = Some (of_nat (first_index ks k))"
    using inv True by (simp add: grouper_inv_def)
  then have "visit_key True k s = (s, Some (of_nat (first_index ks k)))"
    by (rule visit_key_old)
  then show ?thesis
    using inv True by (simp add: insert_key_def)
next
  case False
  have d: "distinct ks" and n: "num_groups_m s = of_nat (length ks)"
    and mp: "map_m s = (\<lambda>k. if k \<in> set ks then Some (of_nat (first_index ks k)) else None)"
    using inv by (simp_all add: grouper_inv_def)
  have m: "map_m s k = None" using False by (simp add: mp)
  have fi: "first_index (ks @ [k]) k = length ks" using False by (rule first_index_notin)
  have map': "(map_m s)(k \<mapsto> num_groups_m s) =
        (\<lambda>k'. if k' \<in> set (ks @ [k]) then Some (of_nat (first_index (ks @ [k]) k')) else None)"
    unfolding mp n using False by (auto simp: fi first_index_append fun_eq_iff)
  have "grouper_inv (fst (visit_key True k s)) (ks @ [k])"
    unfolding grouper_inv_def visit_key_new(1,2)[OF m] map'
    using d False bound n by simp
  moreover have "snd (visit_key True k s) = Some (of_nat (first_index (ks @ [k]) k))"
    unfolding visit_key_new(3)[OF m] fi n by simp
  ultimately show ?thesis
    using False by (simp add: insert_key_def)
qed

lemma visit_key_lookup:
  assumes inv: "grouper_inv s ks"
  shows "visit_key False k s =
         (s, if k \<in> set ks then Some (of_nat (first_index ks k)) else None)"
proof -
  have mp: "map_m s k = (if k \<in> set ks then Some (of_nat (first_index ks k)) else None)"
    using inv by (simp add: grouper_inv_def)
  show ?thesis
    by (cases "k \<in> set ks") (simp_all add: visit_key_def mp)
qed

lemma visit_keys_insert:
  assumes "grouper_inv s ks" and "length ks + length keys < 2 ^ 32"
  shows "grouper_inv (fst (visit_keys True keys s)) (insert_keys ks keys) \<and>
         snd (visit_keys True keys s) =
           map (\<lambda>k. Some (of_nat (first_index (insert_keys ks keys) k))) keys"
  using assms
proof (induction keys arbitrary: s ks)
  case Nil
  then show ?case by simp
next
  case (Cons k keys)
  let ?s1 = "fst (visit_key True k s)"
  let ?ks1 = "insert_key ks k"
  have b: "Suc (length ks) < 2 ^ 32" using Cons.prems(2) by simp
  have h: "grouper_inv ?s1 ?ks1"
    and v: "snd (visit_key True k s) = Some (of_nat (first_index ?ks1 k))"
    using visit_key_insert[OF Cons.prems(1) b, of k] by simp_all
  have b1: "length ?ks1 + length keys < 2 ^ 32"
    using Cons.prems(2) length_insert_key[of ks k] by simp
  have fi: "first_index (insert_keys ?ks1 keys) k = first_index ?ks1 k"
    by (rule first_index_insert_keys) simp
  show ?case
    using Cons.IH[OF h b1] v fi by (simp add: split_beta)
qed

lemma visit_keys_lookup:
  assumes "grouper_inv s ks"
  shows "visit_keys False keys s =
         (s, map (\<lambda>k. if k \<in> set ks then Some (of_nat (first_index ks k)) else None) keys)"
  using assms by (induction keys) (simp_all add: visit_key_lookup)

lemma Slice_all: "Slice batch 0 (int (length batch)) = batch"
  by (simp add: Slice_def)

lemma ConsumeImpl_eq:
  "ConsumeImpl enc s batch offset len mode =
     (if offset < 0 then Inl Invalid
      else Inr (ConsumeBody enc s (capped_rows batch offset len) mode))"
proof (cases "offset < 0")
  case True
  then show ?thesis
    by (subst ConsumeImpl.simps) (simp add: CheckAndCapLengthForConsume_def)
next
  case False
  define len' where "len' = (if len < 0 then int (length batch) - offset else len)"
  have cap: "CheckAndCapLengthForConsume (int (length batch)) offset len = Inr len'"
    using False by (simp add: CheckAndCapLengthForConsume_def len'_def)
  have inner: "ConsumeImpl enc s (Slice batch offset len') 0 (- 1) mode
                 = Inr (ConsumeBody enc s (Slice batch offset len') mode)"
    by (subst ConsumeImpl.simps) (simp add: CheckAndCapLengthForConsume_def)
  have cr: "capped_rows batch offset len = Slice batch offset len'"
    by (simp add: capped_rows_def len'_def)
  show ?thesis
  proof (cases "offset \<noteq> 0 \<or> len' \<noteq> int (length batch)")
    case True
    then show ?thesis
      unfolding cr using \<open>\<not> offset < 0\<close> cap inner
      by (subst ConsumeImpl.simps) simp
  next
    case False
    then have "Slice batch offset len' = batch" by (simp add: Slice_all)
    then show ?thesis
      unfolding cr using False \<open>\<not> offset < 0\<close> cap
      by (subst ConsumeImpl.simps) simp
  qed
qed

lemma length_capped_rows: "length (capped_rows batch offset len) \<le> length batch"
  by (simp add: capped_rows_def Slice_def)

lemma capped_rows_exact:
  "0 \<le> offset \<Longrightarrow> 0 \<le> len \<Longrightarrow> offset + len \<le> int (length batch) \<Longrightarrow>
   length (capped_rows batch offset len) = nat len"
  by (simp add: capped_rows_def Slice_def)

lemma length_concat_take_le: "length (concat (take n xs)) \<le> length (concat xs)"
  by (metis append_take_drop_id concat_append le_add1 length_append)

lemma length_concat_drop_le: "length (concat (drop n xs)) \<le> length (concat xs)"
  by (metis append_take_drop_id concat_append le_add2 length_append)

lemma batch_bytes_capped: "batch_bytes enc (capped_rows batch offset len) \<le> batch_bytes enc batch"
proof -
  have "length (concat (take n (drop m (map enc batch)))) \<le> length (concat (map enc batch))" for n m
    using length_concat_take_le[of n "drop m (map enc batch)"]
      length_concat_drop_le[of m "map enc batch"] by simp
  thus ?thesis by (simp add: batch_bytes_def capped_rows_def Slice_def take_map drop_map)
qed

lemma ConsumeBody_visit_keys:
  assumes bytes: "batch_bytes enc batch < 2 ^ 31"
  shows "ConsumeBody enc s batch mode =
     (case mode of
        kPopulate \<Rightarrow> (fst (visit_keys True (map enc batch) s), NoDatum)
      | kConsume \<Rightarrow>
          (fst (visit_keys True (map enc batch) s),
           ArrayDatum (UInt32Array (int (length batch))
             (map the (filter (\<lambda>v. v \<noteq> None) (snd (visit_keys True (map enc batch) s)))) None))
      | kLookup \<Rightarrow>
          (fst (visit_keys False (map enc batch) s),
           ArrayDatum (UInt32Array (int (length batch))
             (map (\<lambda>v. case v of Some group_id \<Rightarrow> group_id | None \<Rightarrow> 0)
                  (snd (visit_keys False (map enc batch) s)))
             (Some (map (\<lambda>v. v \<noteq> None) (snd (visit_keys False (map enc batch) s)))))))"
proof -
  have "VisitKeys (length batch)
          (prefix_sum_offsets (length batch) (map (\<lambda>r. int32 (int (length (enc r)))) batch @ [0]))
          (concat (map enc batch)) ins s = visit_keys ins (map enc batch) s" for ins
    using VisitKeys_batch[of "map enc batch" ins s] bytes by (simp add: comp_def batch_bytes_def)
  then show ?thesis
    by (cases mode) (simp_all add: ConsumeBody_def Let_def split_beta)
qed

lemma ConsumeBody_insert:
  assumes "grouper_inv s ks" and "length ks + length batch < 2 ^ 32" and "mode \<noteq> kLookup"
    and bytes: "batch_bytes enc batch < 2 ^ 31"
  shows "grouper_inv (fst (ConsumeBody enc s batch mode)) (insert_keys ks (map enc batch))"
    and "snd (ConsumeBody enc s batch mode) =
           (if mode = kPopulate then NoDatum
            else ArrayDatum (UInt32Array (int (length batch))
                   (group_ids_of (insert_keys ks (map enc batch)) (map enc batch)) None))"
proof -
  have b: "length ks + length (map enc batch) < 2 ^ 32" using assms(2) by simp
  note vk = visit_keys_insert[OF assms(1) b]
  show "grouper_inv (fst (ConsumeBody enc s batch mode)) (insert_keys ks (map enc batch))"
    using vk assms(3) by (cases mode) (simp_all add: ConsumeBody_visit_keys[OF bytes])
  have f: "map the (filter (\<lambda>v. v \<noteq> None) (map (\<lambda>k. Some (g k)) keys)) = map g keys"
    for g :: "bytes \<Rightarrow> group_id_t" and keys
    by (induction keys) simp_all
  show "snd (ConsumeBody enc s batch mode) =
           (if mode = kPopulate then NoDatum
            else ArrayDatum (UInt32Array (int (length batch))
                   (group_ids_of (insert_keys ks (map enc batch)) (map enc batch)) None))"
    using vk assms(3) by (cases mode) (simp_all add: ConsumeBody_visit_keys[OF bytes] f group_ids_of_def)
qed

lemma ConsumeBody_lookup:
  assumes "grouper_inv s ks" and bytes: "batch_bytes enc batch < 2 ^ 31"
  shows "ConsumeBody enc s batch kLookup =
           (s, ArrayDatum (UInt32Array (int (length batch))
                 (map (\<lambda>r. if enc r \<in> set ks then of_nat (first_index ks (enc r)) else 0) batch)
                 (Some (map (\<lambda>r. enc r \<in> set ks) batch))))"
  by (simp add: ConsumeBody_visit_keys[OF bytes] visit_keys_lookup[OF assms(1)] comp_def)

lemma unat_of_nat32: "n < 2 ^ 32 \<Longrightarrow> unat (of_nat n :: 32 word) = n"
  by (simp add: unat_of_nat)

lemma of_nat32_eq_iff:
  assumes "a < 2 ^ 32" and "b < 2 ^ 32"
  shows "(of_nat a :: 32 word) = of_nat b \<longleftrightarrow> a = b"
proof
  assume "(of_nat a :: 32 word) = of_nat b"
  then have "unat (of_nat a :: 32 word) = unat (of_nat b :: 32 word)" by simp
  then show "a = b" using assms by (simp add: unat_of_nat32)
qed simp

lemma of_nat32_less_iff:
  assumes "a < 2 ^ 32" and "b < 2 ^ 32"
  shows "(of_nat a :: 32 word) < of_nat b \<longleftrightarrow> a < b"
  using assms by (simp add: word_less_nat_alt unat_of_nat32)

lemma length_keys_after_call:
  "length (keys_after_call enc ks c) \<le> length ks + call_rows c"
proof (cases c)
  case (CallPopulate batch offset len)
  then show ?thesis
    using length_insert_keys[of ks "map enc (capped_rows batch offset len)"]
      length_capped_rows[of batch offset len] by simp
next
  case (CallConsume batch offset len)
  then show ?thesis
    using length_insert_keys[of ks "map enc (capped_rows batch offset len)"]
      length_capped_rows[of batch offset len] by simp
qed simp_all

lemma do_call_inv:
  assumes inv: "grouper_inv s ks" and bound: "length ks + call_rows c < 2 ^ 32"
    and bytes: "call_bytes enc c < 2 ^ 31"
  shows "grouper_inv (fst (do_call enc s c)) (keys_after_call enc ks c)"
proof (cases c)
  case (CallPopulate batch offset len)
  have b: "length ks + length (capped_rows batch offset len) < 2 ^ 32"
    using bound length_capped_rows[of batch offset len] CallPopulate by simp
  have byt: "batch_bytes enc (capped_rows batch offset len) < 2 ^ 31"
    using bytes batch_bytes_capped[of enc batch offset len] CallPopulate by simp
  show ?thesis
    using inv ConsumeBody_insert(1)[OF inv b _ byt, of kPopulate]
    by (simp add: CallPopulate Populate_def ConsumeImpl_eq split_beta)
next
  case (CallConsume batch offset len)
  have b: "length ks + length (capped_rows batch offset len) < 2 ^ 32"
    using bound length_capped_rows[of batch offset len] CallConsume by simp
  have byt: "batch_bytes enc (capped_rows batch offset len) < 2 ^ 31"
    using bytes batch_bytes_capped[of enc batch offset len] CallConsume by simp
  show ?thesis
    using inv ConsumeBody_insert(1)[OF inv b _ byt, of kConsume]
    by (simp add: CallConsume Consume_def ConsumeImpl_eq split_beta)
next
  case (CallLookup batch offset len)
  have byt: "batch_bytes enc (capped_rows batch offset len) < 2 ^ 31"
    using bytes batch_bytes_capped[of enc batch offset len] CallLookup by simp
  show ?thesis
    using inv by (simp add: CallLookup Lookup_def ConsumeImpl_eq ConsumeBody_lookup[OF inv byt])
next
  case CallReset
  then show ?thesis by (simp add: grouper_inv_Reset)
qed

lemma run_calls_inv:
  assumes "grouper_inv s ks" and "length ks + calls_rows calls < 2 ^ 32"
    and "calls_bytes enc calls < 2 ^ 31"
  shows "grouper_inv (fst (run_calls enc s calls)) (keys_after enc ks calls)"
  using assms
proof (induction calls arbitrary: s ks)
  case Nil
  then show ?case by (simp add: keys_after_def)
next
  case (Cons c calls)
  have b: "length ks + call_rows c < 2 ^ 32"
    using Cons.prems(2) by (simp add: calls_rows_def)
  have byt: "call_bytes enc c < 2 ^ 31" and bys: "calls_bytes enc calls < 2 ^ 31"
    using Cons.prems(3) by (simp_all add: calls_bytes_def)
  have h: "grouper_inv (fst (do_call enc s c)) (keys_after_call enc ks c)"
    by (rule do_call_inv[OF Cons.prems(1) b byt])
  have b': "length (keys_after_call enc ks c) + calls_rows calls < 2 ^ 32"
    using Cons.prems(2) length_keys_after_call[of enc ks c] by (simp add: calls_rows_def)
  show ?case
    using Cons.IH[OF h b' bys] by (simp add: split_beta keys_after_def)
qed

lemma length_keys_after: "length (keys_after enc ks calls) \<le> length ks + calls_rows calls"
proof (induction calls arbitrary: ks)
  case Nil
  then show ?case by (simp add: keys_after_def)
next
  case (Cons c calls)
  have "length (keys_after enc (keys_after_call enc ks c) calls)
          \<le> length (keys_after_call enc ks c) + calls_rows calls"
    by (rule Cons.IH)
  then show ?case
    using length_keys_after_call[of enc ks c] by (simp add: keys_after_def calls_rows_def)
qed

lemma group_ids_eq_iff:
  assumes inj: "inj enc" and d: "length ks < 2 ^ 32"
    and i: "enc r \<in> set ks" and j: "enc r' \<in> set ks"
  shows "(of_nat (first_index ks (enc r)) :: 32 word) = of_nat (first_index ks (enc r')) \<longleftrightarrow> r = r'"
proof -
  have a: "first_index ks (enc r) < 2 ^ 32" "first_index ks (enc r') < 2 ^ 32"
    using first_index_less[OF i] first_index_less[OF j] d by simp_all
  have "(of_nat (first_index ks (enc r)) :: 32 word) = of_nat (first_index ks (enc r'))
          \<longleftrightarrow> first_index ks (enc r) = first_index ks (enc r')"
    by (rule of_nat32_eq_iff[OF a])
  also have "\<dots> \<longleftrightarrow> enc r = enc r'"
    by (rule first_index_eq_iff[OF i j])
  also have "\<dots> \<longleftrightarrow> r = r'"
    using inj by (simp add: inj_eq)
  finally show ?thesis .
qed

lemma Consume_reached:
  assumes inv: "grouper_inv s ks" and bound: "length ks + length batch < 2 ^ 32" and off: "0 \<le> offset"
    and bytes: "batch_bytes enc batch < 2 ^ 31"
  shows "Consume enc s batch offset len =
           Inr (fst (ConsumeBody enc s (capped_rows batch offset len) kConsume),
                ArrayDatum (UInt32Array (int (length (capped_rows batch offset len)))
                  (group_ids_of (insert_keys ks (map enc (capped_rows batch offset len)))
                     (map enc (capped_rows batch offset len))) None))"
proof -
  have b: "length ks + length (capped_rows batch offset len) < 2 ^ 32"
    using bound length_capped_rows[of batch offset len] by simp
  have "ConsumeBody enc s (capped_rows batch offset len) kConsume =
          (fst (ConsumeBody enc s (capped_rows batch offset len) kConsume),
           snd (ConsumeBody enc s (capped_rows batch offset len) kConsume))"
    by simp
  moreover have byt: "batch_bytes enc (capped_rows batch offset len) < 2 ^ 31"
    using bytes batch_bytes_capped[of enc batch offset len] by simp
  ultimately show ?thesis
    using off ConsumeBody_insert(2)[OF inv b _ byt, of kConsume]
    by (simp add: Consume_def ConsumeImpl_eq)
qed

lemma capped_rows_whole: "capped_rows batch 0 (- 1) = batch"
  by (simp add: capped_rows_def Slice_def)




lemma run_calls_append:
  "run_calls enc s (xs @ ys) =
     (fst (run_calls enc (fst (run_calls enc s xs)) ys),
      snd (run_calls enc s xs) @ snd (run_calls enc (fst (run_calls enc s xs)) ys))"
  by (induction xs arbitrary: s) (simp_all add: split_beta)

lemma length_run_calls: "length (snd (run_calls enc s calls)) = length calls"
  by (induction calls arbitrary: s) (simp_all add: split_beta)

lemma keys_after_Cons: "keys_after enc ks (c # calls) = keys_after enc (keys_after_call enc ks c) calls"
  by (simp add: keys_after_def)

lemma keys_after_append:
  "keys_after enc ks (xs @ ys) = keys_after enc (keys_after enc ks xs) ys"
  by (simp add: keys_after_def)

lemma keys_after_call_extends:
  assumes "populate_or_consume c"
  shows "\<exists>zs. keys_after_call enc ks c = ks @ zs"
proof (cases c)
  case (CallPopulate batch offset len)
  then show ?thesis
    using insert_keys_extends[of ks "map enc (capped_rows batch offset len)"] by simp
next
  case (CallConsume batch offset len)
  then show ?thesis
    using insert_keys_extends[of ks "map enc (capped_rows batch offset len)"] by simp
next
  case (CallLookup batch offset len)
  then show ?thesis by simp
next
  case CallReset
  then show ?thesis using assms by (simp add: populate_or_consume_def)
qed

lemma keys_after_extends:
  assumes "list_all populate_or_consume calls"
  shows "\<exists>zs. keys_after enc ks calls = ks @ zs"
  using assms
proof (induction calls arbitrary: ks)
  case Nil
  show ?case by (rule exI[of _ "[]"]) (simp add: keys_after_def)
next
  case (Cons c calls)
  from Cons.prems have c: "populate_or_consume c" and cs: "list_all populate_or_consume calls"
    by simp_all
  from keys_after_call_extends[OF c, of enc ks]
  obtain ys where ys: "keys_after_call enc ks c = ks @ ys" ..
  from Cons.IH[OF cs, of "keys_after_call enc ks c"]
  obtain zs where zs: "keys_after enc (keys_after_call enc ks c) calls = keys_after_call enc ks c @ zs" ..
  have "keys_after enc ks (c # calls) = keys_after enc (keys_after_call enc ks c) calls"
    by (rule keys_after_Cons)
  also have "\<dots> = keys_after_call enc ks c @ zs" by (rule zs)
  also have "\<dots> = ks @ (ys @ zs)" by (simp only: ys append_assoc)
  finally show ?case by (rule exI)
qed

lemma group_ids_of_extend:
  assumes "set keys \<subseteq> set ks"
  shows "group_ids_of (ks @ zs) keys = group_ids_of ks keys"
  using assms by (auto simp: group_ids_of_def first_index_append)

lemma group_ids_of_append:
  "group_ids_of ks (xs @ ys) = group_ids_of ks xs @ group_ids_of ks ys"
  by (simp add: group_ids_of_def)

lemma consumed_subset_keys_after_call: "set (consumed_of enc c) \<subseteq> set (keys_after_call enc ks c)"
  by (cases c) auto

lemma do_call_ids:
  assumes inv: "grouper_inv s ks" and bound: "length ks + call_rows c < 2 ^ 32"
    and pc: "populate_or_consume c" and bytes: "call_bytes enc c < 2 ^ 31"
  shows "datum_ids (snd (do_call enc s c)) = group_ids_of (keys_after_call enc ks c) (consumed_of enc c)"
proof (cases c)
  case (CallPopulate batch offset len)
  have b: "length ks + length (capped_rows batch offset len) < 2 ^ 32"
    using bound length_capped_rows[of batch offset len] CallPopulate by simp
  have byt: "batch_bytes enc (capped_rows batch offset len) < 2 ^ 31"
    using bytes batch_bytes_capped[of enc batch offset len] CallPopulate by simp
  show ?thesis
    using ConsumeBody_insert(2)[OF inv b _ byt, of kPopulate]
    by (simp add: CallPopulate Populate_def ConsumeImpl_eq split_beta group_ids_of_def)
next
  case (CallConsume batch offset len)
  have b: "length ks + length (capped_rows batch offset len) < 2 ^ 32"
    using bound length_capped_rows[of batch offset len] CallConsume by simp
  have byt: "batch_bytes enc (capped_rows batch offset len) < 2 ^ 31"
    using bytes batch_bytes_capped[of enc batch offset len] CallConsume by simp
  show ?thesis
    using ConsumeBody_insert(2)[OF inv b _ byt, of kConsume]
    by (simp add: CallConsume Consume_def ConsumeImpl_eq split_beta group_ids_of_def)
next
  case (CallLookup batch offset len)
  then show ?thesis using pc by (simp add: populate_or_consume_def)
next
  case CallReset
  then show ?thesis using pc by (simp add: populate_or_consume_def)
qed

lemma run_calls_ids:
  assumes "grouper_inv s ks" and "length ks + calls_rows calls < 2 ^ 32"
    and "list_all populate_or_consume calls" and "calls_bytes enc calls < 2 ^ 31"
  shows "returned_ids (snd (run_calls enc s calls)) =
           group_ids_of (keys_after enc ks calls) (consumed_keys enc calls)"
  using assms
proof (induction calls arbitrary: s ks)
  case Nil
  then show ?case by (simp add: returned_ids_def consumed_keys_def group_ids_of_def)
next
  case (Cons c calls)
  let ?s1 = "fst (do_call enc s c)"
  let ?ks1 = "keys_after_call enc ks c"
  from Cons.prems(3) have c: "populate_or_consume c" and cs: "list_all populate_or_consume calls"
    by simp_all
  have b: "length ks + call_rows c < 2 ^ 32"
    using Cons.prems(2) by (simp add: calls_rows_def)
  have byt: "call_bytes enc c < 2 ^ 31" and bys: "calls_bytes enc calls < 2 ^ 31"
    using Cons.prems(4) by (simp_all add: calls_bytes_def)
  have h: "grouper_inv ?s1 ?ks1"
    by (rule do_call_inv[OF Cons.prems(1) b byt])
  have b': "length ?ks1 + calls_rows calls < 2 ^ 32"
    using Cons.prems(2) length_keys_after_call[of enc ks c] by (simp add: calls_rows_def)
  have ih: "returned_ids (snd (run_calls enc ?s1 calls)) =
              group_ids_of (keys_after enc ?ks1 calls) (consumed_keys enc calls)"
    by (rule Cons.IH[OF h b' cs bys])
  from keys_after_extends[OF cs, of enc ?ks1]
  obtain zs where zs: "keys_after enc ?ks1 calls = ?ks1 @ zs" ..
  have first: "datum_ids (snd (do_call enc s c)) = group_ids_of (keys_after enc ?ks1 calls) (consumed_of enc c)"
    unfolding zs group_ids_of_extend[OF consumed_subset_keys_after_call]
    by (rule do_call_ids[OF Cons.prems(1) b c byt])
  have "returned_ids (snd (run_calls enc s (c # calls))) =
          datum_ids (snd (do_call enc s c)) @ returned_ids (snd (run_calls enc ?s1 calls))"
    by (simp add: returned_ids_def split_beta)
  also have "\<dots> = group_ids_of (keys_after enc ?ks1 calls) (consumed_of enc c @ consumed_keys enc calls)"
    unfolding first ih by (simp add: group_ids_of_append)
  finally show ?case
    by (simp add: keys_after_Cons consumed_keys_def)
qed

lemma set_keys_after_consume:
  assumes "list_all is_consume calls"
  shows "set (keys_after enc ks calls) = set ks \<union> set (consumed_keys enc calls)"
  using assms
proof (induction calls arbitrary: ks)
  case Nil
  then show ?case by (simp add: keys_after_def consumed_keys_def)
next
  case (Cons c calls)
  from Cons.prems have c: "is_consume c" and cs: "list_all is_consume calls" by simp_all
  have "set (keys_after_call enc ks c) = set ks \<union> set (consumed_of enc c)"
    using c by (cases c) auto
  then show ?case
    using Cons.IH[OF cs, of "keys_after_call enc ks c"]
    by (auto simp: keys_after_Cons consumed_keys_def)
qed

lemma consumed_subset_keys_after:
  assumes "list_all populate_or_consume calls"
  shows "set (consumed_keys enc calls) \<subseteq> set (keys_after enc ks calls)"
  using assms
proof (induction calls arbitrary: ks)
  case Nil
  then show ?case by (simp add: consumed_keys_def)
next
  case (Cons c calls)
  from Cons.prems have cs: "list_all populate_or_consume calls" by simp
  from keys_after_extends[OF cs, of enc "keys_after_call enc ks c"]
  obtain zs where zs: "keys_after enc (keys_after_call enc ks c) calls = keys_after_call enc ks c @ zs" ..
  have "set (consumed_of enc c) \<subseteq> set (keys_after enc (keys_after_call enc ks c) calls)"
    unfolding zs using consumed_subset_keys_after_call[of enc c ks] by auto
  then show ?case
    using Cons.IH[OF cs, of "keys_after_call enc ks c"]
    by (simp add: keys_after_Cons consumed_keys_def)
qed

lemma group_ids_less:
  assumes "length ks < 2 ^ 32" and "set keys \<subseteq> set ks" and "g \<in> set (group_ids_of ks keys)"
  shows "g < of_nat (length ks)"
proof -
  from assms(3) obtain k where k: "k \<in> set keys" and g: "g = of_nat (first_index ks k)"
    by (auto simp: group_ids_of_def)
  have "first_index ks k < length ks"
    using k assms(2) by (auto intro: first_index_less)
  then show ?thesis
    unfolding g using assms(1) by (simp add: of_nat32_less_iff)
qed

lemma group_ids_max:
  assumes d: "distinct ks" and l: "length ks < 2 ^ 32" and eq: "set keys = set ks"
    and ne: "keys \<noteq> []"
  shows "(of_nat (length ks) :: group_id_t) = 1 + Max (set (group_ids_of ks keys))"
proof -
  have pos: "0 < length ks" using eq ne by (cases ks) auto
  define n where "n = length ks - 1"
  have n: "length ks = Suc n" using pos by (simp add: n_def)
  have "ks ! n \<in> set keys" using eq n by simp
  moreover have "first_index ks (ks ! n) = n"
    using first_index_nth_distinct[OF d, of n] n by simp
  ultimately have mem: "(of_nat n :: group_id_t) \<in> set (group_ids_of ks keys)"
    by (force simp: group_ids_of_def)
  have le: "g \<le> of_nat n" if "g \<in> set (group_ids_of ks keys)" for g
  proof -
    from that obtain k where k: "k \<in> set keys" and g: "g = of_nat (first_index ks k)"
      by (auto simp: group_ids_of_def)
    have "first_index ks k < length ks"
      using k eq by (auto intro: first_index_less)
    then have "first_index ks k \<le> n" using n by simp
    then show ?thesis
      unfolding g using l n by (simp add: word_le_nat_alt unat_of_nat32)
  qed
  have "Max (set (group_ids_of ks keys)) = of_nat n"
    by (rule Max_eqI) (use mem le in auto)
  then show ?thesis by (simp add: n)
qed


lemma group_ids_of_Nil_iff: "group_ids_of ks keys = [] \<longleftrightarrow> keys = []"
  by (simp add: group_ids_of_def)


section \<open>Properties of \<^verbatim>\<open>MakeGroupings\<close>\<close>

lemma ids_below_Suc: "ids_below xs (Suc g) = ids_below xs g + count_list xs g"
  by (induction xs) (auto simp: ids_below_def)

lemma ids_below_mono: "g \<le> h \<Longrightarrow> ids_below xs g \<le> ids_below xs h"
proof (induction h)
  case 0
  then show ?case by simp
next
  case (Suc h)
  then show ?case by (cases "g = Suc h") (simp_all add: ids_below_Suc)
qed

lemma ids_below_all: "\<forall>x\<in>set xs. x < m \<Longrightarrow> ids_below xs m = length xs"
  by (simp add: ids_below_def)

lemma ids_below_0 [simp]: "ids_below xs 0 = 0"
  by (simp add: ids_below_def)

lemma sum_counts_below:
  "sum_list (map (\<lambda>h. int (count_list xs h)) [0..<g]) = int (ids_below xs g)"
  by (induction g) (simp_all add: ids_below_Suc)

lemma count_list_take_Suc:
  "k < length xs \<Longrightarrow>
   count_list (take (Suc k) xs) g = count_list (take k xs) g + (if xs ! k = g then 1 else 0)"
  by (simp add: take_Suc_conv_app_nth)

lemma count_list_take_le: "count_list (take k xs) g \<le> count_list xs g"
proof -
  have "count_list xs g = count_list (take k xs) g + count_list (drop k xs) g"
    by (metis append_take_drop_id count_list_append)
  then show ?thesis by simp
qed

lemma count_list_take_less:
  assumes "k < length xs" and "xs ! k = g"
  shows "count_list (take k xs) g < count_list xs g"
proof -
  have "count_list (take (Suc k) xs) g \<le> count_list xs g" by (rule count_list_take_le)
  then show ?thesis using assms by (simp add: count_list_take_Suc)
qed

lemma positions_of_Suc:
  "positions_of xs (Suc k) g = positions_of xs k g @ (if xs ! k = g then [k] else [])"
  by (simp add: positions_of_def)

lemma length_positions_of:
  "k \<le> length xs \<Longrightarrow> length (positions_of xs k g) = count_list (take k xs) g"
proof (induction k)
  case 0
  then show ?case by (simp add: positions_of_def)
next
  case (Suc k)
  then show ?case by (simp add: positions_of_Suc count_list_take_Suc)
qed

lemma map_upt_update:
  assumes "j < L"
  shows "(map f [0..<L])[j := v] = map (\<lambda>g. if g = j then v else f g) [0..<L]"
  by (rule nth_equalityI) (use assms in \<open>auto simp: nth_list_update\<close>)


lemma count_ids_fold:
  assumes "k \<le> length (array_values ids)"
    and "\<forall>i<k. Value ids i < num_groups"
    and "unat num_groups \<le> length raw"
  shows "fold (\<lambda>i acc.
             (case acc of
                None \<Rightarrow> None
              | Some raw \<Rightarrow>
                  if Value ids i < num_groups
                  then Some (raw[unat (Value ids i) := raw ! unat (Value ids i) + 1])
                  else None))
          [0..<k] (Some raw)
       = Some (map (\<lambda>g. raw ! g + int (count_list (take k (map unat (array_values ids))) g))
                 [0..<length raw])"
  using assms
proof (induction k)
  case 0
  then show ?case by (simp add: map_nth)
next
  case (Suc k)
  let ?xs = "map unat (array_values ids)"
  have k: "k < length (array_values ids)" using Suc.prems(1) by simp
  have v: "Value ids k < num_groups" using Suc.prems(2) by simp
  have xk: "unat (Value ids k) = ?xs ! k" using k by (simp add: Value_def)
  have j: "?xs ! k < length raw"
    using v Suc.prems(3) by (simp add: xk[symmetric] word_less_nat_alt)
  have ih: "fold (\<lambda>i acc.
             (case acc of
                None \<Rightarrow> None
              | Some raw \<Rightarrow>
                  if Value ids i < num_groups
                  then Some (raw[unat (Value ids i) := raw ! unat (Value ids i) + 1])
                  else None))
          [0..<k] (Some raw)
       = Some (map (\<lambda>g. raw ! g + int (count_list (take k ?xs) g)) [0..<length raw])"
    using Suc by simp
  have upd: "(map (\<lambda>g. raw ! g + int (count_list (take k ?xs) g)) [0..<length raw])
               [?xs ! k := map (\<lambda>g. raw ! g + int (count_list (take k ?xs) g)) [0..<length raw] ! (?xs ! k) + 1]
             = map (\<lambda>g. raw ! g + int (count_list (take (Suc k) ?xs) g)) [0..<length raw]"
    using j k by (intro nth_equalityI) (auto simp: nth_list_update count_list_take_Suc)
  show ?case
    using v by (simp add: ih xk upd del: count_list.simps)
qed

lemma counts_to_offsets_eq:
  assumes "length cs = unat num_groups"
  shows "counts_to_offsets num_groups (cs @ [0]) =
           (map (\<lambda>g. sum_list (take g cs)) [0..<Suc (length cs)], sum_list cs)"
proof -
  have "fold (\<lambda>id (len, raw). (let offset = raw ! id in (len + offset, raw[id := len])))
             [0..<length cs] (0, cs @ [0])
          = (sum_list (take (length cs) cs),
             map (\<lambda>i. sum_list (take i cs)) [0..<length cs] @ drop (length cs) (cs @ [0]))"
    using prefix_fold_inv[of "length cs" cs] by (simp add: Let_def)
  then have "fold (\<lambda>id (len, raw). (let offset = raw ! id in (len + offset, raw[id := len])))
             [0..<length cs] (0, cs @ [0])
          = (sum_list cs, map (\<lambda>i. sum_list (take i cs)) [0..<length cs] @ [0])"
    by simp
  then show ?thesis
    unfolding counts_to_offsets_def assms[symmetric]
    by (simp add: list_update_append)
qed


lemma place_position_less:
  assumes k: "k < length xs" and lt: "\<forall>x\<in>set xs. x < m"
  shows "ids_below xs (xs ! k) + count_list (take k xs) (xs ! k) < length xs"
proof -
  have "xs ! k < m" using k lt by simp
  then have "ids_below xs (Suc (xs ! k)) \<le> ids_below xs m"
    by (intro ids_below_mono) simp
  moreover have "ids_below xs m = length xs" by (rule ids_below_all[OF lt])
  moreover have "count_list (take k xs) (xs ! k) < count_list xs (xs ! k)"
    by (rule count_list_take_less[OF k refl])
  ultimately show ?thesis by (simp add: ids_below_Suc)
qed

lemma place_step:
  assumes k: "k < length xs" and lt: "\<forall>x\<in>set xs. x < m"
    and len: "length si = length xs"
    and I: "\<forall>g<m. \<forall>j<count_list (take k xs) g.
              si ! (ids_below xs g + j) = int (positions_of xs k g ! j)"
    and g: "g < m" and j: "j < count_list (take (Suc k) xs) g"
  shows "si[ids_below xs (xs ! k) + count_list (take k xs) (xs ! k) := int k] ! (ids_below xs g + j)
           = int (positions_of xs (Suc k) g ! j)"
proof -
  let ?g0 = "xs ! k"
  let ?c0 = "count_list (take k xs) ?g0"
  let ?pos = "ids_below xs ?g0 + ?c0"
  have pos: "?pos < length si" using place_position_less[OF k lt] len by simp
  have lp: "length (positions_of xs k h) = count_list (take k xs) h" for h
    using k by (simp add: length_positions_of)
  show ?thesis
  proof (cases "g = ?g0")
    case True
    have j': "j \<le> ?c0" using j k True by (simp add: count_list_take_Suc)
    show ?thesis
    proof (cases "j = ?c0")
      case jc: True
      have "positions_of xs (Suc k) g ! j = k"
        using True jc lp[of ?g0] by (simp add: positions_of_Suc nth_append)
      then show ?thesis using True jc pos by simp
    next
      case False
      then have jl: "j < ?c0" using j' by simp
      have "positions_of xs (Suc k) g ! j = positions_of xs k g ! j"
        using True jl lp[of ?g0] by (simp add: positions_of_Suc nth_append)
      moreover have "si ! (ids_below xs g + j) = int (positions_of xs k g ! j)"
        using I g jl True by simp
      ultimately show ?thesis using True False by simp
    qed
  next
    case False
    have jl: "j < count_list (take k xs) g" using j k False by (simp add: count_list_take_Suc)
    have same: "positions_of xs (Suc k) g = positions_of xs k g"
      using False by (simp add: positions_of_Suc)
    have old: "si ! (ids_below xs g + j) = int (positions_of xs k g ! j)"
      using I g jl by simp
    have jx: "j < count_list xs g" using jl count_list_take_le[of k xs g] by simp
    have c0: "?c0 < count_list xs ?g0" by (rule count_list_take_less[OF k refl])
    have ne: "ids_below xs g + j \<noteq> ?pos"
    proof (cases "g < ?g0")
      case True
      then have "ids_below xs (Suc g) \<le> ids_below xs ?g0" by (intro ids_below_mono) simp
      then show ?thesis using jx by (simp add: ids_below_Suc)
    next
      case gf: False
      then have "?g0 < g" using False by simp
      then have "ids_below xs (Suc ?g0) \<le> ids_below xs g" by (intro ids_below_mono) simp
      then show ?thesis using c0 by (simp add: ids_below_Suc)
    qed
    show ?thesis using ne old same by simp
  qed
qed

lemma place_fold:
  assumes xs: "xs = map unat (array_values ids)"
    and k: "k \<le> length xs" and lt: "\<forall>x\<in>set xs. x < m"
  shows "fst (fold (\<lambda>i (raw, sort_indices).
                  (let id = unat (Value ids i)
                   in (raw[id := raw ! id + 1], sort_indices[nat (raw ! id) := int i])))
               [0..<k]
               (map (\<lambda>g. int (ids_below xs g)) [0..<Suc m], replicate (length xs) 0))
           = map (\<lambda>g. int (ids_below xs g) + int (count_list (take k xs) g)) [0..<Suc m] \<and>
         length (snd (fold (\<lambda>i (raw, sort_indices).
                  (let id = unat (Value ids i)
                   in (raw[id := raw ! id + 1], sort_indices[nat (raw ! id) := int i])))
               [0..<k]
               (map (\<lambda>g. int (ids_below xs g)) [0..<Suc m], replicate (length xs) 0)))
           = length xs \<and>
         (\<forall>g<m. \<forall>j<count_list (take k xs) g.
            snd (fold (\<lambda>i (raw, sort_indices).
                  (let id = unat (Value ids i)
                   in (raw[id := raw ! id + 1], sort_indices[nat (raw ! id) := int i])))
               [0..<k]
               (map (\<lambda>g. int (ids_below xs g)) [0..<Suc m], replicate (length xs) 0))
              ! (ids_below xs g + j) = int (positions_of xs k g ! j))"
  using k
proof (induction k)
  case 0
  then show ?case by simp
next
  case (Suc k)
  define G where "G = (\<lambda>i (raw :: int list, sort_indices :: int list).
                  (let id = unat (Value ids i)
                   in (raw[id := raw ! id + 1], sort_indices[nat (raw ! id) := int i])))"
  define init where
    "init = (map (\<lambda>g. int (ids_below xs g)) [0..<Suc m], replicate (length xs) (0 :: int))"
  define st where "st = fold G [0..<k] init"
  have k: "k < length xs" using Suc.prems by simp
  have ih1: "fst st = map (\<lambda>g. int (ids_below xs g) + int (count_list (take k xs) g)) [0..<Suc m]"
    and ih2: "length (snd st) = length xs"
    and ih3: "\<forall>g<m. \<forall>j<count_list (take k xs) g.
                snd st ! (ids_below xs g + j) = int (positions_of xs k g ! j)"
    using Suc unfolding st_def G_def init_def by simp_all
  have xk: "unat (Value ids k) = xs ! k" using k by (simp add: xs Value_def)
  have g0: "xs ! k < Suc m" using k lt by (simp add: less_Suc_eq)
  have rk: "fst st ! (xs ! k) = int (ids_below xs (xs ! k) + count_list (take k xs) (xs ! k))"
    using g0 by (simp add: ih1 del: upt_Suc)
  have "fold G [0..<Suc k] init = G k st"
    by (simp add: st_def)
  also have "\<dots> = ((fst st)[xs ! k := fst st ! (xs ! k) + 1],
                    (snd st)[nat (fst st ! (xs ! k)) := int k])"
    by (simp add: G_def split_beta Let_def xk)
  also have "nat (fst st ! (xs ! k)) = ids_below xs (xs ! k) + count_list (take k xs) (xs ! k)"
    by (simp only: rk nat_int)
  finally have step: "fold G [0..<Suc k] init
        = ((fst st)[xs ! k := fst st ! (xs ! k) + 1],
           (snd st)[ids_below xs (xs ! k) + count_list (take k xs) (xs ! k) := int k])" .
  have r': "(fst st)[xs ! k := fst st ! (xs ! k) + 1]
          = map (\<lambda>g. int (ids_below xs g) + int (count_list (take (Suc k) xs) g)) [0..<Suc m]"
    unfolding ih1 using g0 k
    by (intro nth_equalityI) (auto simp: nth_list_update count_list_take_Suc simp del: upt_Suc)
  have s': "\<forall>g<m. \<forall>j<count_list (take (Suc k) xs) g.
             (snd st)[ids_below xs (xs ! k) + count_list (take k xs) (xs ! k) := int k]
               ! (ids_below xs g + j) = int (positions_of xs (Suc k) g ! j)"
    using place_step[OF k lt ih2 ih3] by blast
  have "fst (fold G [0..<Suc k] init)
           = map (\<lambda>g. int (ids_below xs g) + int (count_list (take (Suc k) xs) g)) [0..<Suc m] \<and>
        length (snd (fold G [0..<Suc k] init)) = length xs \<and>
        (\<forall>g<m. \<forall>j<count_list (take (Suc k) xs) g.
            snd (fold G [0..<Suc k] init) ! (ids_below xs g + j)
              = int (positions_of xs (Suc k) g ! j))"
    unfolding step using r' ih2 s' by simp
  then show ?case
    unfolding G_def init_def .
qed


lemma perm_of_covering:
  assumes len: "length perm = n" and cover: "\<forall>i<n. int i \<in> set perm"
  shows "mset perm = mset (map int [0..<n])"
proof -
  have sub: "int ` {0..<n} \<subseteq> set perm" using cover by auto
  have cardn: "card (int ` {0..<n}) = n" by (simp add: card_image)
  have "card (set perm) \<le> n" using card_length[of perm] len by simp
  then have eq: "int ` {0..<n} = set perm"
    using sub cardn by (intro card_seteq) simp_all
  then have "card (set perm) = length perm" using cardn len by simp
  then have d: "distinct perm" by (rule card_distinct)
  have d': "distinct (map int [0..<n])" by (simp add: distinct_map)
  have "set perm = set (map int [0..<n])" using eq by simp
  with set_eq_iff_mset_eq_distinct[OF d d'] show ?thesis by blast
qed

lemma MakeGroupings_result:
  assumes nonull: "null_count ids = 0"
    and wf: "array_length ids = int (length (array_values ids))"
    and lt: "\<forall>i < length (array_values ids). Value ids i < num_groups"
    and nowrap: "unat num_groups < 2 ^ 32 - 1"
    and xs: "xs = map unat (array_values ids)"
  shows "MakeGroupings ids num_groups =
           Returned (Inr \<lparr>list_length = int (unat num_groups),
                          value_offsets = map (\<lambda>g. int (ids_below xs g)) [0..<Suc (unat num_groups)],
                          list_values = place_indices ids
                             (map (\<lambda>g. int (ids_below xs g)) [0..<Suc (unat num_groups)])\<rparr>)"
    and "\<forall>x\<in>set xs. x < unat num_groups"
proof -
  let ?m = "unat num_groups"
  let ?n = "length xs"
  show below: "\<forall>x\<in>set xs. x < ?m"
  proof
    fix x assume "x \<in> set xs"
    then obtain i where i: "i < length (array_values ids)" and x: "x = unat (array_values ids ! i)"
      unfolding xs by (auto simp: in_set_conv_nth)
    have "Value ids i < num_groups" using lt i by simp
    then show "x < ?m" by (simp add: x Value_def word_less_nat_alt)
  qed
  have m1: "unat (num_groups + 1) = Suc ?m"
  proof -
    have "unat num_groups + unat (1 :: group_id_t) < 2 ^ LENGTH(32)" using nowrap by simp
    then have "unat (num_groups + 1) = unat num_groups + unat (1 :: group_id_t)"
      by (simp only: unat_add_lem)
    then show ?thesis by simp
  qed
  have n: "nat (array_length ids) = length (array_values ids)" using wf by simp
  have cnt: "count_ids ids num_groups (replicate (Suc ?m) 0)
               = Some (map (\<lambda>g. int (count_list xs g)) [0..<?m] @ [0])"
  proof -
    have "count_ids ids num_groups (replicate (Suc ?m) 0)
            = Some (map (\<lambda>g. replicate (Suc ?m) 0 ! g + int (count_list (take (length (array_values ids)) xs) g))
                      [0..<length (replicate (Suc ?m) (0 :: int))])"
      unfolding count_ids_def n xs
      by (rule count_ids_fold) (use lt in simp_all)
    also have "map (\<lambda>g. replicate (Suc ?m) 0 ! g + int (count_list (take (length (array_values ids)) xs) g))
                      [0..<length (replicate (Suc ?m) (0 :: int))]
               = map (\<lambda>g. int (count_list xs g)) [0..<?m] @ [0]"
    proof -
      have "count_list xs ?m = 0" using below by (intro count_notin) auto
      moreover have "take (length (array_values ids)) xs = xs" by (simp add: xs)
      ultimately show ?thesis
        by (intro nth_equalityI)
           (auto simp: nth_append less_Suc_eq simp del: replicate_Suc)
    qed
    finally show ?thesis .
  qed
  have offs: "counts_to_offsets num_groups (map (\<lambda>g. int (count_list xs g)) [0..<?m] @ [0])
                = (map (\<lambda>g. int (ids_below xs g)) [0..<Suc ?m], int ?n)"
  proof -
    let ?cs = "map (\<lambda>g. int (count_list xs g)) [0..<?m]"
    have tk: "sum_list (take g ?cs) = int (ids_below xs g)" if "g \<le> ?m" for g
      using that by (simp add: take_map sum_counts_below)
    have "map (\<lambda>g. sum_list (take g ?cs)) [0..<Suc (length ?cs)]
            = map (\<lambda>g. int (ids_below xs g)) [0..<Suc ?m]"
      by (intro nth_equalityI) (auto simp: tk nth_append less_Suc_eq_le simp del: upt_Suc)
    moreover have "sum_list ?cs = int ?n"
      using tk[of ?m] ids_below_all[OF below] by simp
    ultimately show ?thesis
      using counts_to_offsets_eq[of ?cs num_groups] by simp
  qed
  have len: "array_length ids = int ?n" using wf by (simp add: xs)
  show "MakeGroupings ids num_groups =
           Returned (Inr \<lparr>list_length = int ?m,
                          value_offsets = map (\<lambda>g. int (ids_below xs g)) [0..<Suc ?m],
                          list_values = place_indices ids
                             (map (\<lambda>g. int (ids_below xs g)) [0..<Suc ?m])\<rparr>)"
    unfolding MakeGroupings_def m1 cnt
    using nonull offs len by (simp del: upt_Suc replicate_Suc)
qed


lemma place_indices_result:
  assumes wf: "array_length ids = int (length (array_values ids))"
    and xs: "xs = map unat (array_values ids)"
    and lt: "\<forall>x\<in>set xs. x < m"
  shows "length (place_indices ids (map (\<lambda>g. int (ids_below xs g)) [0..<Suc m])) = length xs"
    and "\<forall>g<m. \<forall>j<count_list xs g.
           place_indices ids (map (\<lambda>g. int (ids_below xs g)) [0..<Suc m]) ! (ids_below xs g + j)
             = int (positions_of xs (length xs) g ! j)"
proof -
  have n: "nat (array_length ids) = length xs" using wf by (simp add: xs)
  note pf = place_fold[OF xs order_refl lt]
  show "length (place_indices ids (map (\<lambda>g. int (ids_below xs g)) [0..<Suc m])) = length xs"
    unfolding place_indices_def n using pf by blast
  show "\<forall>g<m. \<forall>j<count_list xs g.
           place_indices ids (map (\<lambda>g. int (ids_below xs g)) [0..<Suc m]) ! (ids_below xs g + j)
             = int (positions_of xs (length xs) g ! j)"
    unfolding place_indices_def n using pf by simp
qed


lemma count_ids_step_None:
  "fold (\<lambda>i acc.
             (case acc of
                None \<Rightarrow> None
              | Some raw \<Rightarrow>
                  if Value ids i < num_groups
                  then Some (raw[unat (Value ids i) := raw ! unat (Value ids i) + 1])
                  else None))
        js None = None"
  by (induction js) simp_all

lemma count_ids_out_of_range:
  assumes i: "i < nat (array_length ids)" and bad: "num_groups \<le> Value ids i"
  shows "count_ids ids num_groups raw = None"
proof -
  define F where "F = (\<lambda>i (acc :: int list option).
             (case acc of
                None \<Rightarrow> None
              | Some raw \<Rightarrow>
                  if Value ids i < num_groups
                  then Some (raw[unat (Value ids i) := raw ! unat (Value ids i) + 1])
                  else None))"
  have split: "[0..<nat (array_length ids)] = [0..<i] @ i # [Suc i..<nat (array_length ids)]"
  proof -
    obtain d where d: "nat (array_length ids) = i + d" using i by (metis less_imp_add_positive)
    have "[0..<i + d] = [0..<i] @ [i..<i + d]" by (rule upt_add_eq_append) simp
    moreover have "[i..<i + d] = i # [Suc i..<i + d]" using i d by (intro upt_conv_Cons) simp
    ultimately show ?thesis by (simp only: d)
  qed
  have stuck: "fold F js None = None" for js
    unfolding F_def by (rule count_ids_step_None)
  have fail: "F i acc = None" for acc
    using bad by (cases acc) (simp_all add: F_def not_less)
  have "count_ids ids num_groups raw = fold F [0..<nat (array_length ids)] (Some raw)"
    by (simp add: count_ids_def F_def)
  also have "\<dots> = fold F [Suc i..<nat (array_length ids)] (F i (fold F [0..<i] (Some raw)))"
    by (simp only: split fold_append fold_simps comp_def)
  also have "\<dots> = None"
    by (simp only: fail stuck)
  finally show ?thesis .
qed

section \<open>Properties of the segmenters\<close>

lemma capped_rows_whole_batch: "capped_rows batch 0 (- 1) = batch"
  by (rule capped_rows_whole)

lemma list_all_snoc: "list_all P xs \<Longrightarrow> P x \<Longrightarrow> list_all P (xs @ [x])"
  by simp

lemma segs_ok_push:
  assumes ok: "segs_ok rws n ext cur segs"
    and cur: "cur < c" and c: "int c \<le> n"
    and run: "\<forall>i. cur \<le> i \<and> i < c \<longrightarrow> rws ! i = rws ! cur"
    and diff: "segs \<noteq> [] \<longrightarrow> rws ! nat (seg_offset (last segs)) \<noteq> rws ! cur"
  shows "segs_ok rws n ext c
           (segs @ [MakeSegment n (int cur) (int c - int cur) (if cur = 0 then ext else False)])"
proof -
  let ?new = "MakeSegment n (int cur) (int c - int cur) (if cur = 0 then ext else False)"
  have new: "seg_offset ?new = int cur" "seg_length ?new = int c - int cur"
       "is_open_end ?new \<longleftrightarrow> int c \<ge> n" "seg_extends ?new \<longleftrightarrow> (cur = 0 \<and> ext)"
    by (simp_all add: MakeSegment_def)
  have s1: "successively (\<lambda>a b. seg_offset b = seg_offset a + seg_length a) segs"
    and s2: "successively (\<lambda>a b. rws ! nat (seg_offset b) \<noteq> rws ! nat (seg_offset a)) segs"
    and la: "list_all (\<lambda>s. 0 \<le> seg_offset s \<and> 0 < seg_length s \<and>
                    (\<forall>i. seg_offset s \<le> int i \<and> int i < seg_offset s + seg_length s \<longrightarrow>
                           rws ! i = rws ! nat (seg_offset s)) \<and>
                    (is_open_end s \<longleftrightarrow> seg_offset s + seg_length s = n)) segs"
    and e: "segs = [] \<longrightarrow> cur = 0"
    and ne: "segs \<noteq> [] \<longrightarrow>
        seg_offset (hd segs) = 0 \<and>
        seg_offset (last segs) + seg_length (last segs) = int cur \<and>
        (seg_extends (hd segs) \<longleftrightarrow> ext) \<and>
        list_all (\<lambda>s. \<not> seg_extends s) (tl segs)"
    using ok by (simp_all add: segs_ok_def)
  have pos: "segs \<noteq> [] \<longrightarrow> 0 < cur"
  proof
    assume n0: "segs \<noteq> []"
    then have "last segs \<in> set segs" by simp
    then have "0 \<le> seg_offset (last segs) \<and> 0 < seg_length (last segs)"
      using la unfolding list_all_iff by blast
    then show "0 < cur" using ne n0 by simp
  qed
  have t1: "successively (\<lambda>a b. seg_offset b = seg_offset a + seg_length a) (segs @ [?new])"
  proof (cases "segs = []")
    case True
    then show ?thesis by simp
  next
    case False
    with ne have "seg_offset (last segs) + seg_length (last segs) = int cur" by simp
    then show ?thesis using s1 False by (simp add: successively_append_iff new)
  qed
  have t2: "successively (\<lambda>a b. rws ! nat (seg_offset b) \<noteq> rws ! nat (seg_offset a)) (segs @ [?new])"
  proof (cases "segs = []")
    case True
    then show ?thesis by simp
  next
    case False
    with diff have "rws ! nat (seg_offset (last segs)) \<noteq> rws ! cur" by simp
    then show ?thesis using s2 False by (simp add: successively_append_iff new)
  qed
  have pnew: "0 \<le> seg_offset ?new \<and> 0 < seg_length ?new \<and>
                    (\<forall>i. seg_offset ?new \<le> int i \<and> int i < seg_offset ?new + seg_length ?new \<longrightarrow>
                           rws ! i = rws ! nat (seg_offset ?new)) \<and>
                    (is_open_end ?new \<longleftrightarrow> seg_offset ?new + seg_length ?new = n)"
  proof -
    have "\<forall>i. int cur \<le> int i \<and> int i < int cur + (int c - int cur) \<longrightarrow> rws ! i = rws ! nat (int cur)"
    proof (intro allI impI)
      fix i assume "int cur \<le> int i \<and> int i < int cur + (int c - int cur)"
      then have "cur \<le> i \<and> i < c" by simp
      with run have "rws ! i = rws ! cur" by blast
      then show "rws ! i = rws ! nat (int cur)" by simp
    qed
    moreover have "0 \<le> int cur \<and> 0 < int c - int cur \<and> (int c \<ge> n \<longleftrightarrow> int cur + (int c - int cur) = n)"
      using cur c by auto
    ultimately show ?thesis unfolding new by blast
  qed
  have t3: "list_all (\<lambda>s. 0 \<le> seg_offset s \<and> 0 < seg_length s \<and>
                    (\<forall>i. seg_offset s \<le> int i \<and> int i < seg_offset s + seg_length s \<longrightarrow>
                           rws ! i = rws ! nat (seg_offset s)) \<and>
                    (is_open_end s \<longleftrightarrow> seg_offset s + seg_length s = n)) (segs @ [?new])"
    using la pnew by (rule list_all_snoc)
  have t4: "seg_offset (hd (segs @ [?new])) = 0"
    using e ne by (cases segs) (simp_all add: MakeSegment_def)
  have t5: "seg_offset (last (segs @ [?new])) + seg_length (last (segs @ [?new])) = int c"
    by (simp add: MakeSegment_def)
  have t6: "seg_extends (hd (segs @ [?new])) \<longleftrightarrow> ext"
    using e ne by (cases segs) (simp_all add: MakeSegment_def)
  have t7: "list_all (\<lambda>s. \<not> seg_extends s) (tl (segs @ [?new]))"
    using ne pos by (cases segs) (simp_all add: MakeSegment_def)
  have t0: "segs @ [?new] = [] \<longrightarrow> c = 0" by simp
  show ?thesis
    unfolding segs_ok_def using t0 t1 t2 t3 t4 t5 t6 t7 by blast
qed


lemma scan_fold:
  assumes H: "\<forall>i<n. \<forall>j<n. ids ! i = ids ! j \<longleftrightarrow> rws ! i = rws ! j"
    and k: "Suc k \<le> n"
  shows "fst (fold (\<lambda>cursor (current_group_offset, segments).
                    if ids ! cursor \<noteq> ids ! current_group_offset
                    then (cursor,
                          segments @
                            [MakeSegment (int n) (int current_group_offset)
                               (int cursor - int current_group_offset)
                               (if current_group_offset = 0 then ext else False)])
                    else (current_group_offset, segments))
                 [1..<Suc k] (0, [])) < Suc k \<and>
         segs_ok rws (int n) ext
           (fst (fold (\<lambda>cursor (current_group_offset, segments).
                    if ids ! cursor \<noteq> ids ! current_group_offset
                    then (cursor,
                          segments @
                            [MakeSegment (int n) (int current_group_offset)
                               (int cursor - int current_group_offset)
                               (if current_group_offset = 0 then ext else False)])
                    else (current_group_offset, segments))
                 [1..<Suc k] (0, [])))
           (snd (fold (\<lambda>cursor (current_group_offset, segments).
                    if ids ! cursor \<noteq> ids ! current_group_offset
                    then (cursor,
                          segments @
                            [MakeSegment (int n) (int current_group_offset)
                               (int cursor - int current_group_offset)
                               (if current_group_offset = 0 then ext else False)])
                    else (current_group_offset, segments))
                 [1..<Suc k] (0, []))) \<and>
         (\<forall>i. fst (fold (\<lambda>cursor (current_group_offset, segments).
                    if ids ! cursor \<noteq> ids ! current_group_offset
                    then (cursor,
                          segments @
                            [MakeSegment (int n) (int current_group_offset)
                               (int cursor - int current_group_offset)
                               (if current_group_offset = 0 then ext else False)])
                    else (current_group_offset, segments))
                 [1..<Suc k] (0, [])) \<le> i \<and> i < Suc k \<longrightarrow>
              rws ! i = rws ! fst (fold (\<lambda>cursor (current_group_offset, segments).
                    if ids ! cursor \<noteq> ids ! current_group_offset
                    then (cursor,
                          segments @
                            [MakeSegment (int n) (int current_group_offset)
                               (int cursor - int current_group_offset)
                               (if current_group_offset = 0 then ext else False)])
                    else (current_group_offset, segments))
                 [1..<Suc k] (0, []))) \<and>
         (snd (fold (\<lambda>cursor (current_group_offset, segments).
                    if ids ! cursor \<noteq> ids ! current_group_offset
                    then (cursor,
                          segments @
                            [MakeSegment (int n) (int current_group_offset)
                               (int cursor - int current_group_offset)
                               (if current_group_offset = 0 then ext else False)])
                    else (current_group_offset, segments))
                 [1..<Suc k] (0, [])) \<noteq> [] \<longrightarrow>
            rws ! nat (seg_offset (last (snd (fold (\<lambda>cursor (current_group_offset, segments).
                    if ids ! cursor \<noteq> ids ! current_group_offset
                    then (cursor,
                          segments @
                            [MakeSegment (int n) (int current_group_offset)
                               (int cursor - int current_group_offset)
                               (if current_group_offset = 0 then ext else False)])
                    else (current_group_offset, segments))
                 [1..<Suc k] (0, []))))) \<noteq>
            rws ! fst (fold (\<lambda>cursor (current_group_offset, segments).
                    if ids ! cursor \<noteq> ids ! current_group_offset
                    then (cursor,
                          segments @
                            [MakeSegment (int n) (int current_group_offset)
                               (int cursor - int current_group_offset)
                               (if current_group_offset = 0 then ext else False)])
                    else (current_group_offset, segments))
                 [1..<Suc k] (0, [])))"
proof -
  define step where "step = (\<lambda>cursor (current_group_offset, segments).
                    if ids ! cursor \<noteq> ids ! current_group_offset
                    then (cursor,
                          segments @
                            [MakeSegment (int n) (int current_group_offset)
                               (int cursor - int current_group_offset)
                               (if current_group_offset = 0 then ext else False)])
                    else (current_group_offset, segments))"
  define st where "st = (\<lambda>k. fold step [1..<Suc k] (0, []))"
  have "fst (st k) < Suc k \<and>
        segs_ok rws (int n) ext (fst (st k)) (snd (st k)) \<and>
        (\<forall>i. fst (st k) \<le> i \<and> i < Suc k \<longrightarrow> rws ! i = rws ! fst (st k)) \<and>
        (snd (st k) \<noteq> [] \<longrightarrow> rws ! nat (seg_offset (last (snd (st k)))) \<noteq> rws ! fst (st k))"
    using k
  proof (induction k)
    case 0
    have "st 0 = (0, [])" by (simp add: st_def)
    then show ?case by (simp add: segs_ok_def)
  next
    case (Suc k)
    let ?cur = "fst (st k)" and ?segs = "snd (st k)"
    let ?c = "Suc k"
    have c: "?c < n" using Suc.prems by simp
    have ih1: "?cur < ?c"
      and ih2: "segs_ok rws (int n) ext ?cur ?segs"
      and ih3: "\<forall>i. ?cur \<le> i \<and> i < ?c \<longrightarrow> rws ! i = rws ! ?cur"
      and ih4: "?segs \<noteq> [] \<longrightarrow> rws ! nat (seg_offset (last ?segs)) \<noteq> rws ! ?cur"
    proof -
      have "Suc k \<le> n" using Suc.prems by simp
      note ih = Suc.IH[OF this]
      show "?cur < ?c" using ih by blast
      show "segs_ok rws (int n) ext ?cur ?segs" using ih by blast
      show "\<forall>i. ?cur \<le> i \<and> i < ?c \<longrightarrow> rws ! i = rws ! ?cur" using ih by blast
      show "?segs \<noteq> [] \<longrightarrow> rws ! nat (seg_offset (last ?segs)) \<noteq> rws ! ?cur" using ih by blast
    qed
    have next_st: "st (Suc k) = step ?c (st k)"
      by (simp add: st_def)
    have test: "ids ! ?c = ids ! ?cur \<longleftrightarrow> rws ! ?c = rws ! ?cur"
      using H c ih1 by simp
    show ?case
    proof (cases "rws ! ?c = rws ! ?cur")
      case True
      then have eq: "st (Suc k) = st k"
        unfolding next_st using test by (simp add: step_def split_beta)
      have "\<forall>i. ?cur \<le> i \<and> i < Suc ?c \<longrightarrow> rws ! i = rws ! ?cur"
      proof (intro allI impI)
        fix i assume "?cur \<le> i \<and> i < Suc ?c"
        then have "(?cur \<le> i \<and> i < ?c) \<or> i = ?c" by auto
        then show "rws ! i = rws ! ?cur" using ih3 True by blast
      qed
      moreover have "?cur < Suc ?c" using ih1 by simp
      ultimately show ?thesis
        unfolding eq using ih2 ih4 by blast
    next
      case False
      let ?new = "MakeSegment (int n) (int ?cur) (int ?c - int ?cur) (if ?cur = 0 then ext else False)"
      have eq: "st (Suc k) = (?c, ?segs @ [?new])"
        unfolding next_st using test False by (simp add: step_def split_beta)
      have ok: "segs_ok rws (int n) ext ?c (?segs @ [?new])"
        by (rule segs_ok_push[OF ih2 ih1 _ ih3 ih4]) (use c in simp)
      have so: "seg_offset ?new = int ?cur" by (simp add: MakeSegment_def)
      have a: "fst (st (Suc k)) < Suc ?c" by (simp add: eq)
      have b: "segs_ok rws (int n) ext (fst (st (Suc k))) (snd (st (Suc k)))"
        using ok by (simp add: eq)
      have d: "\<forall>i. fst (st (Suc k)) \<le> i \<and> i < Suc ?c \<longrightarrow> rws ! i = rws ! fst (st (Suc k))"
      proof (intro allI impI)
        fix i assume "fst (st (Suc k)) \<le> i \<and> i < Suc ?c"
        then have "i = ?c" by (simp add: eq)
        then show "rws ! i = rws ! fst (st (Suc k))" by (simp add: eq)
      qed
      have e: "snd (st (Suc k)) \<noteq> [] \<longrightarrow>
                 rws ! nat (seg_offset (last (snd (st (Suc k))))) \<noteq> rws ! fst (st (Suc k))"
        using False by (auto simp: eq MakeSegment_def)
      show ?thesis using a b d e by blast
    qed
  qed
  then show ?thesis
    unfolding st_def step_def .
qed


lemma scan_segments_ok:
  assumes H: "\<forall>i<n. \<forall>j<n. ids ! i = ids ! j \<longleftrightarrow> rws ! i = rws ! j"
    and n: "0 < n"
  shows "segs_ok rws (int n) ext n (scan_segments ids (int n) (int n) ext)"
    and "scan_segments ids (int n) (int n) ext \<noteq> []"
proof -
  define step where "step = (\<lambda>cursor (current_group_offset, segments).
                    if ids ! cursor \<noteq> ids ! current_group_offset
                    then (cursor,
                          segments @
                            [MakeSegment (int n) (int current_group_offset)
                               (int cursor - int current_group_offset)
                               (if current_group_offset = 0 then ext else False)])
                    else (current_group_offset, segments))"
  define st where "st = fold step [1..<n] (0, [])"
  obtain k where k: "n = Suc k" using n by (cases n) simp_all
  have kn: "Suc k \<le> n" using k by simp
  note sf = scan_fold[OF H kn, of ext, folded step_def, folded k, folded st_def]
  have a: "fst st < n" using sf k by blast
  have b: "segs_ok rws (int n) ext (fst st) (snd st)" using sf by blast
  have c: "\<forall>i. fst st \<le> i \<and> i < n \<longrightarrow> rws ! i = rws ! fst st" using sf k by blast
  have d: "snd st \<noteq> [] \<longrightarrow> rws ! nat (seg_offset (last (snd st))) \<noteq> rws ! fst st" using sf by blast
  have cursor: "(if 1 < int n then nat (int n) else 1) = n" using n by auto
  have res: "scan_segments ids (int n) (int n) ext =
               snd st @ [MakeSegment (int n) (int (fst st)) (int n - int (fst st))
                           (if fst st = 0 then ext else False)]"
    unfolding scan_segments_def cursor by (simp add: st_def step_def split_beta)
  show "segs_ok rws (int n) ext n (scan_segments ids (int n) (int n) ext)"
    unfolding res by (rule segs_ok_push[OF b a _ c d]) simp
  show "scan_segments ids (int n) (int n) ext \<noteq> []"
    unfolding res by simp
qed

lemma kNoGroupId_not_index:
  assumes "i < 2 ^ 32 - 1"
  shows "(of_nat i :: group_id_t) \<noteq> kNoGroupId"
proof
  assume "(of_nat i :: group_id_t) = kNoGroupId"
  then have "unat (of_nat i :: group_id_t) = unat (- 1 :: group_id_t)"
    by (simp add: kNoGroupId_def)
  moreover have "unat (- 1 :: group_id_t) = 4294967295"
    by (simp add: unsigned_minus_1_eq_mask mask_eq_exp_minus_1)
  ultimately show False using assms by (simp add: unat_of_nat32)
qed

lemma CheckForGetSegments_same: "CheckForGetSegments batch (value_types batch) = Inr ()"
  by (simp add: CheckForGetSegments_def list_ex_iff)

lemma capped_rows_first:
  "batch \<noteq> [] \<Longrightarrow> capped_rows batch 0 1 = [batch ! 0]"
  by (cases batch) (simp_all add: capped_rows_def Slice_def)


subsection \<open>The \<^verbatim>\<open>SimpleKeySegmenter\<close>\<close>

lemma segs_ok_spec:
  assumes ne: "rws \<noteq> []" and sne: "segs \<noteq> []"
    and sok: "segs_ok rws (int (length rws)) (prev = [] \<or> last prev = rws ! 0) (length rws) segs"
  shows "segments_spec prev rws segs"
proof -
  have la: "list_all (\<lambda>s. 0 \<le> seg_offset s \<and> 0 < seg_length s \<and>
                  (\<forall>i. seg_offset s \<le> int i \<and> int i < seg_offset s + seg_length s \<longrightarrow>
                         rws ! i = rws ! nat (seg_offset s)) \<and>
                  (is_open_end s \<longleftrightarrow> seg_offset s + seg_length s = int (length rws))) segs"
    using sok unfolding segs_ok_def by blast
  have la': "list_all (\<lambda>s. 0 < seg_length s \<and>
                        (\<forall>i. seg_offset s \<le> int i \<and> int i < seg_offset s + seg_length s \<longrightarrow>
                               rws ! i = rws ! nat (seg_offset s)) \<and>
                        (is_open_end s \<longleftrightarrow> seg_offset s + seg_length s = int (length rws))) segs"
    using la unfolding list_all_iff by blast
  show ?thesis
    using ne sne la' sok unfolding segs_ok_def segments_spec_def by simp
qed

lemma match_cursor_ge: "c \<le> match_cursor m w a c l"
  by (induction m w a c l rule: match_cursor.induct) (subst match_cursor.simps, auto)

lemma match_cursor_le: "c \<le> l \<Longrightarrow> match_cursor m w a c l \<le> l"
  by (induction m w a c l rule: match_cursor.induct) (subst match_cursor.simps, auto)

lemma memcmp_equal_rows:
  "memcmp_equal (drop (p * w) data) (drop (w * c) data) w \<longleftrightarrow> row_at data w p = row_at data w c"
  by (simp add: memcmp_equal_def row_at_def mult.commute)

lemma match_cursor_run:
  "\<forall>i. c \<le> i \<and> i < match_cursor (drop (p * w) data) w data c l \<longrightarrow>
        row_at data w i = row_at data w p"
proof (induction "drop (p * w) data" w data c l rule: match_cursor.induct)
  case (1 match_width array_bytes cursor len)
  show ?case
  proof (cases "cursor < len \<and> memcmp_equal (drop (p * match_width) array_bytes)
                   (drop (match_width * cursor) array_bytes) match_width")
    case False
    hence "match_cursor (drop (p * match_width) array_bytes) match_width array_bytes cursor len = cursor"
      by (subst match_cursor.simps) auto
    thus ?thesis by auto
  next
    case True
    hence eq: "match_cursor (drop (p * match_width) array_bytes) match_width array_bytes cursor len
             = match_cursor (drop (p * match_width) array_bytes) match_width array_bytes (cursor + 1) len"
      by (subst match_cursor.simps) simp
    have here: "row_at array_bytes match_width cursor = row_at array_bytes match_width p"
      using True by (simp add: memcmp_equal_rows)
    have ih: "\<forall>i. cursor + 1 \<le> i \<and>
                 i < match_cursor (drop (p * match_width) array_bytes) match_width array_bytes (cursor + 1) len \<longrightarrow>
                 row_at array_bytes match_width i = row_at array_bytes match_width p"
      using 1 True by blast
    show ?thesis
      unfolding eq
    proof (intro allI impI)
      fix i assume i: "cursor \<le> i \<and>
          i < match_cursor (drop (p * match_width) array_bytes) match_width array_bytes (cursor + 1) len"
      show "row_at array_bytes match_width i = row_at array_bytes match_width p"
      proof (cases "i = cursor")
        case True thus ?thesis using here by simp
      next
        case False
        hence "cursor + 1 \<le> i" using i by simp
        thus ?thesis using ih i by blast
      qed
    qed
  qed
qed

lemma match_cursor_stop:
  "match_cursor (drop (p * w) data) w data c l < l \<Longrightarrow>
   row_at data w (match_cursor (drop (p * w) data) w data c l) \<noteq> row_at data w p"
proof (induction "drop (p * w) data" w data c l rule: match_cursor.induct)
  case (1 match_width array_bytes cursor len)
  show ?case
  proof (cases "cursor < len")
    case False
    hence "match_cursor (drop (p * match_width) array_bytes) match_width array_bytes cursor len = cursor"
      by (subst match_cursor.simps) auto
    thus ?thesis using 1(2) False by simp
  next
    case lt: True
    show ?thesis
    proof (cases "memcmp_equal (drop (p * match_width) array_bytes)
                   (drop (match_width * cursor) array_bytes) match_width")
      case False
      hence eq: "match_cursor (drop (p * match_width) array_bytes) match_width array_bytes cursor len = cursor"
        using lt by (subst match_cursor.simps) auto
      show ?thesis unfolding eq using False by (simp add: memcmp_equal_rows)
    next
      case True
      hence eq: "match_cursor (drop (p * match_width) array_bytes) match_width array_bytes cursor len
             = match_cursor (drop (p * match_width) array_bytes) match_width array_bytes (cursor + 1) len"
        using lt by (subst match_cursor.simps) simp
      show ?thesis
        unfolding eq using 1(1)[OF lt] True 1(2) unfolding eq by simp
    qed
  qed
qed

lemma GetMatchLength_run:
  assumes lt: "p < l" and m_def: "m = GetMatchLength (drop (p * w) data) w data p l"
  shows "0 < m" and "p + m \<le> l"
    and "\<forall>i. p \<le> i \<and> i < p + m \<longrightarrow> row_at data w i = row_at data w p"
    and "p + m < l \<longrightarrow> row_at data w (p + m) \<noteq> row_at data w p"
proof -
  define c where "c = match_cursor (drop (p * w) data) w data p l"
  have same: "memcmp_equal (drop (p * w) data) (drop (w * p) data) w"
    by (simp add: memcmp_equal_rows)
  have "c = match_cursor (drop (p * w) data) w data (p + 1) l"
    unfolding c_def using lt same by (subst match_cursor.simps) simp
  hence gt: "p + 1 \<le> c" using match_cursor_ge[of "p + 1" "drop (p * w) data" w data l] by simp
  have le: "c \<le> l" unfolding c_def using lt by (intro match_cursor_le) simp
  have m: "p + m = c" unfolding m_def GetMatchLength_def c_def[symmetric] using gt le by simp
  show "0 < m" using m gt by simp
  show "p + m \<le> l" using m le by simp
  show "\<forall>i. p \<le> i \<and> i < p + m \<longrightarrow> row_at data w i = row_at data w p"
    unfolding m c_def by (rule match_cursor_run)
  show "p + m < l \<longrightarrow> row_at data w (p + m) \<noteq> row_at data w p"
    unfolding m c_def using match_cursor_stop by blast
qed

lemma segment_loop_ok:
  assumes rw: "\<forall>i<l. rws ! i = row_at data w i"
  shows "segs_ok rws (int l) ext p segs \<Longrightarrow> p \<le> l \<Longrightarrow>
         (segs \<noteq> [] \<and> p < l \<longrightarrow> rws ! nat (seg_offset (last segs)) \<noteq> rws ! p) \<Longrightarrow>
         (p = 0 \<longleftrightarrow> segs = []) \<Longrightarrow>
         segs_ok rws (int l) ext l (segment_loop data w l ext p segs) \<and>
         (0 < l \<longrightarrow> segment_loop data w l ext p segs \<noteq> [])"
proof (induction "l - p" arbitrary: p segs rule: less_induct)
  case less
  show ?case
  proof (cases "p < l")
    case False
    hence pl: "p = l" using less.prems(2) by simp
    have "segment_loop data w l ext p segs = segs"
      using False by (subst segment_loop.simps) simp
    thus ?thesis using less.prems(1,4) pl by auto
  next
    case True
    define m where "m = GetMatchLength (drop (p * w) data) w data p l"
    define new where "new = segs @ [MakeSegment (int l) (int p) (int m) (if p = 0 then ext else False)]"
    note gm = GetMatchLength_run[OF True m_def]
    have step: "segment_loop data w l ext p segs = segment_loop data w l ext (p + m) new"
      using True by (subst segment_loop.simps) (simp add: m_def new_def Let_def)
    have run: "\<forall>i. p \<le> i \<and> i < p + m \<longrightarrow> rws ! i = rws ! p"
    proof (intro allI impI)
      fix i assume i: "p \<le> i \<and> i < p + m"
      hence il: "i < l" using gm(2) by simp
      have e1: "rws ! i = row_at data w i" using rw il by blast
      have e2: "rws ! p = row_at data w p" using rw True by blast
      have e3: "row_at data w i = row_at data w p" using gm(3) i by blast
      show "rws ! i = rws ! p" unfolding e1 e2 by (rule e3)
    qed
    have diff: "segs \<noteq> [] \<longrightarrow> rws ! nat (seg_offset (last segs)) \<noteq> rws ! p"
      using less.prems(3) True by blast
    have c: "int (p + m) \<le> int l" using gm(2) by simp
    have pm: "p < p + m" using gm(1) by simp
    have "segs_ok rws (int l) ext (p + m)
            (segs @ [MakeSegment (int l) (int p) (int (p + m) - int p) (if p = 0 then ext else False)])"
      by (rule segs_ok_push[OF less.prems(1) pm c run diff])
    hence ok': "segs_ok rws (int l) ext (p + m) new" by (simp add: new_def)
    have d': "new \<noteq> [] \<and> p + m < l \<longrightarrow> rws ! nat (seg_offset (last new)) \<noteq> rws ! (p + m)"
    proof
      assume a: "new \<noteq> [] \<and> p + m < l"
      hence e3: "row_at data w (p + m) \<noteq> row_at data w p" using gm(4) by blast
      have e1: "rws ! (p + m) = row_at data w (p + m)" using rw a by blast
      have e2: "rws ! p = row_at data w p" using rw True by blast
      have "rws ! (p + m) \<noteq> rws ! p" unfolding e1 e2 by (rule e3)
      thus "rws ! nat (seg_offset (last new)) \<noteq> rws ! (p + m)"
        by (simp add: new_def MakeSegment_def)
    qed
    have z: "(p + m = 0) \<longleftrightarrow> new = []" using gm(1) by (simp add: new_def)
    have dec: "l - (p + m) < l - p" using gm(1) True by simp
    from less.hyps[OF dec ok' gm(2) d' z] show ?thesis unfolding step .
  qed
qed

lemma segs_ok_single:
  assumes n: "0 < length rws" and all: "\<forall>i<length rws. rws ! i = rws ! 0"
  shows "segs_ok rws (int (length rws)) ext (length rws)
           [MakeSegment (int (length rws)) 0 (int (length rws)) ext]"
proof -
  have e: "segs_ok rws (int (length rws)) ext 0 []" by (simp add: segs_ok_def)
  have run: "\<forall>i. 0 \<le> i \<and> i < length rws \<longrightarrow> rws ! i = rws ! 0" using all by blast
  have "segs_ok rws (int (length rws)) ext (length rws)
          ([] @ [MakeSegment (int (length rws)) (int 0) (int (length rws) - int 0)
                   (if (0 :: nat) = 0 then ext else False)])"
    by (rule segs_ok_push[OF e n _ run]) simp_all
  thus ?thesis by simp
qed

lemma length_row_at:
  "length data = n * w \<Longrightarrow> i < n \<Longrightarrow> length (row_at data w i) = w"
proof -
  assume d: "length data = n * w" and i: "i < n"
  have "Suc i * w \<le> n * w" using i by (intro mult_le_mono1) simp
  hence "w \<le> n * w - i * w" by simp
  thus ?thesis using d by (simp add: row_at_def)
qed

lemma key_batch_rows_width:
  assumes "key_batch_ok w batch" and "r \<in> set (rows batch)"
  shows "length r = w"
proof (cases "first_value batch")
  case (ScalarValue is_valid key_data)
  have ok: "is_valid \<and> length key_data = w \<and> (\<forall>r\<in>set (rows batch). r = key_data)"
    using assms(1) unfolding key_batch_ok_def ScalarValue KeyValue.case .
  have "r = key_data" using ok assms(2) by blast
  thus ?thesis using ok by simp
next
  case (ArrayValue n_nulls data array_len)
  have ok: "n_nulls = 0 \<and> array_len = length (rows batch) \<and> length data = array_len * w \<and>
        rows batch = map (row_at data w) [0..<array_len]"
    using assms(1) unfolding key_batch_ok_def ArrayValue KeyValue.case .
  note r = ok[THEN conjunct2, THEN conjunct2, THEN conjunct2]
  note d = ok[THEN conjunct2, THEN conjunct2, THEN conjunct1]
  have "r \<in> set (map (row_at data w) [0..<array_len])" using assms(2) unfolding r .
  then obtain i where "i < array_len" and "r = row_at data w i"
    by auto
  thus ?thesis using length_row_at[OF d] by simp
qed

lemma Extend_result:
  assumes inv: "simple_inv w seg prev" and k: "take w data = key" and lk: "length key = w"
  shows "Extend data seg = (seg\<lparr>extend_was_called_m := True\<rparr>, prev = [] \<or> last prev = key)"
proof (cases "prev = []")
  case True
  thus ?thesis using inv by (simp add: Extend_def simple_inv_def kDefaultExtends_def)
next
  case False
  hence called: "extend_was_called_m seg" and save: "save_key_data_m seg = last prev"
    and ls: "length (save_key_data_m seg) = w"
    using inv unfolding simple_inv_def by blast+
  have "memcmp_equal (save_key_data_m seg) data (length (save_key_data_m seg))
          \<longleftrightarrow> last prev = key"
    using ls save k by (auto simp: memcmp_equal_def)
  moreover have "seg\<lparr>extend_was_called_m := True\<rparr> = seg" using called by simp
  ultimately show ?thesis using called False by (simp add: Extend_def)
qed

lemma SaveKeyData_inv:
  assumes inv: "simple_inv w seg prev" and k: "take w data = key" and lk: "length key = w"
    and rws: "rws \<noteq> []" "last rws = key"
  shows "simple_inv w (SaveKeyData data (seg\<lparr>extend_was_called_m := True\<rparr>)) (prev @ rws)"
  using assms by (simp add: simple_inv_def SaveKeyData_def)

lemma SimpleKey_step:
  assumes inv: "simple_inv w seg prev" and ty: "value_types batch = [key_type]"
    and ok: "key_batch_ok w batch" and w: "0 < w"
  shows "\<exists>seg' segs.
           SimpleKeySegmenter_GetSegments dchecks key_type w seg batch = Returned (Inr (seg', segs)) \<and>
           simple_inv w seg' (prev @ rows batch) \<and>
           segments_spec prev (rows batch) segs"
proof (cases "rows batch = []")
  case True
  have "SimpleKeySegmenter_GetSegments dchecks key_type w seg batch = Returned (Inr (seg, []))"
    using True CheckForGetSegments_same[of batch]
    by (simp add: SimpleKeySegmenter_GetSegments_def ty span_length_def)
  thus ?thesis using True inv by (simp add: segments_spec_def)
next
  case False
  define n where "n = length (rows batch)"
  have n0: "0 < n" using False by (simp add: n_def)
  have chk: "CheckForGetSegments batch [key_type] = Inr ()"
    using CheckForGetSegments_same[of batch] by (simp add: ty)
  have sl: "span_length batch = int n" by (simp add: span_length_def n_def)
  have sl0: "span_length batch \<noteq> 0" using n0 sl by simp
  show ?thesis
  proof (cases "first_value batch")
    case (ScalarValue is_valid key_data)
    have okf: "is_valid \<and> length key_data = w \<and> (\<forall>r\<in>set (rows batch). r = key_data)"
      using ok unfolding key_batch_ok_def ScalarValue KeyValue.case .
    have valid: is_valid and lk: "length key_data = w" using okf by simp_all
    have each: "rows batch ! i = key_data" if "i < n" for i
      using okf that unfolding n_def by (metis nth_mem)
    have r0: "rows batch ! 0 = key_data" using each n0 by blast
    have lastr: "last (rows batch) = key_data"
      using False each[of "n - 1"] n0 by (simp add: last_conv_nth n_def)
    have tk: "take w key_data = key_data" using lk by simp
    have ext: "Extend key_data seg
                 = (seg\<lparr>extend_was_called_m := True\<rparr>, prev = [] \<or> last prev = rows batch ! 0)"
      unfolding r0 by (rule Extend_result[OF inv tk lk])
    define seg' where "seg' = SaveKeyData key_data (seg\<lparr>extend_was_called_m := True\<rparr>)"
    define segs where "segs = [MakeSegment (int n) 0 (int n) (prev = [] \<or> last prev = rows batch ! 0)]"
    have inv': "simple_inv w seg' (prev @ rows batch)"
      unfolding seg'_def by (rule SaveKeyData_inv[OF inv tk lk False lastr])
    have all: "\<forall>i<length (rows batch). rows batch ! i = rows batch ! 0"
      using each r0 by (simp add: n_def)
    have "segs_ok (rows batch) (int (length (rows batch))) (prev = [] \<or> last prev = rows batch ! 0)
            (length (rows batch)) segs"
      unfolding segs_def n_def using n0 all unfolding n_def by (rule segs_ok_single)
    hence spec: "segments_spec prev (rows batch) segs"
      by (rule segs_ok_spec[OF False, rotated]) (simp add: segs_def)
    have "SimpleKeySegmenter_GetSegments dchecks key_type w seg batch = Returned (Inr (seg', segs))"
      unfolding SimpleKeySegmenter_GetSegments_def chk ScalarValue
      using sl0 valid by (simp add: ext sl seg'_def segs_def)
    thus ?thesis using inv' spec by blast
  next
    case (ArrayValue n_nulls data array_len)
    have okf: "n_nulls = 0 \<and> array_len = length (rows batch) \<and> length data = array_len * w \<and>
        rows batch = map (row_at data w) [0..<array_len]"
      using ok unfolding key_batch_ok_def ArrayValue KeyValue.case .
    have nn: "n_nulls = 0" using okf by (rule conjunct1)
    have al: "array_len = n" unfolding n_def using okf by (elim conjE)
    have ld: "length data = n * w" using okf unfolding al by (elim conjE)
    have rws: "rows batch = map (row_at data w) [0..<n]" using okf unfolding al by (elim conjE)
    have each: "rows batch ! i = row_at data w i" if "i < n" for i
    proof -
      have "map (row_at data w) [0..<n] ! i = row_at data w i" using that by simp
      thus ?thesis using rws by metis
    qed
    have r0: "rows batch ! 0 = row_at data w 0" using each n0 by blast
    have lr0: "length (rows batch ! 0) = w"
      unfolding r0 by (rule length_row_at[OF ld n0])
    have tk0: "take w data = rows batch ! 0" unfolding r0 by (simp add: row_at_def)
    have ext: "Extend data seg
                 = (seg\<lparr>extend_was_called_m := True\<rparr>, prev = [] \<or> last prev = rows batch ! 0)"
      by (rule Extend_result[OF inv tk0 lr0])
    define e where "e \<longleftrightarrow> prev = [] \<or> last prev = rows batch ! 0"
    define segs where "segs = segment_loop data w n e 0 []"
    define seg' where
      "seg' = SaveKeyData (drop ((n - 1) * w) data) (seg\<lparr>extend_was_called_m := True\<rparr>)"
    have lastr: "last (rows batch) = row_at data w (n - 1)"
      using False each[of "n - 1"] n0 by (simp add: last_conv_nth n_def)
    have tkl: "take w (drop ((n - 1) * w) data) = row_at data w (n - 1)"
      by (simp add: row_at_def)
    have ll: "length (row_at data w (n - 1)) = w"
      by (rule length_row_at[OF ld]) (use n0 in simp)
    have inv': "simple_inv w seg' (prev @ rows batch)"
      unfolding seg'_def by (rule SaveKeyData_inv[OF inv tkl ll False lastr])
    have rw: "\<forall>i<n. rows batch ! i = row_at data w i" using each by blast
    have e0: "segs_ok (rows batch) (int n) e 0 []" by (simp add: segs_ok_def)
    have lo: "segs_ok (rows batch) (int n) e n segs \<and> (0 < n \<longrightarrow> segs \<noteq> [])"
      unfolding segs_def by (rule segment_loop_ok[OF rw e0]) simp_all
    hence sne: "segs \<noteq> []" using n0 by blast
    have "segs_ok (rows batch) (int (length (rows batch))) (prev = [] \<or> last prev = rows batch ! 0)
            (length (rows batch)) segs"
      using lo unfolding n_def[symmetric] e_def by blast
    hence spec: "segments_spec prev (rows batch) segs"
      by (rule segs_ok_spec[OF False sne])
    have "SimpleKeySegmenter_GetSegments dchecks key_type w seg batch = Returned (Inr (seg', segs))"
      unfolding SimpleKeySegmenter_GetSegments_def chk ArrayValue
      using sl0 nn w by (simp add: ext al seg'_def segs_def e_def)
    thus ?thesis using inv' spec by blast
  qed
qed

lemma simple_inv_Make: "simple_inv w (SimpleKeySegmenter_Make w) []"
  by (simp add: simple_inv_def SimpleKeySegmenter_Make_def)

lemma SimpleKeySegmenter_run_inv:
  assumes w: "0 < w"
  shows "simple_inv w seg prev \<Longrightarrow>
         list_all (\<lambda>b. value_types b = [key_type] \<and> key_batch_ok w b) batches \<Longrightarrow>
         \<exists>seg' out. SimpleKeySegmenter_run dchecks key_type w seg batches = Returned (Inr (seg', out)) \<and>
           length out = length batches \<and>
           simple_inv w seg' (prev @ concat (map rows batches))"
proof (induction batches arbitrary: seg prev)
  case Nil
  then show ?case by simp
next
  case (Cons b batches)
  from Cons.prems(2) have b: "value_types b = [key_type]" "key_batch_ok w b"
    and rest: "list_all (\<lambda>b. value_types b = [key_type] \<and> key_batch_ok w b) batches"
    by simp_all
  from SimpleKey_step[OF Cons.prems(1) b w]
  obtain seg1 segs where g: "SimpleKeySegmenter_GetSegments dchecks key_type w seg b = Returned (Inr (seg1, segs))"
    and i1: "simple_inv w seg1 (prev @ rows b)" by blast
  from Cons.IH[OF i1 rest]
  obtain seg2 out where r: "SimpleKeySegmenter_run dchecks key_type w seg1 batches = Returned (Inr (seg2, out))"
    and lo: "length out = length batches"
    and i2: "simple_inv w seg2 ((prev @ rows b) @ concat (map rows batches))" by blast
  show ?case
    using g r lo i2 by simp
qed

subsection \<open>The hash table of the fast grouper\<close>

lemma word32_of_nat_unat: "(of_nat (unat g) :: 32 word) = g"
  by simp

lemma fast_find:
  assumes inv: "fast_inv img hash tbl rws rs" and inj: "inj img"
  shows "List.find (map_equal_impl rws (img r)) (tbl (hash (img r)))
           = (if r \<in> set rs then Some (of_nat (first_index rs r)) else None)"
proof -
  have d: "distinct rs" and l: "length rs < 2 ^ 32" and rw: "rws = map img rs"
    and bucket: "\<And>h g. g \<in> set (tbl h) \<longleftrightarrow> unat g < length rs \<and> hash (img (rs ! unat g)) = h"
    using inv unfolding fast_inv_def by blast+
  have sat: "g = of_nat (first_index rs r) \<and> r \<in> set rs"
    if g: "g \<in> set (tbl (hash (img r)))" and eq: "map_equal_impl rws (img r) g" for g
  proof -
    have ug: "unat g < length rs" using g bucket by blast
    then have "img (rs ! unat g) = img r" using eq by (simp add: map_equal_impl_def rw)
    then have r: "rs ! unat g = r" using inj by (simp add: inj_eq)
    then have mem: "r \<in> set rs" using ug by (metis nth_mem)
    have "first_index rs (rs ! unat g) = unat g" by (rule first_index_nth_distinct[OF d ug])
    then have "of_nat (first_index rs r) = (of_nat (unat g) :: 32 word)" using r by simp
    then show ?thesis using mem by simp
  qed
  show ?thesis
  proof (cases "r \<in> set rs")
    case True
    let ?i = "first_index rs r"
    have i: "?i < length rs" and ri: "rs ! ?i = r"
      using True by (simp_all add: first_index_less first_index_nth)
    have ui: "unat (of_nat ?i :: 32 word) = ?i" using i l by (simp add: unat_of_nat32)
    have mem: "(of_nat ?i :: 32 word) \<in> set (tbl (hash (img r)))"
      using bucket[of "of_nat ?i" "hash (img r)"] i ri by (simp add: ui)
    have ok: "map_equal_impl rws (img r) (of_nat ?i)"
      using i ri by (simp add: map_equal_impl_def rw ui)
    obtain g where f: "List.find (map_equal_impl rws (img r)) (tbl (hash (img r))) = Some g"
      using mem ok by (cases "List.find (map_equal_impl rws (img r)) (tbl (hash (img r)))")
                       (auto simp: find_None_iff)
    then have "g \<in> set (tbl (hash (img r)))" and "map_equal_impl rws (img r) g"
      by (auto simp: find_Some_iff)
    then have "g = of_nat ?i" using sat by blast
    then show ?thesis using f True by simp
  next
    case False
    have "\<not> (\<exists>g. g \<in> set (tbl (hash (img r))) \<and> map_equal_impl rws (img r) g)"
      using sat False by blast
    then show ?thesis using False by (simp add: find_None_iff)
  qed
qed

lemma fast_bucket_nonempty:
  assumes inv: "fast_inv img hash tbl rws rs" and mem: "r \<in> set rs"
  shows "tbl (hash (img r)) \<noteq> []"
proof -
  have l: "length rs < 2 ^ 32"
    and bucket: "\<And>h g. g \<in> set (tbl h) \<longleftrightarrow> unat g < length rs \<and> hash (img (rs ! unat g)) = h"
    using inv unfolding fast_inv_def by blast+
  let ?i = "first_index rs r"
  have i: "?i < length rs" and ri: "rs ! ?i = r"
    using mem by (simp_all add: first_index_less first_index_nth)
  have ui: "unat (of_nat ?i :: 32 word) = ?i" using i l by (simp add: unat_of_nat32)
  have "(of_nat ?i :: 32 word) \<in> set (tbl (hash (img r)))"
    using bucket[of "of_nat ?i" "hash (img r)"] i ri by (simp add: ui)
  then show ?thesis by auto
qed

lemma fast_inv_append:
  assumes inv: "fast_inv img hash tbl rws rs" and new: "r \<notin> set rs"
    and bound: "Suc (length rs) < 2 ^ 32"
  shows "fast_inv img hash (tbl((hash (img r)) := tbl (hash (img r)) @ [of_nat (length rws)]))
           (map_append_impl rws (img r)) (rs @ [r])"
proof -
  have d: "distinct rs" and rw: "rws = map img rs"
    and bucket: "\<And>h g. g \<in> set (tbl h) \<longleftrightarrow> unat g < length rs \<and> hash (img (rs ! unat g)) = h"
    using inv unfolding fast_inv_def by blast+
  have ul: "unat (of_nat (length rs) :: 32 word) = length rs"
    using bound by (simp add: unat_of_nat32)
  have lr: "length rws = length rs" by (simp add: rw)
  have b': "g \<in> set ((tbl((hash (img r)) := tbl (hash (img r)) @ [of_nat (length rws)])) h)
              \<longleftrightarrow> unat g < length (rs @ [r]) \<and> hash (img ((rs @ [r]) ! unat g)) = h" for h g
  proof (cases "unat g < length rs")
    case True
    then have "g \<noteq> of_nat (length rs)" using ul by auto
    then show ?thesis using True bucket[of g h] by (auto simp: lr nth_append)
  next
    case False
    have notin: "g \<notin> set (tbl h')" for h' using False bucket[of g h'] by simp
    show ?thesis
    proof (cases "g = of_nat (length rs)")
      case True
      then show ?thesis using notin ul by (auto simp: lr nth_append)
    next
      case ne: False
      have "unat g \<noteq> length rs"
      proof
        assume "unat g = length rs"
        then have "of_nat (unat g) = (of_nat (length rs) :: 32 word)" by simp
        then show False using ne by simp
      qed
      then have "\<not> unat g < length (rs @ [r])" using False by simp
      then show ?thesis using notin ne by (auto simp: lr)
    qed
  qed
  show ?thesis
    unfolding fast_inv_def using d new bound b' by (simp add: rw map_append_impl_def)
qed


lemma take_drop_update_snoc:
  assumes "k < length xs"
  shows "(ys @ drop k xs)[length ys := v] = (ys @ [v]) @ drop (Suc k) xs"
proof -
  have "drop k xs = xs ! k # drop (Suc k) xs" using assms by (simp add: Cons_nth_drop_Suc)
  then show ?thesis by (simp add: list_update_append)
qed

lemma find_st_fold:
  assumes inv: "fast_inv img hash tbl rws rs" and inj: "inj img"
    and keys: "keys = map img rmb" and hs: "hashes = map hash keys"
    and b0: "bits0 = early_filter tbl hashes"
    and lb: "length buf = length rmb" and k: "k \<le> length rmb"
  shows "fold (\<lambda>i (bits, ids).
             if bits ! i
             then (case List.find (map_equal_impl rws (keys ! i)) (tbl (hashes ! i)) of
                     Some g \<Rightarrow> (bits, ids[i := g])
                   | None \<Rightarrow> (bits[i := False], ids))
             else (bits, ids))
          [0..<k] (bits0, buf)
       = (map (\<lambda>i. rmb ! i \<in> set rs) [0..<k] @ drop k bits0,
          map (\<lambda>i. if rmb ! i \<in> set rs then of_nat (first_index rs (rmb ! i)) else buf ! i) [0..<k]
            @ drop k buf)"
  using k
proof (induction k)
  case 0
  then show ?case by simp
next
  case (Suc k)
  define B where "B = (\<lambda>i. rmb ! i \<in> set rs)"
  define G where "G = (\<lambda>i. if rmb ! i \<in> set rs then of_nat (first_index rs (rmb ! i)) else buf ! i)"
  define bits where "bits = map B [0..<k] @ drop k bits0"
  define ids where "ids = map G [0..<k] @ drop k buf"
  define step where "step = (\<lambda>i (bits, ids).
             if bits ! i
             then (case List.find (map_equal_impl rws (keys ! i)) (tbl (hashes ! i)) of
                     Some g \<Rightarrow> (bits, ids[i := g])
                   | None \<Rightarrow> (bits[i := False], ids))
             else (bits, ids))"
  have k: "k < length rmb" using Suc.prems by simp
  have lbits0: "length bits0 = length rmb" by (simp add: b0 hs keys early_filter_def)
  have kk: "keys ! k = img (rmb ! k)" "hashes ! k = hash (img (rmb ! k))"
    using k by (simp_all add: hs keys)
  have bk: "bits ! k = (tbl (hash (img (rmb ! k))) \<noteq> [])"
  proof -
    have "bits ! k = bits0 ! k" using k lbits0 by (simp add: bits_def nth_append)
    also have "\<dots> = (tbl (hash (img (rmb ! k))) \<noteq> [])"
      using k by (simp add: b0 hs keys early_filter_def)
    finally show ?thesis .
  qed
  have fnd: "List.find (map_equal_impl rws (keys ! k)) (tbl (hashes ! k))
               = (if B k then Some (of_nat (first_index rs (rmb ! k))) else None)"
    unfolding kk B_def by (rule fast_find[OF inv inj])
  have ub: "bits[k := v] = map B [0..<Suc k] @ drop (Suc k) bits0" if "v = B k" for v
    using take_drop_update_snoc[of k bits0 "map B [0..<k]" v] k lbits0 that
    by (simp add: bits_def)
  have ui: "ids[k := v] = map G [0..<Suc k] @ drop (Suc k) buf" if "v = G k" for v
    using take_drop_update_snoc[of k buf "map G [0..<k]" v] k lb that
    by (simp add: ids_def)
  have keepb: "bits = map B [0..<Suc k] @ drop (Suc k) bits0" if "bits ! k = B k"
  proof -
    have "bits[k := bits ! k] = map B [0..<Suc k] @ drop (Suc k) bits0" using that by (rule ub)
    then show ?thesis by (simp only: list_update_id)
  qed
  have idk: "ids ! k = buf ! k" using k lb by (simp add: ids_def nth_append)
  have keepi: "ids = map G [0..<Suc k] @ drop (Suc k) buf" if "G k = buf ! k"
  proof -
    have "ids ! k = G k" using that idk by simp
    then have "ids[k := ids ! k] = map G [0..<Suc k] @ drop (Suc k) buf" by (rule ui)
    then show ?thesis by (simp only: list_update_id)
  qed
  have step: "step k (bits, ids)
         = (map B [0..<Suc k] @ drop (Suc k) bits0, map G [0..<Suc k] @ drop (Suc k) buf)"
  proof (cases "B k")
    case True
    have bt: "bits ! k" using bk fast_bucket_nonempty[OF inv] True by (simp add: B_def)
    have gk: "G k = of_nat (first_index rs (rmb ! k))" using True by (simp add: G_def B_def)
    have e1: "step k (bits, ids) = (bits, ids[k := of_nat (first_index rs (rmb ! k))])"
      using bt True by (simp add: step_def fnd)
    have e2: "bits = map B [0..<Suc k] @ drop (Suc k) bits0"
      using bt True by (intro keepb) simp
    have e3: "ids[k := of_nat (first_index rs (rmb ! k))] = map G [0..<Suc k] @ drop (Suc k) buf"
      by (rule ui) (simp add: gk)
    show ?thesis unfolding e1 by (rule arg_cong2[of _ _ _ _ Pair, OF e2 e3])
  next
    case False
    have gk: "G k = buf ! k" using False by (simp add: G_def B_def)
    show ?thesis
    proof (cases "bits ! k")
      case True
      have e1: "step k (bits, ids) = (bits[k := False], ids)"
        using True False by (simp add: step_def fnd)
      have e2: "bits[k := False] = map B [0..<Suc k] @ drop (Suc k) bits0"
        by (rule ub) (simp add: False)
      have e3: "ids = map G [0..<Suc k] @ drop (Suc k) buf"
        by (rule keepi[OF gk])
      show ?thesis unfolding e1 by (rule arg_cong2[of _ _ _ _ Pair, OF e2 e3])
    next
      case nb: False
      have e1: "step k (bits, ids) = (bits, ids)"
        using nb by (simp add: step_def)
      have e2: "bits = map B [0..<Suc k] @ drop (Suc k) bits0"
        using nb False by (intro keepb) simp
      have e3: "ids = map G [0..<Suc k] @ drop (Suc k) buf"
        by (rule keepi[OF gk])
      show ?thesis unfolding e1 by (rule arg_cong2[of _ _ _ _ Pair, OF e2 e3])
    qed
  qed
  have ih: "fold step [0..<k] (bits0, buf) = (bits, ids)"
    using Suc.IH k unfolding step_def bits_def ids_def B_def G_def by simp
  have "fold step [0..<Suc k] (bits0, buf) = step k (bits, ids)"
    by (simp add: ih)
  then show ?case
    unfolding step unfolding step_def B_def G_def .
qed

lemma find_st_result:
  assumes inv: "fast_inv img hash tbl rws rs" and inj: "inj img"
    and lb: "length buf = length rmb"
  shows "find_st tbl (map_equal_impl rws) (map img rmb) (map hash (map img rmb))
           (early_filter tbl (map hash (map img rmb))) buf
         = (map (\<lambda>r. r \<in> set rs) rmb,
            map (\<lambda>i. if rmb ! i \<in> set rs then of_nat (first_index rs (rmb ! i)) else buf ! i)
              [0..<length rmb])"
proof -
  have "map (\<lambda>i. rmb ! i \<in> set rs) [0..<length rmb] = map (\<lambda>r. r \<in> set rs) rmb"
    by (rule nth_equalityI) simp_all
  moreover have "length (early_filter tbl (map hash (map img rmb))) = length rmb"
    by (simp add: early_filter_def)
  ultimately show ?thesis
    unfolding find_st_def
    using find_st_fold[OF inv inj refl refl refl lb order_refl] lb by simp
qed


lemma map_new_keys_step:
  assumes inv: "fast_inv img hash tbl rws rs" and inj: "inj img"
    and bound: "Suc (length rs) < 2 ^ 32"
    and key: "key = img r" and h: "h = hash key"
  shows "\<exists>tbl1.
           (case List.find (map_equal_impl rws key) (tbl h) of
                Some g \<Rightarrow> (tbl, rws, ids[i := g])
              | None \<Rightarrow>
                  (let g = of_nat (length rws)
                   in (tbl(h := tbl h @ [g]), map_append_impl rws key, ids[i := g])))
             = (tbl1, map img (insert_key rs r),
                ids[i := of_nat (first_index (insert_key rs r) r)]) \<and>
           fast_inv img hash tbl1 (map img (insert_key rs r)) (insert_key rs r)"
proof (cases "r \<in> set rs")
  case True
  have rw: "rws = map img rs" using inv by (simp add: fast_inv_def)
  have fnd: "List.find (map_equal_impl rws key) (tbl h) = Some (of_nat (first_index rs r))"
    unfolding h key using fast_find[OF inv inj, of r] True by simp
  have ik: "insert_key rs r = rs" using True by (simp add: insert_key_def)
  show ?thesis
    unfolding fnd ik using inv by (intro exI[of _ tbl]) (simp add: rw)
next
  case False
  have rw: "rws = map img rs" using inv by (simp add: fast_inv_def)
  have fnd: "List.find (map_equal_impl rws key) (tbl h) = None"
    unfolding h key using fast_find[OF inv inj, of r] False by simp
  have ik: "insert_key rs r = rs @ [r]" using False by (simp add: insert_key_def)
  let ?tbl1 = "tbl(h := tbl h @ [of_nat (length rws)])"
  have inv1: "fast_inv img hash ?tbl1 (map_append_impl rws key) (rs @ [r])"
    unfolding h key by (rule fast_inv_append[OF inv False bound])
  have fi: "first_index (rs @ [r]) r = length rs" using False by (rule first_index_notin)
  have ap: "map_append_impl rws key = map img (rs @ [r])"
    by (simp add: map_append_impl_def rw key)
  have lr: "length rws = length rs" by (simp add: rw)
  show ?thesis
    unfolding fnd ik fi using inv1 unfolding ap
    by (intro exI[of _ ?tbl1]) (simp add: Let_def lr)
qed

lemma map_new_keys_result:
  assumes inj: "inj img" and keys: "keys = map img rmb" and hs: "hashes = map hash keys"
  shows "fast_inv img hash tbl rws rs \<Longrightarrow> length rs + length sel < 2 ^ 32 \<Longrightarrow>
         \<forall>i\<in>set sel. i < length rmb \<Longrightarrow> length ids = length rmb \<Longrightarrow>
         \<exists>tbl' ids'.
           map_new_keys map_equal_impl map_append_impl sel keys hashes (tbl, rws, ids)
             = (tbl', map img (insert_keys rs (map (\<lambda>i. rmb ! i) sel)), ids') \<and>
           fast_inv img hash tbl' (map img (insert_keys rs (map (\<lambda>i. rmb ! i) sel)))
             (insert_keys rs (map (\<lambda>i. rmb ! i) sel)) \<and>
           length ids' = length ids \<and>
           (\<forall>j<length ids.
              ids' ! j = (if j \<in> set sel
                          then of_nat (first_index (insert_keys rs (map (\<lambda>i. rmb ! i) sel)) (rmb ! j))
                          else ids ! j))"
proof (induction sel arbitrary: tbl rws rs ids)
  case Nil
  have "rws = map img rs" using Nil.prems(1) by (simp add: fast_inv_def)
  then show ?case using Nil.prems(1) by (simp add: map_new_keys_def)
next
  case (Cons i sel)
  let ?r = "rmb ! i"
  let ?rs1 = "insert_key rs ?r"
  let ?ids1 = "ids[i := of_nat (first_index ?rs1 ?r)]"
  let ?rs' = "insert_keys ?rs1 (map (\<lambda>i. rmb ! i) sel)"
  have i: "i < length rmb" using Cons.prems(3) by simp
  have kk: "keys ! i = img ?r" "hashes ! i = hash (img ?r)" using i by (simp_all add: hs keys)
  have b: "Suc (length rs) < 2 ^ 32" using Cons.prems(2) by simp
  have hk: "hashes ! i = hash (keys ! i)" using kk by simp
  from map_new_keys_step[OF Cons.prems(1) inj b kk(1) hk, of ids i]
  obtain tbl1 where st: "(case List.find (map_equal_impl rws (keys ! i)) (tbl (hashes ! i)) of
                Some g \<Rightarrow> (tbl, rws, ids[i := g])
              | None \<Rightarrow>
                  (let g = of_nat (length rws)
                   in (tbl((hashes ! i) := tbl (hashes ! i) @ [g]),
                       map_append_impl rws (keys ! i), ids[i := g])))
             = (tbl1, map img ?rs1, ?ids1)"
    and inv1: "fast_inv img hash tbl1 (map img ?rs1) ?rs1" by blast
  have unfold: "map_new_keys map_equal_impl map_append_impl (i # sel) keys hashes (tbl, rws, ids)
          = map_new_keys map_equal_impl map_append_impl sel keys hashes (tbl1, map img ?rs1, ?ids1)"
    unfolding map_new_keys_def by (simp add: st)
  have b1: "length ?rs1 + length sel < 2 ^ 32"
    using Cons.prems(2) length_insert_key[of rs ?r] by simp
  have sel: "\<forall>i\<in>set sel. i < length rmb" using Cons.prems(3) by simp
  have l1: "length ?ids1 = length rmb" using Cons.prems(4) by simp
  from Cons.IH[OF inv1 b1 sel l1]
  obtain tbl' ids' where
    res: "map_new_keys map_equal_impl map_append_impl sel keys hashes (tbl1, map img ?rs1, ?ids1)
             = (tbl', map img ?rs', ids')"
    and inv': "fast_inv img hash tbl' (map img ?rs') ?rs'"
    and len': "length ids' = length ?ids1"
    and vals: "\<forall>j<length ?ids1.
              ids' ! j = (if j \<in> set sel then of_nat (first_index ?rs' (rmb ! j)) else ?ids1 ! j)"
    by blast
  have same: "first_index ?rs' ?r = first_index ?rs1 ?r"
    by (rule first_index_insert_keys) simp
  have vals': "\<forall>j<length ids.
              ids' ! j = (if j \<in> set (i # sel) then of_nat (first_index ?rs' (rmb ! j)) else ids ! j)"
  proof (intro allI impI)
    fix j assume j: "j < length ids"
    show "ids' ! j = (if j \<in> set (i # sel) then of_nat (first_index ?rs' (rmb ! j)) else ids ! j)"
    proof (cases "j \<in> set sel")
      case True
      then show ?thesis using vals j by simp
    next
      case False
      then have "ids' ! j = ?ids1 ! j" using vals j by simp
      then show ?thesis using False j same by (cases "j = i") simp_all
    qed
  qed
  show ?case
    unfolding unfold using res inv' len' vals' by simp
qed

subsection \<open>One mini-batch\<close>

lemma map_nth_filter:
  "map (\<lambda>i. xs ! i) (filter (\<lambda>i. P (xs ! i)) [0..<length xs]) = filter P xs"
proof -
  have "filter P (map (\<lambda>i. xs ! i) [0..<length xs])
          = map (\<lambda>i. xs ! i) (filter (P \<circ> (\<lambda>i. xs ! i)) [0..<length xs])"
    by (rule filter_map)
  thus ?thesis by (simp add: map_nth comp_def)
qed

lemma insert_keys_filter_known:
  "set rs0 \<subseteq> set rs \<Longrightarrow> insert_keys rs (filter (\<lambda>r. r \<notin> set rs0) xs) = insert_keys rs xs"
proof (induction xs arbitrary: rs)
  case Nil
  show ?case by simp
next
  case (Cons x xs)
  show ?case
  proof (cases "x \<in> set rs0")
    case True
    hence "insert_key rs x = rs" using Cons.prems by (auto simp: insert_key_def)
    thus ?thesis using True Cons.IH[OF Cons.prems] by simp
  next
    case False
    have "set rs0 \<subseteq> set (insert_key rs x)" using Cons.prems by auto
    from Cons.IH[OF this] show ?thesis using False by simp
  qed
qed

lemma bits_to_indexes_0_known:
  "bits_to_indexes_0 (map (\<lambda>r. r \<in> set rs) chunk)
     = filter (\<lambda>i. chunk ! i \<notin> set rs) [0..<length chunk]"
  unfolding bits_to_indexes_0_def
  by (rule filter_cong) simp_all

lemma minibatch_step_insert:
  assumes inv: "fast_inv img hash (fast_map_m s) (fast_rows_m s) rs" and inj: "inj img"
    and mode: "mode \<noteq> kLookup"
    and chunk: "chunk = take n (drop start batch)" and len: "length chunk = n"
    and pos: "pos = (if mode = kPopulate then 0 else start)" and room: "pos + n \<le> length gids"
    and bound: "length rs + n < 2 ^ 32"
  shows "\<exists>tbl'. minibatch_step img hash mode batch start n (s, gids, nb) =
           (s\<lparr>fast_rows_m := map img (insert_keys rs chunk), fast_map_m := tbl'\<rparr>,
            write_at gids pos (map (\<lambda>r. of_nat (first_index (insert_keys rs chunk) r)) chunk), nb) \<and>
           fast_inv img hash tbl' (map img (insert_keys rs chunk)) (insert_keys rs chunk)"
proof -
  define buf where "buf = take n (drop pos gids)"
  define sel where "sel = filter (\<lambda>i. chunk ! i \<notin> set rs) [0..<length chunk]"
  define rs' where "rs' = insert_keys rs chunk"
  define ids1 where "ids1 = map (\<lambda>i. if chunk ! i \<in> set rs then of_nat (first_index rs (chunk ! i)) else buf ! i)
              [0..<length chunk]"
  define keys where "keys = map img chunk"
  define hashes where "hashes = map hash keys"
  have lb: "length buf = length chunk" using room len by (simp add: buf_def)
  have fnd: "find_st (fast_map_m s) (map_equal_impl (fast_rows_m s)) keys hashes
               (early_filter (fast_map_m s) hashes) buf
             = (map (\<lambda>r. r \<in> set rs) chunk, ids1)"
    unfolding keys_def hashes_def ids1_def by (rule find_st_result[OF inv inj lb])
  have selmap: "map (\<lambda>i. chunk ! i) sel = filter (\<lambda>r. r \<notin> set rs) chunk"
    unfolding sel_def by (rule map_nth_filter)
  have ins: "insert_keys rs (map (\<lambda>i. chunk ! i) sel) = rs'"
    unfolding selmap rs'_def by (rule insert_keys_filter_known) simp
  have lsel: "length sel \<le> n" unfolding sel_def using len
    by (metis length_filter_le length_upt minus_nat.diff_0)
  have b2: "length rs + length sel < 2 ^ 32" using bound lsel by simp
  have selr: "\<forall>i\<in>set sel. i < length chunk" by (simp add: sel_def)
  have l1: "length ids1 = length chunk" by (simp add: ids1_def)
  from map_new_keys_result[OF inj keys_def hashes_def inv b2 selr l1]
  obtain tbl' ids' where
    mk: "map_new_keys map_equal_impl map_append_impl sel keys hashes
           (fast_map_m s, fast_rows_m s, ids1) = (tbl', map img rs', ids')"
    and inv': "fast_inv img hash tbl' (map img rs') rs'"
    and l': "length ids' = length ids1"
    and nth': "\<forall>j<length ids1. ids' ! j =
                 (if j \<in> set sel then of_nat (first_index rs' (chunk ! j)) else ids1 ! j)"
    unfolding ins by blast
  have ids': "ids' = map (\<lambda>r. of_nat (first_index rs' r)) chunk"
  proof (rule nth_equalityI)
    show "length ids' = length (map (\<lambda>r. of_nat (first_index rs' r)) chunk)"
      using l' l1 by simp
  next
    fix j assume "j < length ids'"
    hence j: "j < length chunk" using l' l1 by simp
    show "ids' ! j = map (\<lambda>r. of_nat (first_index rs' r)) chunk ! j"
    proof (cases "chunk ! j \<in> set rs")
      case True
      hence "j \<notin> set sel" by (simp add: sel_def)
      hence "ids' ! j = ids1 ! j" using nth' j l1 by simp
      also have "\<dots> = of_nat (first_index rs (chunk ! j))" using True j by (simp add: ids1_def)
      also have "first_index rs (chunk ! j) = first_index rs' (chunk ! j)"
        unfolding rs'_def using first_index_insert_keys[OF True] by simp
      finally show ?thesis using j by simp
    next
      case False
      hence "j \<in> set sel" using j by (simp add: sel_def)
      thus ?thesis using nth' j l1 by simp
    qed
  qed
  have step: "minibatch_step img hash mode batch start n (s, gids, nb) =
          (s\<lparr>fast_rows_m := map img rs', fast_map_m := tbl'\<rparr>, write_at gids pos ids', nb)"
    unfolding minibatch_step_def Let_def chunk[symmetric] keys_def[symmetric]
      hashes_def[symmetric] pos[symmetric]
    using mode
    by (simp add: buf_def[symmetric] fnd bits_to_indexes_0_known sel_def[symmetric] mk)
  show ?thesis
    unfolding rs'_def[symmetric] using step inv' unfolding ids' by blast
qed

lemma minibatch_step_lookup:
  assumes inv: "fast_inv img hash (fast_map_m s) (fast_rows_m s) rs" and inj: "inj img"
    and chunk: "chunk = take n (drop start batch)" and len: "length chunk = n"
  shows "minibatch_step img hash kLookup batch start n (s, gids, nb) =
           (s, write_at gids start
                 (map (\<lambda>r. if r \<in> set rs then of_nat (first_index rs r) else 0) chunk),
            write_at nb start (map (\<lambda>r. r \<in> set rs) chunk))"
proof -
  define buf :: "group_id_t list" where "buf = replicate n 0"
  define keys where "keys = map img chunk"
  define hashes where "hashes = map hash keys"
  define ids1 where "ids1 = map (\<lambda>i. if chunk ! i \<in> set rs then of_nat (first_index rs (chunk ! i)) else buf ! i)
              [0..<length chunk]"
  have lb: "length buf = length chunk" using len by (simp add: buf_def)
  have fnd: "find_st (fast_map_m s) (map_equal_impl (fast_rows_m s)) keys hashes
               (early_filter (fast_map_m s) hashes) buf
             = (map (\<lambda>r. r \<in> set rs) chunk, ids1)"
    unfolding keys_def hashes_def ids1_def by (rule find_st_result[OF inv inj lb])
  have ids1: "ids1 = map (\<lambda>r. if r \<in> set rs then of_nat (first_index rs r) else 0) chunk"
    by (rule nth_equalityI) (simp_all add: ids1_def buf_def len)
  show ?thesis
    unfolding minibatch_step_def Let_def chunk[symmetric] keys_def[symmetric]
      hashes_def[symmetric]
    by (simp add: buf_def[symmetric] fnd ids1)
qed

subsection \<open>The mini-batch loop\<close>

lemma minibatch_loop_rule:
  assumes step: "\<And>start st. P start st \<Longrightarrow> start < length batch \<Longrightarrow>
             0 < min (fast_minibatch_size_m (fst st)) (length batch - start) \<and>
             P (start + min (fast_minibatch_size_m (fst st)) (length batch - start))
               (case minibatch_step img hash mode batch start
                       (min (fast_minibatch_size_m (fst st)) (length batch - start)) st of
                  (s, group_ids, null_bitmap) \<Rightarrow>
                    (s\<lparr>fast_minibatch_size_m := min mx (2 * fast_minibatch_size_m s)\<rparr>,
                     group_ids, null_bitmap))"
  shows "P start st \<Longrightarrow> start \<le> length batch \<Longrightarrow>
         \<exists>st'. minibatch_loop img hash mx mode batch start st = Some st' \<and> P (length batch) st'"
proof (induction "length batch - start" arbitrary: start st rule: less_induct)
  case less
  show ?case
  proof (cases "start < length batch")
    case False
    hence "start = length batch" using less.prems(2) by simp
    thus ?thesis using less.prems(1) by (simp add: minibatch_loop.simps)
  next
    case True
    define n where "n = min (fast_minibatch_size_m (fst st)) (length batch - start)"
    define st1 where "st1 = (case minibatch_step img hash mode batch start n st of
                  (s, group_ids, null_bitmap) \<Rightarrow>
                    (s\<lparr>fast_minibatch_size_m := min mx (2 * fast_minibatch_size_m s)\<rparr>,
                     group_ids, null_bitmap))"
    from step[OF less.prems(1) True] have n0: "0 < n" and P1: "P (start + n) st1"
      unfolding n_def st1_def by blast+
    have nle: "start + n \<le> length batch" unfolding n_def using True by arith
    have dec: "length batch - (start + n) < length batch - start" using n0 True by simp
    from less.hyps[OF dec P1 nle] obtain st' where
      r: "minibatch_loop img hash mx mode batch (start + n) st1 = Some st'"
      and P': "P (length batch) st'" by blast
    have "minibatch_loop img hash mx mode batch start st
            = minibatch_loop img hash mx mode batch (start + n) st1"
      using True n0
      by (subst minibatch_loop.simps)
         (simp add: n_def[symmetric] st1_def Let_def split_beta split: prod.splits)
    thus ?thesis using r P' by simp
  qed
qed

lemma length_write_at: "pos + length vals \<le> length buf \<Longrightarrow> length (write_at buf pos vals) = length buf"
  by (simp add: write_at_def)

lemma write_at_extend:
  assumes "length done = pos" and "pos + length vals \<le> length buf0"
  shows "write_at (done @ drop pos buf0) pos vals = (done @ vals) @ drop (pos + length vals) buf0"
  using assms by (simp add: write_at_def add.commute)

lemma map_first_index_insert_keys:
  assumes "set xs \<subseteq> set rs"
  shows "map (\<lambda>r. (of_nat (first_index (insert_keys rs ys) r) :: group_id_t)) xs
           = map (\<lambda>r. of_nat (first_index rs r)) xs"
proof (rule map_cong[OF refl])
  fix x assume "x \<in> set xs"
  hence "x \<in> set rs" using assms by blast
  thus "(of_nat (first_index (insert_keys rs ys) x) :: group_id_t) = of_nat (first_index rs x)"
    by (simp add: first_index_insert_keys)
qed

lemma minibatch_loop_insert:
  assumes inv: "fast_inv img hash (fast_map_m s) (fast_rows_m s) rs" and inj: "inj img"
    and mode: "mode \<noteq> kLookup"
    and m0: "0 < fast_minibatch_size_m s" and m1: "fast_minibatch_size_m s \<le> mx"
    and lg: "length gids = (if mode = kPopulate then mx else length batch)"
    and bound: "length rs + length batch < 2 ^ 32"
  shows "\<exists>s' gids'.
           minibatch_loop img hash mx mode batch 0 (s, gids, nb) = Some (s', gids', nb) \<and>
           fast_inv img hash (fast_map_m s') (fast_rows_m s') (insert_keys rs batch) \<and>
           0 < fast_minibatch_size_m s' \<and> fast_minibatch_size_m s' \<le> mx \<and>
           (mode = kConsume \<longrightarrow>
              gids' = map (\<lambda>r. of_nat (first_index (insert_keys rs batch) r)) batch)"
proof -
  define P where "P = (\<lambda>start (st :: 'b GrouperFastImpl \<times> group_id_t list \<times> bool list).
      case st of (s1, g1, n1) \<Rightarrow>
        n1 = nb \<and> 0 < fast_minibatch_size_m s1 \<and> fast_minibatch_size_m s1 \<le> mx \<and>
        fast_inv img hash (fast_map_m s1) (fast_rows_m s1) (insert_keys rs (take start batch)) \<and>
        length g1 = length gids \<and>
        (mode = kConsume \<longrightarrow>
           g1 = map (\<lambda>r. of_nat (first_index (insert_keys rs (take start batch)) r)) (take start batch)
                @ drop start gids))"
  have P0: "P 0 (s, gids, nb)" using inv m0 m1 by (simp add: P_def)
  have step: "0 < min (fast_minibatch_size_m (fst st)) (length batch - start) \<and>
             P (start + min (fast_minibatch_size_m (fst st)) (length batch - start))
               (case minibatch_step img hash mode batch start
                       (min (fast_minibatch_size_m (fst st)) (length batch - start)) st of
                  (s, group_ids, null_bitmap) \<Rightarrow>
                    (s\<lparr>fast_minibatch_size_m := min mx (2 * fast_minibatch_size_m s)\<rparr>,
                     group_ids, null_bitmap))"
    if Pst: "P start st" and lt: "start < length batch" for start st
  proof -
    obtain s1 g1 n1 where st: "st = (s1, g1, n1)" by (cases st)
    define n where "n = min (fast_minibatch_size_m s1) (length batch - start)"
    define chunk where "chunk = take n (drop start batch)"
    define rs1 where "rs1 = insert_keys rs (take start batch)"
    define rs2 where "rs2 = insert_keys rs (take (start + n) batch)"
    define pos where "pos = (if mode = kPopulate then 0 else start)"
    from Pst have n1: "n1 = nb" and s0: "0 < fast_minibatch_size_m s1"
      and s1: "fast_minibatch_size_m s1 \<le> mx"
      and inv1: "fast_inv img hash (fast_map_m s1) (fast_rows_m s1) rs1"
      and lg1: "length g1 = length gids"
      and g1: "mode = kConsume \<longrightarrow>
           g1 = map (\<lambda>r. of_nat (first_index rs1 r)) (take start batch) @ drop start gids"
      unfolding P_def st rs1_def by simp_all
    have n0: "0 < n" using s0 lt by (simp add: n_def)
    have nle: "start + n \<le> length batch" unfolding n_def using lt by arith
    have lc: "length chunk = n" using nle by (simp add: chunk_def)
    have tk: "take (start + n) batch = take start batch @ chunk"
      unfolding chunk_def by (rule take_add)
    have rs2: "rs2 = insert_keys rs1 chunk"
      unfolding rs2_def rs1_def tk by (rule insert_keys_append)
    have room: "pos + n \<le> length g1"
    proof (cases "mode = kPopulate")
      case True
      have "n \<le> mx" using s1 by (simp add: n_def)
      thus ?thesis using True lg lg1 by (simp add: pos_def)
    next
      case False
      thus ?thesis using nle lg lg1 by (simp add: pos_def)
    qed
    have "length rs1 \<le> length rs + length (take start batch)"
      unfolding rs1_def by (rule length_insert_keys)
    hence b1: "length rs1 + n < 2 ^ 32" using bound nle by simp
    from minibatch_step_insert[OF inv1 inj mode chunk_def lc pos_def room b1, of nb]
    obtain tbl' where
      ms: "minibatch_step img hash mode batch start n (s1, g1, nb) =
             (s1\<lparr>fast_rows_m := map img rs2, fast_map_m := tbl'\<rparr>,
              write_at g1 pos (map (\<lambda>r. of_nat (first_index rs2 r)) chunk), nb)"
      and inv2: "fast_inv img hash tbl' (map img rs2) rs2"
      unfolding rs2[symmetric] by blast
    have mxpos: "0 < mx" using s0 s1 by simp
    have lw: "length (write_at g1 pos (map (\<lambda>r. (of_nat (first_index rs2 r) :: group_id_t)) chunk))
                = length gids"
      using room lc lg1 by (simp add: length_write_at)
    have cons: "write_at g1 pos (map (\<lambda>r. (of_nat (first_index rs2 r) :: group_id_t)) chunk)
                  = map (\<lambda>r. of_nat (first_index rs2 r)) (take (start + n) batch)
                    @ drop (start + n) gids"
      if c: "mode = kConsume"
    proof -
      have p: "pos = start" using c by (simp add: pos_def)
      have lgb: "length gids = length batch" using c lg by simp
      have g1': "g1 = map (\<lambda>r. of_nat (first_index rs1 r)) (take start batch) @ drop start gids"
        using g1 c by simp
      have sub: "set (take start batch) \<subseteq> set rs1" by (simp add: rs1_def)
      have old: "map (\<lambda>r. (of_nat (first_index rs2 r) :: group_id_t)) (take start batch)
                   = map (\<lambda>r. of_nat (first_index rs1 r)) (take start batch)"
        unfolding rs2 by (rule map_first_index_insert_keys[OF sub])
      have l0: "length (map (\<lambda>r. (of_nat (first_index rs1 r) :: group_id_t)) (take start batch)) = start"
        using lt by simp
      have l2: "start + length (map (\<lambda>r. (of_nat (first_index rs2 r) :: group_id_t)) chunk)
                  \<le> length gids"
        using nle lc lgb by simp
      have "write_at g1 pos (map (\<lambda>r. (of_nat (first_index rs2 r) :: group_id_t)) chunk)
              = (map (\<lambda>r. of_nat (first_index rs1 r)) (take start batch)
                 @ map (\<lambda>r. of_nat (first_index rs2 r)) chunk)
                @ drop (start + length (map (\<lambda>r. (of_nat (first_index rs2 r) :: group_id_t)) chunk)) gids"
        unfolding p by (subst g1', rule write_at_extend[OF l0 l2])
      thus ?thesis unfolding tk by (simp add: old lc)
    qed
    have Pnext: "P (start + n)
            (s1\<lparr>fast_rows_m := map img rs2, fast_map_m := tbl',
                fast_minibatch_size_m := min mx (2 * fast_minibatch_size_m s1)\<rparr>,
             write_at g1 pos (map (\<lambda>r. of_nat (first_index rs2 r)) chunk), nb)"
      unfolding P_def rs2_def[symmetric]
      using inv2 mxpos s0 lw cons by simp
    show ?thesis
      unfolding st fst_conv n_def[symmetric] n1 ms
      using n0 Pnext by simp
  qed
  have "\<exists>st'. minibatch_loop img hash mx mode batch 0 (s, gids, nb) = Some st' \<and>
              P (length batch) st'"
    by (rule minibatch_loop_rule[where P = P, OF step P0]) simp_all
  then obtain st' where r: "minibatch_loop img hash mx mode batch 0 (s, gids, nb) = Some st'"
    and P': "P (length batch) st'" by blast
  obtain s' g' n' where st': "st' = (s', g', n')" by (cases st')
  show ?thesis
    using r P' lg unfolding st' P_def by (intro exI[of _ s'] exI[of _ g']) simp
qed

lemma minibatch_loop_lookup:
  assumes inv: "fast_inv img hash (fast_map_m s) (fast_rows_m s) rs" and inj: "inj img"
    and m0: "0 < fast_minibatch_size_m s" and m1: "fast_minibatch_size_m s \<le> mx"
    and lg: "length gids = length batch" and ln: "length nb = length batch"
  shows "\<exists>s'.
           minibatch_loop img hash mx kLookup batch 0 (s, gids, nb)
             = Some (s', map (\<lambda>r. if r \<in> set rs then of_nat (first_index rs r) else 0) batch,
                     map (\<lambda>r. r \<in> set rs) batch) \<and>
           fast_map_m s' = fast_map_m s \<and> fast_rows_m s' = fast_rows_m s \<and>
           0 < fast_minibatch_size_m s' \<and> fast_minibatch_size_m s' \<le> mx"
proof -
  define gid :: "'a \<Rightarrow> group_id_t"
    where "gid = (\<lambda>r. if r \<in> set rs then of_nat (first_index rs r) else 0)"
  define known where "known = (\<lambda>r. r \<in> set rs)"
  define P where "P = (\<lambda>start (st :: 'b GrouperFastImpl \<times> group_id_t list \<times> bool list).
      case st of (s1, g1, n1) \<Rightarrow>
        fast_map_m s1 = fast_map_m s \<and> fast_rows_m s1 = fast_rows_m s \<and>
        0 < fast_minibatch_size_m s1 \<and> fast_minibatch_size_m s1 \<le> mx \<and>
        g1 = map gid (take start batch) @ drop start gids \<and>
        n1 = map known (take start batch) @ drop start nb)"
  have P0: "P 0 (s, gids, nb)" using m0 m1 by (simp add: P_def)
  have step: "0 < min (fast_minibatch_size_m (fst st)) (length batch - start) \<and>
             P (start + min (fast_minibatch_size_m (fst st)) (length batch - start))
               (case minibatch_step img hash kLookup batch start
                       (min (fast_minibatch_size_m (fst st)) (length batch - start)) st of
                  (s, group_ids, null_bitmap) \<Rightarrow>
                    (s\<lparr>fast_minibatch_size_m := min mx (2 * fast_minibatch_size_m s)\<rparr>,
                     group_ids, null_bitmap))"
    if Pst: "P start st" and lt: "start < length batch" for start st
  proof -
    obtain s1 g1 n1 where st: "st = (s1, g1, n1)" by (cases st)
    define n where "n = min (fast_minibatch_size_m s1) (length batch - start)"
    define chunk where "chunk = take n (drop start batch)"
    from Pst have mp: "fast_map_m s1 = fast_map_m s" and rw: "fast_rows_m s1 = fast_rows_m s"
      and s0: "0 < fast_minibatch_size_m s1" and s1: "fast_minibatch_size_m s1 \<le> mx"
      and g1: "g1 = map gid (take start batch) @ drop start gids"
      and n1: "n1 = map known (take start batch) @ drop start nb"
      unfolding P_def st by simp_all
    have inv1: "fast_inv img hash (fast_map_m s1) (fast_rows_m s1) rs" using inv mp rw by simp
    have n0: "0 < n" using s0 lt by (simp add: n_def)
    have nle: "start + n \<le> length batch" unfolding n_def using lt by arith
    have lc: "length chunk = n" using nle by (simp add: chunk_def)
    have tk: "take (start + n) batch = take start batch @ chunk"
      unfolding chunk_def by (rule take_add)
    have ms: "minibatch_step img hash kLookup batch start n (s1, g1, n1) =
                (s1, write_at g1 start (map gid chunk), write_at n1 start (map known chunk))"
      unfolding gid_def known_def by (rule minibatch_step_lookup[OF inv1 inj chunk_def lc])
    have l0: "length (map gid (take start batch)) = start" using lt by simp
    have l0': "length (map known (take start batch)) = start" using lt by simp
    have wg: "write_at g1 start (map gid chunk)
                = (map gid (take start batch) @ map gid chunk)
                  @ drop (start + length (map gid chunk)) gids"
      unfolding g1 by (rule write_at_extend[OF l0]) (use nle lc lg in simp)
    have wn: "write_at n1 start (map known chunk)
                = (map known (take start batch) @ map known chunk)
                  @ drop (start + length (map known chunk)) nb"
      unfolding n1 by (rule write_at_extend[OF l0']) (use nle lc ln in simp)
    have mxpos: "0 < mx" using s0 s1 by simp
    have Pnext: "P (start + n)
            (s1\<lparr>fast_minibatch_size_m := min mx (2 * fast_minibatch_size_m s1)\<rparr>,
             write_at g1 start (map gid chunk), write_at n1 start (map known chunk))"
      unfolding P_def wg wn tk using mp rw mxpos s0 lc by simp
    show ?thesis
      unfolding st fst_conv n_def[symmetric] ms
      using n0 Pnext by simp
  qed
  have "\<exists>st'. minibatch_loop img hash mx kLookup batch 0 (s, gids, nb) = Some st' \<and>
              P (length batch) st'"
    by (rule minibatch_loop_rule[where P = P, OF step P0]) simp_all
  then obtain st' where r: "minibatch_loop img hash mx kLookup batch 0 (s, gids, nb) = Some st'"
    and P': "P (length batch) st'" by blast
  obtain s' g' n' where st': "st' = (s', g', n')" by (cases st')
  show ?thesis
    using r P' lg ln unfolding st' P_def gid_def known_def by (intro exI[of _ s']) simp
qed

subsection \<open>The fast grouper against the fallback grouper\<close>

lemma Fast_ConsumeImpl_eq:
  "Fast_ConsumeImpl img hash mx s batch offset len mode =
     (if offset < 0 then Some (Inl Invalid)
      else map_option Inr (Fast_ConsumeBody img hash mx s (capped_rows batch offset len) mode))"
proof (cases "offset < 0")
  case True
  then show ?thesis
    by (subst Fast_ConsumeImpl.simps) (simp add: CheckAndCapLengthForConsume_def)
next
  case False
  define len' where "len' = (if len < 0 then int (length batch) - offset else len)"
  have cap: "CheckAndCapLengthForConsume (int (length batch)) offset len = Inr len'"
    using False by (simp add: CheckAndCapLengthForConsume_def len'_def)
  have inner: "Fast_ConsumeImpl img hash mx s (Slice batch offset len') 0 (- 1) mode
                 = map_option Inr (Fast_ConsumeBody img hash mx s (Slice batch offset len') mode)"
    by (subst Fast_ConsumeImpl.simps) (simp add: CheckAndCapLengthForConsume_def)
  have cr: "capped_rows batch offset len = Slice batch offset len'"
    by (simp add: capped_rows_def len'_def)
  show ?thesis
  proof (cases "offset \<noteq> 0 \<or> len' \<noteq> int (length batch)")
    case True
    then show ?thesis
      unfolding cr using \<open>\<not> offset < 0\<close> cap inner
      by (subst Fast_ConsumeImpl.simps) simp
  next
    case False
    then have "Slice batch offset len' = batch" by (simp add: Slice_all)
    then show ?thesis
      unfolding cr using False \<open>\<not> offset < 0\<close> cap
      by (subst Fast_ConsumeImpl.simps) simp
  qed
qed

lemma Fast_ConsumeBody_insert:
  assumes inv: "fast_inv img hash (fast_map_m s) (fast_rows_m s) rs" and inj: "inj img"
    and mode: "mode \<noteq> kLookup"
    and m0: "0 < fast_minibatch_size_m s" and m1: "fast_minibatch_size_m s \<le> mx"
    and bound: "length rs + length batch < 2 ^ 32"
  shows "\<exists>s'. Fast_ConsumeBody img hash mx s batch mode =
           Some (s', if mode = kPopulate then NoDatum
                     else ArrayDatum (UInt32Array (int (length batch))
                            (map (\<lambda>r. of_nat (first_index (insert_keys rs batch) r)) batch) None)) \<and>
           fast_inv img hash (fast_map_m s') (fast_rows_m s') (insert_keys rs batch) \<and>
           0 < fast_minibatch_size_m s' \<and> fast_minibatch_size_m s' \<le> mx"
proof -
  define gids :: "group_id_t list"
    where "gids = replicate (if mode = kPopulate then mx else length batch) 0"
  have lg: "length gids = (if mode = kPopulate then mx else length batch)"
    by (simp add: gids_def)
  from minibatch_loop_insert[OF inv inj mode m0 m1 lg bound, of "[]"]
  obtain s' gids' where
    r: "minibatch_loop img hash mx mode batch 0 (s, gids, []) = Some (s', gids', [])"
    and inv': "fast_inv img hash (fast_map_m s') (fast_rows_m s') (insert_keys rs batch)"
    and m: "0 < fast_minibatch_size_m s'" "fast_minibatch_size_m s' \<le> mx"
    and ids: "mode = kConsume \<longrightarrow>
              gids' = map (\<lambda>r. of_nat (first_index (insert_keys rs batch) r)) batch"
    by blast
  have "Fast_ConsumeBody img hash mx s batch mode =
           Some (s', if mode = kPopulate then NoDatum
                     else ArrayDatum (UInt32Array (int (length batch))
                            (map (\<lambda>r. of_nat (first_index (insert_keys rs batch) r)) batch) None))"
    unfolding Fast_ConsumeBody_def Let_def gids_def[symmetric]
    using mode r ids by (cases mode) simp_all
  thus ?thesis using inv' m by blast
qed

lemma Fast_ConsumeBody_lookup:
  assumes inv: "fast_inv img hash (fast_map_m s) (fast_rows_m s) rs" and inj: "inj img"
    and m0: "0 < fast_minibatch_size_m s" and m1: "fast_minibatch_size_m s \<le> mx"
  shows "\<exists>s'. Fast_ConsumeBody img hash mx s batch kLookup =
           Some (s', ArrayDatum (UInt32Array (int (length batch))
                  (map (\<lambda>r. if r \<in> set rs then of_nat (first_index rs r) else 0) batch)
                  (Some (map (\<lambda>r. r \<in> set rs) batch)))) \<and>
           fast_map_m s' = fast_map_m s \<and> fast_rows_m s' = fast_rows_m s \<and>
           0 < fast_minibatch_size_m s' \<and> fast_minibatch_size_m s' \<le> mx"
proof -
  from minibatch_loop_lookup[OF inv inj m0 m1, of "replicate (length batch) 0" batch
         "replicate (length batch) False"]
  obtain s' where
    r: "minibatch_loop img hash mx kLookup batch 0
          (s, replicate (length batch) 0, replicate (length batch) False)
        = Some (s', map (\<lambda>r. if r \<in> set rs then of_nat (first_index rs r) else 0) batch,
                map (\<lambda>r. r \<in> set rs) batch)"
    and same: "fast_map_m s' = fast_map_m s" "fast_rows_m s' = fast_rows_m s"
    and m: "0 < fast_minibatch_size_m s'" "fast_minibatch_size_m s' \<le> mx"
    by auto
  have "Fast_ConsumeBody img hash mx s batch kLookup =
           Some (s', ArrayDatum (UInt32Array (int (length batch))
                  (map (\<lambda>r. if r \<in> set rs then of_nat (first_index rs r) else 0) batch)
                  (Some (map (\<lambda>r. r \<in> set rs) batch))))"
    unfolding Fast_ConsumeBody_def Let_def using r by simp
  thus ?thesis using same m by blast
qed

lemma first_index_map_inj:
  "inj f \<Longrightarrow> first_index (map f xs) (f x) = first_index xs x"
  by (induction xs) (auto dest: injD)

lemma insert_key_map_inj:
  "inj f \<Longrightarrow> insert_key (map f xs) (f x) = map f (insert_key xs x)"
  by (auto simp: insert_key_def dest: injD)

lemma insert_keys_map_inj:
  "inj f \<Longrightarrow> insert_keys (map f xs) (map f ys) = map f (insert_keys xs ys)"
  by (induction ys arbitrary: xs) (simp_all add: insert_key_map_inj)

lemma group_ids_of_map_inj:
  "inj f \<Longrightarrow> group_ids_of (map f xs) (map f ys) = map (\<lambda>r. of_nat (first_index xs r)) ys"
  by (simp add: group_ids_of_def first_index_map_inj comp_def)

lemma Fast_ConsumeImpl_insert_sim:
  assumes sim: "fast_sim img hash enc mx sf s rs" and inji: "inj img" and inje: "inj enc"
    and mode: "mode \<noteq> kLookup" and off: "0 \<le> offset"
    and bound: "length rs + length batch < 2 ^ 32"
    and bytes: "batch_bytes enc batch < 2 ^ 31"
  shows "\<exists>sf'. Fast_ConsumeImpl img hash mx sf batch offset len mode
                 = Some (Inr (sf', snd (ConsumeBody enc s (capped_rows batch offset len) mode))) \<and>
               fast_sim img hash enc mx sf' (fst (ConsumeBody enc s (capped_rows batch offset len) mode))
                 (insert_keys rs (capped_rows batch offset len))"
proof -
  define rows where "rows = capped_rows batch offset len"
  from sim have inv: "fast_inv img hash (fast_map_m sf) (fast_rows_m sf) rs"
    and ginv: "grouper_inv s (map enc rs)"
    and m0: "0 < fast_minibatch_size_m sf" and m1: "fast_minibatch_size_m sf \<le> mx"
    by (simp_all add: fast_sim_def)
  have "length rows \<le> length batch" unfolding rows_def by (rule length_capped_rows)
  hence b: "length rs + length rows < 2 ^ 32" using bound by simp
  hence b': "length (map enc rs) + length rows < 2 ^ 32" by simp
  have byt: "batch_bytes enc rows < 2 ^ 31"
    unfolding rows_def using bytes batch_bytes_capped[of enc batch offset len] by simp
  from Fast_ConsumeBody_insert[OF inv inji mode m0 m1 b]
  obtain sf' where
    r: "Fast_ConsumeBody img hash mx sf rows mode =
           Some (sf', if mode = kPopulate then NoDatum
                     else ArrayDatum (UInt32Array (int (length rows))
                            (map (\<lambda>r. of_nat (first_index (insert_keys rs rows) r)) rows) None))"
    and inv': "fast_inv img hash (fast_map_m sf') (fast_rows_m sf') (insert_keys rs rows)"
    and m': "0 < fast_minibatch_size_m sf'" "fast_minibatch_size_m sf' \<le> mx"
    by blast
  have ik: "insert_keys (map enc rs) (map enc rows) = map enc (insert_keys rs rows)"
    by (rule insert_keys_map_inj[OF inje])
  have ginv': "grouper_inv (fst (ConsumeBody enc s rows mode)) (map enc (insert_keys rs rows))"
    using ConsumeBody_insert(1)[OF ginv b' mode byt] unfolding ik .
  have d: "snd (ConsumeBody enc s rows mode) =
           (if mode = kPopulate then NoDatum
            else ArrayDatum (UInt32Array (int (length rows))
                   (map (\<lambda>r. of_nat (first_index (insert_keys rs rows) r)) rows) None))"
    using ConsumeBody_insert(2)[OF ginv b' mode byt]
    unfolding ik group_ids_of_map_inj[OF inje] .
  have "Fast_ConsumeImpl img hash mx sf batch offset len mode
          = Some (Inr (sf', snd (ConsumeBody enc s rows mode)))"
    using off unfolding Fast_ConsumeImpl_eq rows_def[symmetric] r d by simp
  moreover have "fast_sim img hash enc mx sf' (fst (ConsumeBody enc s rows mode)) (insert_keys rs rows)"
    using inv' ginv' m' by (simp add: fast_sim_def)
  ultimately show ?thesis unfolding rows_def by blast
qed

lemma Fast_ConsumeImpl_lookup_sim:
  assumes sim: "fast_sim img hash enc mx sf s rs" and inji: "inj img" and inje: "inj enc"
    and off: "0 \<le> offset" and bytes: "batch_bytes enc batch < 2 ^ 31"
  shows "\<exists>sf'. Fast_ConsumeImpl img hash mx sf batch offset len kLookup
                 = Some (Inr (sf', snd (ConsumeBody enc s (capped_rows batch offset len) kLookup))) \<and>
               fst (ConsumeBody enc s (capped_rows batch offset len) kLookup) = s \<and>
               fast_sim img hash enc mx sf' s rs"
proof -
  define rows where "rows = capped_rows batch offset len"
  from sim have inv: "fast_inv img hash (fast_map_m sf) (fast_rows_m sf) rs"
    and ginv: "grouper_inv s (map enc rs)"
    and m0: "0 < fast_minibatch_size_m sf" and m1: "fast_minibatch_size_m sf \<le> mx"
    by (simp_all add: fast_sim_def)
  have byt: "batch_bytes enc rows < 2 ^ 31"
    unfolding rows_def using bytes batch_bytes_capped[of enc batch offset len] by simp
  from Fast_ConsumeBody_lookup[OF inv inji m0 m1, of rows]
  obtain sf' where
    r: "Fast_ConsumeBody img hash mx sf rows kLookup =
           Some (sf', ArrayDatum (UInt32Array (int (length rows))
                  (map (\<lambda>r. if r \<in> set rs then of_nat (first_index rs r) else 0) rows)
                  (Some (map (\<lambda>r. r \<in> set rs) rows))))"
    and same: "fast_map_m sf' = fast_map_m sf" "fast_rows_m sf' = fast_rows_m sf"
    and m': "0 < fast_minibatch_size_m sf'" "fast_minibatch_size_m sf' \<le> mx"
    by blast
  have cb: "ConsumeBody enc s rows kLookup =
           (s, ArrayDatum (UInt32Array (int (length rows))
                  (map (\<lambda>r. if r \<in> set rs then of_nat (first_index rs r) else 0) rows)
                  (Some (map (\<lambda>r. r \<in> set rs) rows))))"
    unfolding ConsumeBody_lookup[OF ginv byt]
    by (simp add: inj_image_mem_iff[OF inje] first_index_map_inj[OF inje])
  have "Fast_ConsumeImpl img hash mx sf batch offset len kLookup
          = Some (Inr (sf', snd (ConsumeBody enc s rows kLookup)))"
    using off unfolding Fast_ConsumeImpl_eq rows_def[symmetric] r cb by simp
  moreover have "fast_sim img hash enc mx sf' s rs"
    using inv ginv m' same by (simp add: fast_sim_def)
  ultimately show ?thesis using cb unfolding rows_def by simp
qed

lemma fast_sim_Reset:
  assumes "fast_sim img hash enc mx sf s rs"
  shows "fast_sim img hash enc mx (GrouperFastImpl_Reset sf) (GrouperImpl_Reset s) []"
  using assms grouper_inv_Reset[of s]
  by (simp add: fast_sim_def fast_inv_def GrouperFastImpl_Reset_def)

lemma Fast_do_call_sim:
  assumes sim: "fast_sim img hash enc mx sf s rs" and inji: "inj img" and inje: "inj enc"
    and bound: "length rs + call_rows c < 2 ^ 32"
    and bytes: "call_bytes enc c < 2 ^ 31"
  shows "\<exists>sf' rs'. Fast_do_call img hash mx sf c = Some (sf', snd (do_call enc s c)) \<and>
           fast_sim img hash enc mx sf' (fst (do_call enc s c)) rs' \<and>
           length rs' \<le> length rs + call_rows c \<and>
           map enc rs' = keys_after_call enc (map enc rs) c"
proof (cases c)
  case (CallPopulate batch offset len)
  show ?thesis
  proof (cases "offset < 0")
    case True
    thus ?thesis using sim
      by (intro exI[of _ sf] exI[of _ rs])
         (simp add: CallPopulate Populate_def ConsumeImpl_eq Fast_ConsumeImpl_eq)
  next
    case False
    hence off: "0 \<le> offset" by simp
    have b: "length rs + length batch < 2 ^ 32" using bound CallPopulate by simp
    have byt: "batch_bytes enc batch < 2 ^ 31" using bytes CallPopulate by simp
    from Fast_ConsumeImpl_insert_sim[OF sim inji inje _ off b byt, of kPopulate len]
    obtain sf' where
      r: "Fast_ConsumeImpl img hash mx sf batch offset len kPopulate
            = Some (Inr (sf', snd (ConsumeBody enc s (capped_rows batch offset len) kPopulate)))"
      and sim': "fast_sim img hash enc mx sf'
                   (fst (ConsumeBody enc s (capped_rows batch offset len) kPopulate))
                   (insert_keys rs (capped_rows batch offset len))"
      by auto
    have l: "length (insert_keys rs (capped_rows batch offset len)) \<le> length rs + length batch"
      using length_insert_keys[of rs "capped_rows batch offset len"]
        length_capped_rows[of batch offset len] by simp
    show ?thesis
      using False r sim' l
      by (intro exI[of _ sf'] exI[of _ "insert_keys rs (capped_rows batch offset len)"])
         (simp add: CallPopulate Populate_def ConsumeImpl_eq split_beta insert_keys_map_inj[OF inje])
  qed
next
  case (CallConsume batch offset len)
  show ?thesis
  proof (cases "offset < 0")
    case True
    thus ?thesis using sim
      by (intro exI[of _ sf] exI[of _ rs])
         (simp add: CallConsume Consume_def ConsumeImpl_eq Fast_ConsumeImpl_eq)
  next
    case False
    hence off: "0 \<le> offset" by simp
    have b: "length rs + length batch < 2 ^ 32" using bound CallConsume by simp
    have byt: "batch_bytes enc batch < 2 ^ 31" using bytes CallConsume by simp
    from Fast_ConsumeImpl_insert_sim[OF sim inji inje _ off b byt, of kConsume len]
    obtain sf' where
      r: "Fast_ConsumeImpl img hash mx sf batch offset len kConsume
            = Some (Inr (sf', snd (ConsumeBody enc s (capped_rows batch offset len) kConsume)))"
      and sim': "fast_sim img hash enc mx sf'
                   (fst (ConsumeBody enc s (capped_rows batch offset len) kConsume))
                   (insert_keys rs (capped_rows batch offset len))"
      by auto
    have l: "length (insert_keys rs (capped_rows batch offset len)) \<le> length rs + length batch"
      using length_insert_keys[of rs "capped_rows batch offset len"]
        length_capped_rows[of batch offset len] by simp
    show ?thesis
      using False r sim' l
      by (intro exI[of _ sf'] exI[of _ "insert_keys rs (capped_rows batch offset len)"])
         (simp add: CallConsume Consume_def ConsumeImpl_eq split_beta insert_keys_map_inj[OF inje])
  qed
next
  case (CallLookup batch offset len)
  show ?thesis
  proof (cases "offset < 0")
    case True
    thus ?thesis using sim
      by (intro exI[of _ sf] exI[of _ rs])
         (simp add: CallLookup Lookup_def ConsumeImpl_eq Fast_ConsumeImpl_eq)
  next
    case False
    hence off: "0 \<le> offset" by simp
    have byt: "batch_bytes enc batch < 2 ^ 31" using bytes CallLookup by simp
    from Fast_ConsumeImpl_lookup_sim[OF sim inji inje off byt, of len]
    obtain sf' where
      r: "Fast_ConsumeImpl img hash mx sf batch offset len kLookup
            = Some (Inr (sf', snd (ConsumeBody enc s (capped_rows batch offset len) kLookup)))"
      and same: "fst (ConsumeBody enc s (capped_rows batch offset len) kLookup) = s"
      and sim': "fast_sim img hash enc mx sf' s rs"
      by auto
    show ?thesis
      using False r sim' same
      by (intro exI[of _ sf'] exI[of _ rs])
         (simp add: CallLookup Lookup_def ConsumeImpl_eq split_beta)
  qed
next
  case CallReset
  show ?thesis
    using fast_sim_Reset[OF sim]
    by (intro exI[of _ "GrouperFastImpl_Reset sf"] exI[of _ "[]"]) (simp add: CallReset)
qed

lemma Fast_run_calls_sim:
  assumes inji: "inj img" and inje: "inj enc"
  shows "fast_sim img hash enc mx sf s rs \<Longrightarrow> length rs + calls_rows calls < 2 ^ 32 \<Longrightarrow>
         calls_bytes enc calls < 2 ^ 31 \<Longrightarrow>
         \<exists>sf' rs'. Fast_run_calls img hash mx sf calls = Some (sf', snd (run_calls enc s calls)) \<and>
           fast_sim img hash enc mx sf' (fst (run_calls enc s calls)) rs' \<and>
           map enc rs' = keys_after enc (map enc rs) calls"
proof (induction calls arbitrary: sf s rs)
  case Nil
  thus ?case by (intro exI[of _ sf] exI[of _ rs]) (simp add: keys_after_def)
next
  case (Cons c calls)
  have b1: "length rs + call_rows c < 2 ^ 32" using Cons.prems(2) by (simp add: calls_rows_def)
  have byt: "call_bytes enc c < 2 ^ 31" and bys: "calls_bytes enc calls < 2 ^ 31"
    using Cons.prems(3) by (simp_all add: calls_bytes_def)
  from Fast_do_call_sim[OF Cons.prems(1) inji inje b1 byt]
  obtain sf1 rs1 where
    r1: "Fast_do_call img hash mx sf c = Some (sf1, snd (do_call enc s c))"
    and sim1: "fast_sim img hash enc mx sf1 (fst (do_call enc s c)) rs1"
    and l1: "length rs1 \<le> length rs + call_rows c"
    and k1: "map enc rs1 = keys_after_call enc (map enc rs) c"
    by blast
  have b2: "length rs1 + calls_rows calls < 2 ^ 32"
    using Cons.prems(2) l1 by (simp add: calls_rows_def)
  from Cons.IH[OF sim1 b2 bys]
  obtain sf2 rs2 where
    r2: "Fast_run_calls img hash mx sf1 calls
           = Some (sf2, snd (run_calls enc (fst (do_call enc s c)) calls))"
    and sim2: "fast_sim img hash enc mx sf2 (fst (run_calls enc (fst (do_call enc s c)) calls)) rs2"
    and k2: "map enc rs2 = keys_after enc (map enc rs1) calls"
    by blast
  show ?case
    using r1 r2 sim2 k2 k1
    by (intro exI[of _ sf2] exI[of _ rs2]) (simp add: split_beta keys_after_Cons)
qed

subsection \<open>The uniques of the two groupers\<close>

lemma concat_filter_nonempty: "concat (filter (\<lambda>k. k \<noteq> []) ks) = concat ks"
  by (induction ks) simp_all

lemma uniques_inv_Make: "uniques_inv GrouperImpl_Make []"
  by (simp add: uniques_inv_def GrouperImpl_Make_def)

lemma uniques_inv_snoc:
  assumes u: "uniques_inv s ks"
    and kb: "key_bytes_m s' = key_bytes_m s @ k"
    and os: "offsets_m s' =
           (if k = [] then offsets_m s
            else offsets_m s @ [int (length (key_bytes_m s)) + int (length k)])"
  shows "uniques_inv s' (ks @ [k])"
proof (cases "k = []")
  case True
  thus ?thesis using u kb os by (simp add: uniques_inv_def)
next
  case False
  define F where "F = filter (\<lambda>k. k \<noteq> []) ks"
  have kbs: "key_bytes_m s = concat ks" using u by (simp add: uniques_inv_def)
  have offs: "offsets_m s = 0 # map (\<lambda>i. int (length (concat (take (Suc i) F)))) [0..<length F]"
    using u by (simp add: uniques_inv_def F_def)
  have F': "filter (\<lambda>k. k \<noteq> []) (ks @ [k]) = F @ [k]" using False by (simp add: F_def)
  have old: "map (\<lambda>i. int (length (concat (take (Suc i) (F @ [k]))))) [0..<length F]
               = map (\<lambda>i. int (length (concat (take (Suc i) F)))) [0..<length F]"
    by (rule map_cong[OF refl]) simp
  have lc: "length (concat F) = length (concat ks)"
    unfolding F_def by (simp add: concat_filter_nonempty)
  have "offsets_m s' =
          0 # map (\<lambda>i. int (length (concat (take (Suc i) (F @ [k]))))) [0..<length (F @ [k])]"
    using False os by (simp add: offs old kbs lc)
  thus ?thesis unfolding uniques_inv_def F' using kb kbs by simp
qed

lemma length_concat_insert_key:
  "length (concat (insert_key ks k)) \<le> length (concat ks) + length k"
  by (simp add: insert_key_def)

lemma length_concat_insert_keys:
  "length (concat (insert_keys ks keys)) \<le> length (concat ks) + length (concat keys)"
proof (induction keys arbitrary: ks)
  case Nil
  show ?case by simp
next
  case (Cons k keys)
  have "length (concat (insert_keys (insert_key ks k) keys))
          \<le> length (concat (insert_key ks k)) + length (concat keys)"
    by (rule Cons.IH)
  thus ?case using length_concat_insert_key[of ks k] by simp
qed

lemma visit_key_uniques:
  assumes u: "uniques_inv s ks" and inv: "grouper_inv s ks"
    and bytes: "length (concat ks) + length k < 2 ^ 31"
  shows "uniques_inv (fst (visit_key True k s)) (insert_key ks k)"
proof (cases "k \<in> set ks")
  case True
  hence "map_m s k = Some (of_nat (first_index ks k))" using inv by (simp add: grouper_inv_def)
  from visit_key_old[OF this] show ?thesis using True u by (simp add: insert_key_def)
next
  case False
  hence n: "map_m s k = None" using inv by (simp add: grouper_inv_def)
  have kb: "length (key_bytes_m s) + length k < 2 ^ 31"
    using u bytes by (simp add: uniques_inv_def)
  have "uniques_inv (fst (visit_key True k s)) (ks @ [k])"
    by (rule uniques_inv_snoc[OF u visit_key_new_bytes(1)[OF n kb] visit_key_new_bytes(2)[OF n kb]])
  thus ?thesis using False by (simp add: insert_key_def)
qed

lemma visit_keys_uniques:
  "uniques_inv s ks \<Longrightarrow> grouper_inv s ks \<Longrightarrow> length ks + length keys < 2 ^ 32 \<Longrightarrow>
   length (concat ks) + length (concat keys) < 2 ^ 31 \<Longrightarrow>
   uniques_inv (fst (visit_keys True keys s)) (insert_keys ks keys)"
proof (induction keys arbitrary: s ks)
  case Nil
  thus ?case by simp
next
  case (Cons k keys)
  have b: "Suc (length ks) < 2 ^ 32" using Cons.prems(3) by simp
  note vi = visit_key_insert[OF Cons.prems(2) b, of k]
  have byt: "length (concat ks) + length k < 2 ^ 31" using Cons.prems(4) by simp
  have u1: "uniques_inv (fst (visit_key True k s)) (insert_key ks k)"
    by (rule visit_key_uniques[OF Cons.prems(1,2) byt])
  have bys: "length (concat (insert_key ks k)) + length (concat keys) < 2 ^ 31"
    using Cons.prems(4) length_concat_insert_key[of ks k] by simp
  have g1: "grouper_inv (fst (visit_key True k s)) (insert_key ks k)" using vi by simp
  have b1: "length (insert_key ks k) + length keys < 2 ^ 32"
    using Cons.prems(3) length_insert_key[of ks k] by simp
  from Cons.IH[OF u1 g1 b1 bys] show ?case by (simp add: split_beta)
qed

lemma ConsumeBody_uniques:
  assumes u: "uniques_inv s ks" and inv: "grouper_inv s ks"
    and bound: "length ks + length batch < 2 ^ 32" and mode: "mode \<noteq> kLookup"
    and bytes: "length (concat ks) + batch_bytes enc batch < 2 ^ 31"
  shows "uniques_inv (fst (ConsumeBody enc s batch mode)) (insert_keys ks (map enc batch))"
proof -
  have b: "length ks + length (map enc batch) < 2 ^ 32" using bound by simp
  have byt: "batch_bytes enc batch < 2 ^ 31" using bytes by simp
  have bys: "length (concat ks) + length (concat (map enc batch)) < 2 ^ 31"
    using bytes by (simp add: batch_bytes_def)
  have "fst (ConsumeBody enc s batch mode) = fst (visit_keys True (map enc batch) s)"
    using mode by (cases mode) (simp_all add: ConsumeBody_visit_keys[OF byt])
  thus ?thesis using visit_keys_uniques[OF u inv b bys] by simp
qed

lemma length_concat_keys_after_call:
  "length (concat (keys_after_call enc ks c)) \<le> length (concat ks) + call_bytes enc c"
proof -
  have "length (concat (insert_keys ks (map enc (capped_rows batch offset len))))
          \<le> length (concat ks) + batch_bytes enc batch" for batch offset len
    using length_concat_insert_keys[of ks "map enc (capped_rows batch offset len)"]
      batch_bytes_capped[of enc batch offset len]
    by (simp add: batch_bytes_def)
  thus ?thesis by (cases c) simp_all
qed

lemma do_call_uniques:
  assumes u: "uniques_inv s ks" and inv: "grouper_inv s ks"
    and bound: "length ks + call_rows c < 2 ^ 32" and nr: "c \<noteq> CallReset"
    and bytes: "length (concat ks) + call_bytes enc c < 2 ^ 31"
  shows "uniques_inv (fst (do_call enc s c)) (keys_after_call enc ks c)"
proof (cases c)
  case (CallPopulate batch offset len)
  have b: "length ks + length (capped_rows batch offset len) < 2 ^ 32"
    using bound length_capped_rows[of batch offset len] CallPopulate by simp
  have byt: "length (concat ks) + batch_bytes enc (capped_rows batch offset len) < 2 ^ 31"
    using bytes batch_bytes_capped[of enc batch offset len] CallPopulate by simp
  show ?thesis
    using u ConsumeBody_uniques[OF u inv b _ byt, of kPopulate]
    by (simp add: CallPopulate Populate_def ConsumeImpl_eq split_beta)
next
  case (CallConsume batch offset len)
  have b: "length ks + length (capped_rows batch offset len) < 2 ^ 32"
    using bound length_capped_rows[of batch offset len] CallConsume by simp
  have byt: "length (concat ks) + batch_bytes enc (capped_rows batch offset len) < 2 ^ 31"
    using bytes batch_bytes_capped[of enc batch offset len] CallConsume by simp
  show ?thesis
    using u ConsumeBody_uniques[OF u inv b _ byt, of kConsume]
    by (simp add: CallConsume Consume_def ConsumeImpl_eq split_beta)
next
  case (CallLookup batch offset len)
  have byt: "batch_bytes enc (capped_rows batch offset len) < 2 ^ 31"
    using bytes batch_bytes_capped[of enc batch offset len] CallLookup by simp
  show ?thesis
    using u by (simp add: CallLookup Lookup_def ConsumeImpl_eq ConsumeBody_lookup[OF inv byt])
next
  case CallReset
  thus ?thesis using nr by simp
qed

lemma run_calls_uniques:
  "uniques_inv s ks \<Longrightarrow> grouper_inv s ks \<Longrightarrow> length ks + calls_rows calls < 2 ^ 32 \<Longrightarrow>
   CallReset \<notin> set calls \<Longrightarrow> length (concat ks) + calls_bytes enc calls < 2 ^ 31 \<Longrightarrow>
   uniques_inv (fst (run_calls enc s calls)) (keys_after enc ks calls)"
proof (induction calls arbitrary: s ks)
  case Nil
  thus ?case by (simp add: keys_after_def)
next
  case (Cons c calls)
  have b1: "length ks + call_rows c < 2 ^ 32" using Cons.prems(3) by (simp add: calls_rows_def)
  have nr: "c \<noteq> CallReset" using Cons.prems(4) by auto
  have byt: "length (concat ks) + call_bytes enc c < 2 ^ 31"
    using Cons.prems(5) by (simp add: calls_bytes_def)
  hence byt': "call_bytes enc c < 2 ^ 31" by simp
  have u1: "uniques_inv (fst (do_call enc s c)) (keys_after_call enc ks c)"
    by (rule do_call_uniques[OF Cons.prems(1,2) b1 nr byt])
  have g1: "grouper_inv (fst (do_call enc s c)) (keys_after_call enc ks c)"
    by (rule do_call_inv[OF Cons.prems(2) b1 byt'])
  have "length (concat (keys_after_call enc ks c)) \<le> length (concat ks) + call_bytes enc c"
    by (rule length_concat_keys_after_call)
  hence bys: "length (concat (keys_after_call enc ks c)) + calls_bytes enc calls < 2 ^ 31"
    using Cons.prems(5) by (simp add: calls_bytes_def)
  have b2: "length (keys_after_call enc ks c) + calls_rows calls < 2 ^ 32"
    using Cons.prems(3) length_keys_after_call[of enc ks c] by (simp add: calls_rows_def)
  have nr2: "CallReset \<notin> set calls" using Cons.prems(4) by simp
  from Cons.IH[OF u1 g1 b2 nr2 bys] show ?case by (simp add: split_beta keys_after_Cons)
qed

lemma decode_loop_result:
  "0 < mx \<Longrightarrow> start \<le> length rws \<Longrightarrow>
   decode_loop unimg mx rws start out = Some (out @ map unimg (drop start rws))"
proof (induction "length rws - start" arbitrary: start out rule: less_induct)
  case less
  show ?case
  proof (cases "start < length rws")
    case False
    thus ?thesis using less.prems by (simp add: decode_loop.simps)
  next
    case True
    define n where "n = min (length rws - start) mx"
    have n0: "0 < n" using True less.prems(1) by (simp add: n_def)
    have nle: "start + n \<le> length rws" unfolding n_def using True by arith
    have dec: "length rws - (start + n) < length rws - start" using n0 True by simp
    have "decode_loop unimg mx rws start out
            = decode_loop unimg mx rws (start + n) (out @ map unimg (take n (drop start rws)))"
      using True n0 by (subst decode_loop.simps) (simp add: n_def[symmetric] Let_def)
    also have "\<dots> = Some ((out @ map unimg (take n (drop start rws)))
                          @ map unimg (drop (start + n) rws))"
      by (rule less.hyps[OF dec less.prems(1) nle])
    finally have r: "decode_loop unimg mx rws start out
                       = Some ((out @ map unimg (take n (drop start rws)))
                               @ map unimg (drop (start + n) rws))" .
    have "drop start rws = take n (drop start rws) @ drop n (drop start rws)"
      by (rule append_take_drop_id[symmetric])
    also have "drop n (drop start rws) = drop (start + n) rws"
      unfolding drop_drop by (simp only: add.commute)
    finally have "map unimg (drop start rws)
                    = map unimg (take n (drop start rws)) @ map unimg (drop (start + n) rws)"
      by (metis map_append)
    thus ?thesis unfolding r by simp
  qed
qed

lemma Fast_GetUniques_rows:
  assumes inv: "fast_inv img hash (fast_map_m sf) (fast_rows_m sf) rs"
    and un: "\<And>r. unimg (img r) = r" and mx: "0 < mx"
  shows "Fast_GetUniques unimg mx sf = Some rs"
proof -
  have rw: "fast_rows_m sf = map img rs" using inv by (simp add: fast_inv_def)
  have "map unimg (map img rs) = rs" by (simp add: un comp_def)
  thus ?thesis
    unfolding Fast_GetUniques_def rw using decode_loop_result[OF mx, of 0 "map img rs" unimg "[]"]
    by simp
qed

lemma GetUniques_rows:
  assumes u: "uniques_inv s (map enc rs)" and inv: "grouper_inv s (map enc rs)"
    and dec: "\<And>r rest. dec (enc r @ rest) = Some r"
    and small: "length rs < 2 ^ 31"
  shows "GetUniques dec s = map Some rs"
proof -
  define ks where "ks = map enc rs"
  have "uint (num_groups_m s) = int (length rs)"
    using inv by (simp add: grouper_inv_def uint_nat unat_of_nat32)
  hence num: "nat (int32 (uint (num_groups_m s))) = length rs"
    using small by (simp add: int32_nat)
  have kb: "key_bytes_m s = concat ks" using u by (simp add: uniques_inv_def ks_def)
  have dks: "distinct ks" using inv by (simp add: grouper_inv_def ks_def)
  hence drs: "distinct rs" by (simp add: ks_def distinct_map)
  show ?thesis
  proof (cases "\<forall>r\<in>set rs. enc r \<noteq> []")
    case True
    hence flt: "filter (\<lambda>k. k \<noteq> []) ks = ks" by (simp add: ks_def)
    have offs: "offsets_m s = 0 # map (\<lambda>i. int (length (concat (take (Suc i) ks)))) [0..<length ks]"
      using u unfolding uniques_inv_def ks_def[symmetric] flt by simp
    have lo: "length (offsets_m s) = Suc (length rs)" by (simp add: offs ks_def)
    have at: "offsets_m s ! i = int (length (concat (take i ks)))" if "i < length rs" for i
      using that unfolding offs by (cases i) (simp_all add: ks_def)
    have one: "dec (drop (nat (offsets_m s ! i)) (key_bytes_m s)) = Some (rs ! i)"
      if i: "i < length rs" for i
    proof -
      have ik: "i < length ks" using i by (simp add: ks_def)
      have "concat ks = concat (take i ks) @ ks ! i @ concat (drop (Suc i) ks)"
        by (rule concat_take_drop_nth[OF ik])
      hence "drop (length (concat (take i ks))) (concat ks) = ks ! i @ concat (drop (Suc i) ks)"
        by (metis append_eq_conv_conj)
      moreover have "ks ! i = enc (rs ! i)" using i by (simp add: ks_def)
      ultimately show ?thesis unfolding at[OF i] kb by (simp add: dec)
    qed
    show ?thesis
      unfolding GetUniques_def num
      by (rule nth_equalityI) (simp_all add: lo one)
  next
    case False
    then obtain r where r: "r \<in> set rs" and e: "enc r = []" by blast
    have all: "x = r" for x
    proof -
      have "dec (enc r @ enc x) = Some r" by (rule dec)
      moreover have "dec (enc x @ []) = Some x" by (rule dec)
      ultimately show ?thesis using e by simp
    qed
    have "set rs = {r}" using r all by auto
    hence "length rs = 1" using distinct_card[OF drs] by simp
    hence rs: "rs = [r]" using all by (cases rs) simp_all
    have d0: "dec [] = Some r" using dec[of r "[]"] e by simp
    have "key_bytes_m s = []" using kb by (simp add: ks_def rs e)
    moreover have "offsets_m s = [0]" using u by (simp add: uniques_inv_def rs e)
    ultimately show ?thesis
      unfolding GetUniques_def num by (simp add: rs d0)
  qed
qed

subsection \<open>The grouper of \<^verbatim>\<open>Grouper::Make\<close>\<close>

lemma Grouper_run_calls_Fallback:
  "Grouper_run_calls enc img hash mx (FallbackGrouper s) calls
     = Some (FallbackGrouper (fst (run_calls enc s calls)), snd (run_calls enc s calls))"
  by (induction calls arbitrary: s) (simp_all add: split_beta)

lemma Grouper_run_calls_Fast:
  "Grouper_run_calls enc img hash mx (FastGrouper s) calls
     = map_option (\<lambda>(s', out). (FastGrouper s', out)) (Fast_run_calls img hash mx s calls)"
  by (induction calls arbitrary: s) (simp_all add: split_beta split: option.splits)

lemma fast_sim_Make_min:
  assumes "minibatch_size_min \<le> mx"
  shows "fast_sim img hash enc mx GrouperFastImpl_Make GrouperImpl_Make []"
  using assms grouper_inv_Make
  by (simp add: fast_sim_def fast_inv_def GrouperFastImpl_Make_def minibatch_size_min_def)

lemma Grouper_run_calls_agree:
  assumes inje: "inj enc" and inji: "inj img" and mx: "minibatch_size_min \<le> mx"
    and rows: "calls_rows calls < 2 ^ 32" and bytes: "calls_bytes enc calls < 2 ^ 31"
  shows "\<exists>g'. Grouper_run_calls enc img hash mx
                 (Grouper_Make little_endian is_large_binary_like key_types) calls
               = Some (g', snd (run_calls enc GrouperImpl_Make calls)) \<and>
              Grouper_num_groups g'
                = GrouperImpl_num_groups (fst (run_calls enc GrouperImpl_Make calls))"
proof (cases "CanUse little_endian is_large_binary_like key_types")
  case False
  thus ?thesis by (simp add: Grouper_Make_def Grouper_run_calls_Fallback)
next
  case True
  have b: "length ([] :: 'a list) + calls_rows calls < 2 ^ 32" using rows by simp
  from Fast_run_calls_sim[OF inji inje fast_sim_Make_min[OF mx] b bytes]
  obtain sf rs where
    r: "Fast_run_calls img hash mx GrouperFastImpl_Make calls
          = Some (sf, snd (run_calls enc GrouperImpl_Make calls))"
    and sim: "fast_sim img hash enc mx sf (fst (run_calls enc GrouperImpl_Make calls)) rs"
    by blast
  from sim have "GrouperFastImpl_num_groups sf
                   = GrouperImpl_num_groups (fst (run_calls enc GrouperImpl_Make calls))"
    by (simp add: fast_sim_def GrouperFastImpl_num_groups_def GrouperImpl_num_groups_def
          fast_inv_def grouper_inv_def)
  thus ?thesis using True r by (simp add: Grouper_Make_def Grouper_run_calls_Fast)
qed


lemma capped_rows_eq:
  "capped_rows batch offset len =
     (if len < 0 then drop (nat offset) batch else take (nat len) (drop (nat offset) batch))"
  by (simp add: capped_rows_def Slice_def)

subsection \<open>What the calls return\<close>

lemma group_ids_set:
  assumes d: "distinct ks" and l: "length ks < 2 ^ 32" and eq: "set keys = set ks"
  shows "set (group_ids_of ks keys) = {g. g < of_nat (length ks)}"
proof (intro set_eqI iffI)
  fix g assume "g \<in> set (group_ids_of ks keys)"
  hence "g < of_nat (length ks)" using group_ids_less[OF l, of keys g] eq by simp
  thus "g \<in> {g. g < of_nat (length ks)}" by simp
next
  fix g :: group_id_t assume "g \<in> {g. g < of_nat (length ks)}"
  hence "unat g < length ks" using l by (simp add: word_less_nat_alt unat_of_nat32)
  hence i: "unat g < length ks" .
  have mem: "ks ! unat g \<in> set keys" using i eq by simp
  have "first_index ks (ks ! unat g) = unat g" by (rule first_index_nth_distinct[OF d i])
  hence "(of_nat (first_index ks (ks ! unat g)) :: group_id_t) = g" by simp
  thus "g \<in> set (group_ids_of ks keys)"
    using mem unfolding group_ids_of_def by force
qed

lemma keys_after_consume:
  "list_all is_consume calls \<Longrightarrow>
   keys_after enc ks calls = insert_keys ks (consumed_keys enc calls)"
proof (induction calls arbitrary: ks)
  case Nil
  show ?case by (simp add: keys_after_def consumed_keys_def)
next
  case (Cons c calls)
  from Cons.prems have c: "is_consume c" and cs: "list_all is_consume calls" by simp_all
  have one: "keys_after_call enc ks c = insert_keys ks (consumed_of enc c)"
    using c by (cases c) simp_all
  have "keys_after enc ks (c # calls) = keys_after enc (keys_after_call enc ks c) calls"
    by (rule keys_after_Cons)
  also have "\<dots> = insert_keys (insert_keys ks (consumed_of enc c)) (consumed_keys enc calls)"
    unfolding one by (rule Cons.IH[OF cs])
  also have "\<dots> = insert_keys ks (consumed_of enc c @ consumed_keys enc calls)"
    by (rule insert_keys_append[symmetric])
  finally show ?case by (simp add: consumed_keys_def)
qed

lemma length_insert_keys_Nil: "length (insert_keys [] keys) = card (set keys)"
proof -
  have "distinct (insert_keys [] keys)" by (rule distinct_insert_keys) simp
  hence "length (insert_keys [] keys) = card (set (insert_keys [] keys))"
    by (rule distinct_card[symmetric])
  thus ?thesis by simp
qed

lemma first_index_first_occurrence:
  assumes i: "i < length keys" and new: "keys ! i \<notin> set (take i keys)"
  shows "first_index (insert_keys [] keys) (keys ! i) = card (set (take i keys))"
proof -
  define P where "P = insert_keys [] (take i keys)"
  have split: "keys = take i keys @ keys ! i # drop (Suc i) keys"
    using i by (simp add: id_take_nth_drop)
  have notin: "keys ! i \<notin> set P" using new by (simp add: P_def)
  have "insert_keys [] keys = insert_keys (insert_keys [] (take i keys)) (keys ! i # drop (Suc i) keys)"
    by (subst split) (rule insert_keys_append)
  also have "\<dots> = insert_keys (P @ [keys ! i]) (drop (Suc i) keys)"
    using notin by (simp add: P_def insert_key_def)
  finally have e: "insert_keys [] keys = insert_keys (P @ [keys ! i]) (drop (Suc i) keys)" .
  have "first_index (insert_keys [] keys) (keys ! i) = first_index (P @ [keys ! i]) (keys ! i)"
    unfolding e by (rule first_index_insert_keys) simp
  also have "\<dots> = length P" using notin by (rule first_index_notin)
  also have "\<dots> = card (set (take i keys))" unfolding P_def by (rule length_insert_keys_Nil)
  finally show ?thesis .
qed

lemma group_ids_contiguous:
  assumes l: "length keys < 2 ^ 32" and i: "i < length keys"
  shows "group_ids_of (insert_keys [] keys) keys ! i
           \<in> set (take i (group_ids_of (insert_keys [] keys) keys)) \<or>
         group_ids_of (insert_keys [] keys) keys ! i
           = of_nat (card (set (take i (group_ids_of (insert_keys [] keys) keys))))"
proof -
  define ks where "ks = insert_keys [] keys"
  define f :: "bytes \<Rightarrow> group_id_t" where "f = (\<lambda>k. of_nat (first_index ks k))"
  have ids: "group_ids_of ks keys = map f keys" by (simp add: group_ids_of_def f_def)
  have lks: "length ks < 2 ^ 32"
    using length_insert_keys[of "[]" keys] l by (simp add: ks_def)
  have sub: "set keys \<subseteq> set ks" by (simp add: ks_def)
  have inj: "inj_on f (set keys)"
  proof (rule inj_onI)
    fix x y assume x: "x \<in> set keys" and y: "y \<in> set keys" and e: "f x = f y"
    have xs: "x \<in> set ks" and ys: "y \<in> set ks" using x y sub by auto
    have "first_index ks x < 2 ^ 32" "first_index ks y < 2 ^ 32"
      using first_index_less[OF xs] first_index_less[OF ys] lks by simp_all
    hence "first_index ks x = first_index ks y"
      using e unfolding f_def by (simp add: of_nat32_eq_iff)
    thus "x = y" using first_index_eq_iff[OF xs ys] by simp
  qed
  have tk: "take i (map f keys) = map f (take i keys)" by (rule take_map)
  show ?thesis
  proof (cases "keys ! i \<in> set (take i keys)")
    case True
    hence "f (keys ! i) \<in> set (map f (take i keys))" by simp
    thus ?thesis unfolding ks_def[symmetric] ids tk using i by simp
  next
    case False
    have "first_index ks (keys ! i) = card (set (take i keys))"
      unfolding ks_def by (rule first_index_first_occurrence[OF i False])
    moreover have "card (set (map f (take i keys))) = card (set (take i keys))"
    proof -
      have "inj_on f (set (take i keys))"
        by (rule inj_on_subset[OF inj]) (rule set_take_subset)
      thus ?thesis by (simp add: card_image)
    qed
    ultimately have "f (keys ! i) = of_nat (card (set (map f (take i keys))))"
      by (simp add: f_def)
    thus ?thesis unfolding ks_def[symmetric] ids tk using i by simp
  qed
qed

lemma length_consumed_keys: "length (consumed_keys enc calls) \<le> calls_rows calls"
proof (induction calls)
  case Nil
  show ?case by (simp add: consumed_keys_def calls_rows_def)
next
  case (Cons c calls)
  have "length (consumed_of enc c) \<le> call_rows c"
    using length_capped_rows by (cases c) auto
  thus ?case using Cons.IH by (simp add: consumed_keys_def calls_rows_def)
qed

lemma run_calls_snoc:
  "snd (run_calls enc s (calls @ [c])) =
     snd (run_calls enc s calls) @ [snd (do_call enc (fst (run_calls enc s calls)) c)]"
  "fst (run_calls enc s (calls @ [c])) = fst (do_call enc (fst (run_calls enc s calls)) c)"
  by (simp_all add: run_calls_append split_beta)

lemma fallback_consume_result:
  assumes rows: "calls_rows calls + length batch < 2 ^ 32"
    and bytes: "calls_bytes enc calls + batch_bytes enc batch < 2 ^ 31"
    and off: "0 \<le> offset"
  shows "snd (run_calls enc GrouperImpl_Make (calls @ [CallConsume batch offset len])) =
           snd (run_calls enc GrouperImpl_Make calls) @
           [Inr (ArrayDatum (UInt32Array (int (length (capped_rows batch offset len)))
                  (group_ids_of
                     (insert_keys (keys_after enc [] calls) (map enc (capped_rows batch offset len)))
                     (map enc (capped_rows batch offset len))) None))]"
proof -
  let ?s = "fst (run_calls enc GrouperImpl_Make calls)"
  let ?ks = "keys_after enc [] calls"
  have b0: "length ([] :: bytes list) + calls_rows calls < 2 ^ 32" using rows by simp
  have by0: "calls_bytes enc calls < 2 ^ 31" using bytes by simp
  have inv: "grouper_inv ?s ?ks" by (rule run_calls_inv[OF grouper_inv_Make b0 by0])
  have "length ?ks \<le> calls_rows calls" using length_keys_after[of enc "[]" calls] by simp
  hence b: "length ?ks + length batch < 2 ^ 32" using rows by simp
  have byt: "batch_bytes enc batch < 2 ^ 31" using bytes by simp
  show ?thesis
    unfolding run_calls_snoc by (simp add: Consume_reached[OF inv b off byt])
qed


lemma Grouper_inv_Make:
  assumes "minibatch_size_min \<le> mx"
  shows "Grouper_inv enc img hash mx (Grouper_Make little_endian is_large_binary_like key_types) []"
  using assms grouper_inv_Make
  by (simp add: Grouper_inv_def Grouper_Make_def fast_inv_def GrouperFastImpl_Make_def
        minibatch_size_min_def)

lemma Grouper_inv_Reset:
  assumes "Grouper_inv enc img hash mx g rs"
  shows "Grouper_inv enc img hash mx (Grouper_Reset g) []"
  using assms grouper_inv_Reset
  by (cases g) (simp_all add: Grouper_inv_def fast_inv_def GrouperFastImpl_Reset_def)

lemma Grouper_inv_distinct:
  assumes "Grouper_inv enc img hash mx g rs"
  shows "distinct rs" and "length rs < 2 ^ 32"
proof -
  have "distinct rs \<and> length rs < 2 ^ 32"
  proof (cases g)
    case (FallbackGrouper s)
    hence "grouper_inv s (map enc rs)" using assms by (simp add: Grouper_inv_def)
    thus ?thesis by (simp add: grouper_inv_def distinct_map)
  next
    case (FastGrouper s)
    thus ?thesis using assms by (simp add: Grouper_inv_def fast_inv_def)
  qed
  thus "distinct rs" and "length rs < 2 ^ 32" by simp_all
qed

lemma Grouper_Consume_reached:
  assumes inv: "Grouper_inv enc img hash mx g rs" and inje: "inj enc" and inji: "inj img"
    and bound: "length rs + length (capped_rows batch offset len) < 2 ^ 32"
    and off: "0 \<le> offset" and bytes: "batch_bytes enc batch < 2 ^ 31"
  shows "\<exists>g'. Grouper_Consume enc img hash mx g batch offset len =
                Some (Inr (g', ArrayDatum (UInt32Array (int (length (capped_rows batch offset len)))
                        (map (\<lambda>r. of_nat (first_index (insert_keys rs (capped_rows batch offset len)) r))
                           (capped_rows batch offset len)) None))) \<and>
              Grouper_inv enc img hash mx g' (insert_keys rs (capped_rows batch offset len))"
proof (cases g)
  case (FallbackGrouper s)
  define R where "R = capped_rows batch offset len"
  have gi: "grouper_inv s (map enc rs)" using inv FallbackGrouper by (simp add: Grouper_inv_def)
  have b: "length (map enc rs) + length R < 2 ^ 32" using bound by (simp add: R_def)
  have byt: "batch_bytes enc R < 2 ^ 31"
    unfolding R_def using bytes batch_bytes_capped[of enc batch offset len] by simp
  have ik: "insert_keys (map enc rs) (map enc R) = map enc (insert_keys rs R)"
    by (rule insert_keys_map_inj[OF inje])
  have gi': "grouper_inv (fst (ConsumeBody enc s R kConsume)) (map enc (insert_keys rs R))"
    using ConsumeBody_insert(1)[OF gi b _ byt, of kConsume] unfolding ik by simp
  have d: "snd (ConsumeBody enc s R kConsume) =
             ArrayDatum (UInt32Array (int (length R))
               (map (\<lambda>r. of_nat (first_index (insert_keys rs R) r)) R) None)"
    using ConsumeBody_insert(2)[OF gi b _ byt, of kConsume]
    unfolding ik group_ids_of_map_inj[OF inje] by simp
  have "Consume enc s batch offset len =
          Inr (fst (ConsumeBody enc s R kConsume), snd (ConsumeBody enc s R kConsume))"
    using off by (simp add: Consume_def ConsumeImpl_eq R_def)
  hence "Grouper_Consume enc img hash mx g batch offset len =
           Some (Inr (FallbackGrouper (fst (ConsumeBody enc s R kConsume)),
                      ArrayDatum (UInt32Array (int (length R))
                        (map (\<lambda>r. of_nat (first_index (insert_keys rs R) r)) R) None)))"
    unfolding FallbackGrouper d[symmetric] by (simp add: case_prod_beta)
  moreover have "Grouper_inv enc img hash mx (FallbackGrouper (fst (ConsumeBody enc s R kConsume)))
                   (insert_keys rs R)"
    using gi' by (simp add: Grouper_inv_def)
  ultimately show ?thesis unfolding R_def by blast
next
  case (FastGrouper s)
  define R where "R = capped_rows batch offset len"
  have fi: "fast_inv img hash (fast_map_m s) (fast_rows_m s) rs"
    and m0: "0 < fast_minibatch_size_m s" and m1: "fast_minibatch_size_m s \<le> mx"
    using inv FastGrouper by (simp_all add: Grouper_inv_def)
  have b: "length rs + length R < 2 ^ 32" using bound by (simp add: R_def)
  from Fast_ConsumeBody_insert[OF fi inji _ m0 m1 b, of kConsume]
  obtain s' where
    r: "Fast_ConsumeBody img hash mx s R kConsume =
           Some (s', ArrayDatum (UInt32Array (int (length R))
                        (map (\<lambda>r. of_nat (first_index (insert_keys rs R) r)) R) None))"
    and fi': "fast_inv img hash (fast_map_m s') (fast_rows_m s') (insert_keys rs R)"
    and m': "0 < fast_minibatch_size_m s'" "fast_minibatch_size_m s' \<le> mx"
    by auto
  have "Grouper_Consume enc img hash mx g batch offset len =
           Some (Inr (FastGrouper s',
                      ArrayDatum (UInt32Array (int (length R))
                        (map (\<lambda>r. of_nat (first_index (insert_keys rs R) r)) R) None)))"
    using off unfolding FastGrouper by (simp add: Fast_ConsumeImpl_eq R_def[symmetric] r)
  moreover have "Grouper_inv enc img hash mx (FastGrouper s') (insert_keys rs R)"
    using fi' m' by (simp add: Grouper_inv_def)
  ultimately show ?thesis unfolding R_def by blast
qed

lemma row_ids_eq_iff:
  assumes d: "length rs < 2 ^ 32" and i: "r \<in> set rs" and j: "r' \<in> set rs"
  shows "(of_nat (first_index rs r) :: 32 word) = of_nat (first_index rs r') \<longleftrightarrow> r = r'"
proof -
  have a: "first_index rs r < 2 ^ 32" "first_index rs r' < 2 ^ 32"
    using first_index_less[OF i] first_index_less[OF j] d by simp_all
  have "(of_nat (first_index rs r) :: 32 word) = of_nat (first_index rs r')
          \<longleftrightarrow> first_index rs r = first_index rs r'"
    by (rule of_nat32_eq_iff[OF a])
  also have "\<dots> \<longleftrightarrow> r = r'"
    by (rule first_index_eq_iff[OF i j])
  finally show ?thesis .
qed

lemma first_stage:
  assumes inje: "inj enc" and inji: "inj img"
    and inv: "segmenter_inv enc img hash mx seg prev"
    and ne: "rows batch \<noteq> []" and bytes: "batch_bytes enc (rows batch) < 2 ^ 31"
  shows "\<exists>grouper1 rs1.
           (if save_group_id_m seg \<noteq> kNoGroupId
            then (case MapGroupIdAt enc img hash mx (grouper_m seg) batch 0 of
                    None \<Rightarrow> None
                  | Some DCheckFailed \<Rightarrow> Some DCheckFailed
                  | Some (Returned (Inl e)) \<Rightarrow> Some (Returned (Inl e))
                  | Some (Returned (Inr (grouper1, group_id))) \<Rightarrow>
                      Some (Returned (Inr (grouper1, group_id = save_group_id_m seg))))
            else Some (Returned (Inr (grouper_m seg, kDefaultExtends))))
           = Some (Returned (Inr (grouper1, prev = [] \<or> last prev = rows batch ! 0))) \<and>
           Grouper_inv enc img hash mx grouper1 rs1"
proof -
  from inv obtain rs where gi: "Grouper_inv enc img hash mx (grouper_m seg) rs"
    and lk: "Suc (length rs) < 2 ^ 32"
    and sv: "if prev = [] then save_group_id_m seg = kNoGroupId
             else last prev \<in> set rs \<and>
                  save_group_id_m seg = of_nat (first_index rs (last prev))"
    unfolding segmenter_inv_def by blast
  show ?thesis
  proof (cases "prev = []")
    case True
    then have "save_group_id_m seg = kNoGroupId" using sv by simp
    then show ?thesis using True gi by (auto simp add: kDefaultExtends_def)
  next
    case False
    let ?lp = "last prev" and ?r0 = "rows batch ! 0"
    have mem: "?lp \<in> set rs"
      and save: "save_group_id_m seg = of_nat (first_index rs ?lp)"
      using sv False by simp_all
    have "first_index rs ?lp < length rs" using mem by (rule first_index_less)
    then have nk: "save_group_id_m seg \<noteq> kNoGroupId"
      unfolding save using lk by (intro kNoGroupId_not_index) simp
    let ?rs1 = "insert_keys rs [?r0]"
    have cr: "capped_rows (rows batch) 0 1 = [?r0]" by (rule capped_rows_first[OF ne])
    have b: "length rs + length (capped_rows (rows batch) 0 1) < 2 ^ 32"
      using lk by (simp add: cr)
    from Grouper_Consume_reached[OF gi inje inji b _ bytes, unfolded cr]
    obtain g1 where
      cons: "Grouper_Consume enc img hash mx (grouper_m seg) (rows batch) 0 1 =
               Some (Inr (g1, ArrayDatum (UInt32Array (int (length [?r0]))
                        (map (\<lambda>r. of_nat (first_index ?rs1 r)) [?r0]) None)))"
      and gi1: "Grouper_inv enc img hash mx g1 ?rs1" by auto
    have l1: "length ?rs1 < 2 ^ 32"
      using length_insert_keys[of rs "[?r0]"] lk by simp
    have m1: "?lp \<in> set ?rs1" "?r0 \<in> set ?rs1" using mem by simp_all
    have same: "first_index ?rs1 ?lp = first_index rs ?lp"
      by (rule first_index_insert_keys[OF mem])
    have ext: "(of_nat (first_index ?rs1 ?r0) :: group_id_t) = save_group_id_m seg
                 \<longleftrightarrow> ?lp = ?r0"
      unfolding save same[symmetric]
      using row_ids_eq_iff[OF l1 m1(2) m1(1)] by auto
    have "MapGroupIdAt enc img hash mx (grouper_m seg) batch 0 =
            Some (Returned (Inr (g1, of_nat (first_index ?rs1 ?r0))))"
      unfolding MapGroupIdAt_def cons by simp
    then show ?thesis
      using nk False ext gi1 by auto
  qed
qed

lemma GetSegments_step:
  assumes inje: "inj enc" and inji: "inj img"
    and inv: "segmenter_inv enc img hash mx seg prev"
    and ty: "value_types batch = key_types" and len: "length (rows batch) < 2 ^ 32 - 1"
    and bytes: "batch_bytes enc (rows batch) < 2 ^ 31"
  shows "\<exists>seg' segs.
           AnyKeysSegmenter_GetSegments enc img hash mx key_types seg batch
             = Some (Returned (Inr (seg', segs))) \<and>
           segmenter_inv enc img hash mx seg' (prev @ rows batch) \<and>
           (if rows batch = [] then segs = []
            else segs \<noteq> [] \<and>
                 segs_ok (rows batch) (span_length batch)
                   (prev = [] \<or> last prev = rows batch ! 0) (length (rows batch)) segs)"
proof (cases "rows batch = []")
  case True
  have "AnyKeysSegmenter_GetSegments enc img hash mx key_types seg batch
          = Some (Returned (Inr (seg, [])))"
    using True CheckForGetSegments_same[of batch]
    by (simp add: AnyKeysSegmenter_GetSegments_def ty[symmetric] span_length_def)
  then show ?thesis using True inv by simp
next
  case False
  let ?rows = "rows batch"
  let ?n = "length ?rows"
  let ?E = "prev = [] \<or> last prev = ?rows ! 0"
  have n: "0 < ?n" using False by simp
  from first_stage[OF inje inji inv False bytes]
  obtain grouper1 rs1 where st1:
    "(if save_group_id_m seg \<noteq> kNoGroupId
            then (case MapGroupIdAt enc img hash mx (grouper_m seg) batch 0 of
                    None \<Rightarrow> None
                  | Some DCheckFailed \<Rightarrow> Some DCheckFailed
                  | Some (Returned (Inl e)) \<Rightarrow> Some (Returned (Inl e))
                  | Some (Returned (Inr (grouper1, group_id))) \<Rightarrow>
                      Some (Returned (Inr (grouper1, group_id = save_group_id_m seg))))
            else Some (Returned (Inr (grouper_m seg, kDefaultExtends))))
           = Some (Returned (Inr (grouper1, ?E)))"
    and gi1: "Grouper_inv enc img hash mx grouper1 rs1" by blast
  let ?rs2 = "insert_keys [] ?rows"
  let ?ids = "map (\<lambda>r. of_nat (first_index ?rs2 r) :: group_id_t) ?rows"
  have cr: "capped_rows ?rows 0 (- 1) = ?rows" by (rule capped_rows_whole)
  have b: "length ([] :: 'a list) + length (capped_rows ?rows 0 (- 1)) < 2 ^ 32"
    using len by (simp add: cr)
  from Grouper_Consume_reached[OF Grouper_inv_Reset[OF gi1] inje inji b _ bytes, unfolded cr]
  obtain g2 where
    st2: "Grouper_Consume enc img hash mx (Grouper_Reset grouper1) ?rows 0 (- 1) =
               Some (Inr (g2, ArrayDatum (UInt32Array (int ?n) ?ids None)))"
    and gi2: "Grouper_inv enc img hash mx g2 ?rs2" by auto
  have l2: "length ?rs2 \<le> ?n"
    using length_insert_keys[of "[]" ?rows] by simp
  then have l2': "length ?rs2 < 2 ^ 32" and l2'': "Suc (length ?rs2) < 2 ^ 32"
    using len by simp_all
  have H: "\<forall>i<?n. \<forall>j<?n. ?ids ! i = ?ids ! j \<longleftrightarrow> ?rows ! i = ?rows ! j"
  proof (intro allI impI)
    fix i j assume i: "i < ?n" and j: "j < ?n"
    have "?rows ! i \<in> set ?rs2" "?rows ! j \<in> set ?rs2" using i j by simp_all
    from row_ids_eq_iff[OF l2' this] show "?ids ! i = ?ids ! j \<longleftrightarrow> ?rows ! i = ?rows ! j"
      using i j by simp
  qed
  let ?segs = "scan_segments ?ids (int ?n) (int ?n) ?E"
  let ?seg' = "\<lparr>grouper_m = g2, save_group_id_m = ?ids ! nat (int ?n - 1)\<rparr>"
  have res: "AnyKeysSegmenter_GetSegments enc img hash mx key_types seg batch
               = Some (Returned (Inr (?seg', ?segs)))"
    unfolding AnyKeysSegmenter_GetSegments_def ty[symmetric] CheckForGetSegments_same st1
    using False by (simp add: span_length_def st2)
  have ok: "segs_ok ?rows (span_length batch) ?E ?n ?segs" and nonempty: "?segs \<noteq> []"
    unfolding span_length_def by (rule scan_segments_ok[OF H n])+
  have lastrow: "last (prev @ ?rows) = ?rows ! (?n - 1)"
  proof -
    have "last (prev @ ?rows) = last ?rows" using False by simp
    also have "\<dots> = ?rows ! (?n - 1)" using False by (rule last_conv_nth)
    finally show ?thesis .
  qed
  have idx: "nat (int ?n - 1) = ?n - 1" by simp
  have "?ids ! (?n - 1) = of_nat (first_index ?rs2 (?rows ! (?n - 1)))"
    using n by simp
  moreover have "?rows ! (?n - 1) \<in> set ?rs2" using n by simp
  ultimately have inv': "segmenter_inv enc img hash mx ?seg' (prev @ ?rows)"
    unfolding segmenter_inv_def idx lastrow using gi2 l2'' False
    by (intro exI[of _ ?rs2]) simp
  show ?thesis
    using res inv' ok nonempty False by (intro exI[of _ ?seg'] exI[of _ ?segs]) simp
qed

lemma segmenter_inv_Make:
  assumes "minibatch_size_min \<le> mx"
  shows "segmenter_inv enc img hash mx
           (AnyKeysSegmenter_Make little_endian is_large_binary_like key_types) []"
  unfolding segmenter_inv_def AnyKeysSegmenter_Make_def
  using Grouper_inv_Make[OF assms, of enc img hash little_endian is_large_binary_like key_types]
  by (intro exI[of _ "[]"]) simp

lemma AnyKeysSegmenter_run_inv:
  assumes inje: "inj enc" and inji: "inj img"
    and inv: "segmenter_inv enc img hash mx seg prev"
    and ok: "list_all (\<lambda>b. value_types b = key_types \<and> length (rows b) < 2 ^ 32 - 1 \<and>
                            batch_bytes enc (rows b) < 2 ^ 31) batches"
  shows "\<exists>seg' out. AnyKeysSegmenter_run enc img hash mx key_types seg batches
                       = Some (Returned (Inr (seg', out))) \<and>
           length out = length batches \<and>
           segmenter_inv enc img hash mx seg' (prev @ concat (map rows batches))"
  using inv ok
proof (induction batches arbitrary: seg prev)
  case Nil
  then show ?case by simp
next
  case (Cons b batches)
  from Cons.prems(2) have b: "value_types b = key_types" "length (rows b) < 2 ^ 32 - 1"
      "batch_bytes enc (rows b) < 2 ^ 31"
    and rest: "list_all (\<lambda>b. value_types b = key_types \<and> length (rows b) < 2 ^ 32 - 1 \<and>
                            batch_bytes enc (rows b) < 2 ^ 31) batches"
    by simp_all
  from GetSegments_step[OF inje inji Cons.prems(1) b]
  obtain seg1 segs where g: "AnyKeysSegmenter_GetSegments enc img hash mx key_types seg b
                               = Some (Returned (Inr (seg1, segs)))"
    and i1: "segmenter_inv enc img hash mx seg1 (prev @ rows b)" by blast
  from Cons.IH[OF i1 rest]
  obtain seg2 out where r: "AnyKeysSegmenter_run enc img hash mx key_types seg1 batches
                              = Some (Returned (Inr (seg2, out)))"
    and lo: "length out = length batches"
    and i2: "segmenter_inv enc img hash mx seg2 ((prev @ rows b) @ concat (map rows batches))"
    by blast
  show ?case
    using g r lo i2 by simp
qed


subsection \<open>The example key schema\<close>

lemma inj_encode_uint8_key: "inj encode_uint8_key"
  by (rule injI) (auto simp: encode_uint8_key_def split: option.splits)

lemma decode_encode_uint8_key: "decode_uint8_key (encode_uint8_key r @ rest) = Some r"
  by (cases r) (simp_all add: decode_uint8_key_def encode_uint8_key_def)

lemma length_encode_uint8_key: "length (encode_uint8_key r) = 2"
  by (cases r) (simp_all add: encode_uint8_key_def)

lemma batch_bytes_uint8_key: "batch_bytes encode_uint8_key batch = 2 * length batch"
  by (induction batch) (simp_all add: batch_bytes_def length_encode_uint8_key)

section \<open>Claims about the grouper\<close>

text \<open>
  C1. The grouper is the one that \<^verbatim>\<open>Grouper::Make\<close> returns for the key types, the fast
  or the fallback one, after any sequence of calls. For every batch it then consumes,
  two rows of the range \<open>offset\<close>, \<open>len\<close> of the batch (the rows from \<open>offset\<close> on, at
  most \<open>len\<close> of them when \<open>len\<close> is not negative) get the same group id if and only if
  their key tuples are equal. A row is any value of the row type, so that with optional
  column values a null (\<open>None\<close>) equals a null and differs from every value; \<open>inj enc\<close>
  and \<open>inj img\<close> say that the key encoders of the two implementations give equal
  encodings to equal rows only. Group ids are 32-bit and key byte offsets are signed
  32-bit: fewer than \<open>2^32\<close> rows that encode to fewer than \<open>2^31\<close> key bytes are fed in all.
\<close>

theorem grouper_equal_id_iff_equal_key:
  assumes inje: "inj enc" and inji: "inj img" and mx: "minibatch_size_min \<le> mx"
    and rows: "calls_rows calls + length batch < 2 ^ 32"
    and bytes: "calls_bytes enc calls + batch_bytes enc batch < 2 ^ 31"
    and off: "0 \<le> offset"
  shows "\<exists>g' out ids.
           Grouper_run_calls enc img hash mx
               (Grouper_Make little_endian is_large_binary_like key_types)
               (calls @ [CallConsume batch offset len]) =
             Some (g', out @ [Inr (ArrayDatum
                      (UInt32Array (int (length (capped_rows batch offset len))) ids None))]) \<and>
           length out = length calls \<and>
           capped_rows batch offset len =
             (if len < 0 then drop (nat offset) batch
              else take (nat len) (drop (nat offset) batch)) \<and>
           length ids = length (capped_rows batch offset len) \<and>
           (\<forall>i < length (capped_rows batch offset len).
              \<forall>j < length (capped_rows batch offset len).
                ids ! i = ids ! j \<longleftrightarrow>
                capped_rows batch offset len ! i = capped_rows batch offset len ! j)"
proof -
  let ?c = "CallConsume batch offset len"
  let ?ks = "keys_after enc [] calls"
  let ?rows = "capped_rows batch offset len"
  let ?ks' = "insert_keys ?ks (map enc ?rows)"
  have r': "calls_rows (calls @ [?c]) < 2 ^ 32" using rows by (simp add: calls_rows_def)
  have b': "calls_bytes enc (calls @ [?c]) < 2 ^ 31" using bytes by (simp add: calls_bytes_def)
  from Grouper_run_calls_agree[OF inje inji mx r' b']
  obtain g' where run: "Grouper_run_calls enc img hash mx
                 (Grouper_Make little_endian is_large_binary_like key_types) (calls @ [?c])
               = Some (g', snd (run_calls enc GrouperImpl_Make (calls @ [?c])))"
    by blast
  have lks: "length ?ks \<le> calls_rows calls"
    using length_keys_after[of enc "[]" calls] by simp
  have lks': "length ?ks' < 2 ^ 32"
    using length_insert_keys[of ?ks "map enc ?rows"] length_capped_rows[of batch offset len]
      lks rows
    by simp
  define ids where "ids = group_ids_of ?ks' (map enc ?rows)"
  have len: "length ids = length ?rows"
    by (simp add: ids_def group_ids_of_def)
  have eq: "\<forall>i < length ?rows. \<forall>j < length ?rows. ids ! i = ids ! j \<longleftrightarrow> ?rows ! i = ?rows ! j"
  proof (intro allI impI)
    fix i j assume i: "i < length ?rows" and j: "j < length ?rows"
    have "enc (?rows ! i) \<in> set ?ks'" "enc (?rows ! j) \<in> set ?ks'"
      using i j by simp_all
    then show "ids ! i = ids ! j \<longleftrightarrow> ?rows ! i = ?rows ! j"
      using i j group_ids_eq_iff[OF inje lks'] by (simp add: ids_def group_ids_of_def)
  qed
  have res: "snd (run_calls enc GrouperImpl_Make (calls @ [?c])) =
          snd (run_calls enc GrouperImpl_Make calls) @
          [Inr (ArrayDatum (UInt32Array (int (length ?rows)) ids None))]"
    unfolding ids_def by (rule fallback_consume_result[OF rows bytes off])
  have lo: "length (snd (run_calls enc GrouperImpl_Make calls)) = length calls"
    by (rule length_run_calls)
  show ?thesis
    using run[unfolded res] lo capped_rows_eq[of batch offset len] len eq by blast
qed

theorem grouper_equal_id_iff_equal_key_witness:
  "\<exists>g' out ids.
     Grouper_run_calls encode_uint8_key (\<lambda>r. r) (\<lambda>r. 0) 128
         (Grouper_Make True (\<lambda>t. False) [()])
         ([CallConsume [Some 7, None] 0 (- 1)]
          @ [CallConsume [None, None, Some 1, None, Some 5] 0 4]) =
       Some (g', out @ [Inr (ArrayDatum
                (UInt32Array (int (length (capped_rows [None, None, Some 1, None, Some (5 :: byte)] 0 4)))
                   ids None))]) \<and>
     length out = length [CallConsume [Some (7 :: byte), None] 0 (- 1)] \<and>
     capped_rows [None, None, Some 1, None, Some (5 :: byte)] 0 4 =
       (if (4 :: int) < 0 then drop (nat 0) [None, None, Some 1, None, Some 5]
        else take (nat 4) (drop (nat 0) [None, None, Some 1, None, Some 5])) \<and>
     length ids = length (capped_rows [None, None, Some 1, None, Some (5 :: byte)] 0 4) \<and>
     (\<forall>i < length (capped_rows [None, None, Some 1, None, Some (5 :: byte)] 0 4).
        \<forall>j < length (capped_rows [None, None, Some 1, None, Some (5 :: byte)] 0 4).
          ids ! i = ids ! j \<longleftrightarrow>
          capped_rows [None, None, Some 1, None, Some (5 :: byte)] 0 4 ! i
            = capped_rows [None, None, Some 1, None, Some 5] 0 4 ! j)"
proof -
  have inji: "inj (\<lambda>r :: byte option. r)" by (rule injI) simp
  have mx: "minibatch_size_min \<le> 128" by (simp add: minibatch_size_min_def)
  have rows: "calls_rows [CallConsume [Some (7 :: byte), None] 0 (- 1)]
                + length [None, None, Some 1, None, Some (5 :: byte)] < 2 ^ 32"
    by (simp add: calls_rows_def)
  have bytes: "calls_bytes encode_uint8_key [CallConsume [Some (7 :: byte), None] 0 (- 1)]
                + batch_bytes encode_uint8_key [None, None, Some 1, None, Some (5 :: byte)] < 2 ^ 31"
    by (simp add: calls_bytes_def batch_bytes_uint8_key)
  have off: "(0 :: int) \<le> 0" by simp
  show ?thesis
    by (rule grouper_equal_id_iff_equal_key[OF inj_encode_uint8_key inji mx rows bytes off])
qed

text \<open>
  C2, as stated, fails when a populate call precedes a consume call: populate inserts keys
  and returns no ids, so that \<open>num_groups()\<close> is 2 below while the only id returned is 0,
  on the fallback grouper and on the fast grouper.
\<close>

theorem populate_breaks_max_id_counterexample:
  "returned_ids (snd (run_calls encode_uint8_key GrouperImpl_Make
      [CallPopulate [Some 1, Some 2] 0 (- 1), CallConsume [Some 1] 0 (- 1)])) = [0] \<and>
   GrouperImpl_num_groups (fst (run_calls encode_uint8_key GrouperImpl_Make
      [CallPopulate [Some 1, Some 2] 0 (- 1), CallConsume [Some 1] 0 (- 1)])) = 2 \<and>
   GrouperImpl_num_groups (fst (run_calls encode_uint8_key GrouperImpl_Make
      [CallPopulate [Some 1, Some 2] 0 (- 1), CallConsume [Some 1] 0 (- 1)])) \<noteq>
     1 + Max (set (returned_ids (snd (run_calls encode_uint8_key GrouperImpl_Make
      [CallPopulate [Some 1, Some 2] 0 (- 1), CallConsume [Some 1] 0 (- 1)])))) \<and>
   map_option (returned_ids \<circ> snd)
     (Fast_run_calls id (case_option 0 ucast) 128 GrouperFastImpl_Make
        [CallPopulate [Some (1 :: byte), Some 2] 0 (- 1), CallConsume [Some 1] 0 (- 1)])
     = Some [0] \<and>
   map_option (GrouperFastImpl_num_groups \<circ> fst)
     (Fast_run_calls id (case_option 0 ucast) 128 GrouperFastImpl_Make
        [CallPopulate [Some (1 :: byte), Some 2] 0 (- 1), CallConsume [Some 1] 0 (- 1)])
     = Some 2 \<and>
   (2 :: group_id_t) \<noteq> 1 + Max (set [0])"
  by code_simp

text \<open>
  C2, amended. The grouper is the one that \<^verbatim>\<open>Grouper::Make\<close> returns. After any sequence
  of populate and consume calls on it, a consume call on the range \<open>offset\<close>, \<open>len\<close> of a
  batch returns a uint32 array without validity bitmap holding one id per row of the range
  (\<open>len\<close> ids when the range lies within the batch), and every id returned so far is
  below \<open>num_groups()\<close>. When all the calls are consume calls, the ids are dense: the ids
  returned so far are exactly the ids below \<open>num_groups()\<close>, \<open>num_groups()\<close> is one plus
  the largest of them (0 when no id has been returned), and they are assigned
  contiguously from 0, that is, an id that is returned for the first time is the number
  of distinct ids returned before it. Fewer than \<open>2^32\<close> rows that encode to fewer than
  \<open>2^31\<close> key bytes are fed in all.
\<close>

theorem returned_ids_dense:
  assumes inje: "inj enc" and inji: "inj img" and mx: "minibatch_size_min \<le> mx"
    and pc: "list_all populate_or_consume calls"
    and rows: "calls_rows calls + length batch < 2 ^ 32"
    and bytes: "calls_bytes enc calls + batch_bytes enc batch < 2 ^ 31"
    and off: "0 \<le> offset"
  shows "\<exists>g' out.
     Grouper_run_calls enc img hash mx
         (Grouper_Make little_endian is_large_binary_like key_types)
         (calls @ [CallConsume batch offset len]) = Some (g', out) \<and>
     length out = Suc (length calls) \<and>
     (\<exists>ids. last out =
               Inr (ArrayDatum (UInt32Array (int (length (capped_rows batch offset len))) ids None)) \<and>
            length ids = length (capped_rows batch offset len)) \<and>
     capped_rows batch offset len =
       (if len < 0 then drop (nat offset) batch else take (nat len) (drop (nat offset) batch)) \<and>
     (0 \<le> len \<and> offset + len \<le> int (length batch) \<longrightarrow>
        length (capped_rows batch offset len) = nat len) \<and>
     list_all (\<lambda>g. g < Grouper_num_groups g') (returned_ids out) \<and>
     (list_all is_consume calls \<longrightarrow>
        set (returned_ids out) = {g. g < Grouper_num_groups g'} \<and>
        Grouper_num_groups g' =
          (if returned_ids out = [] then 0 else 1 + Max (set (returned_ids out))) \<and>
        (\<forall>i < length (returned_ids out).
           returned_ids out ! i \<in> set (take i (returned_ids out)) \<or>
           returned_ids out ! i = of_nat (card (set (take i (returned_ids out))))))"
proof -
  let ?c = "CallConsume batch offset len"
  let ?calls = "calls @ [?c]"
  let ?R = "run_calls enc GrouperImpl_Make ?calls"
  let ?rows = "capped_rows batch offset len"
  let ?ksf = "keys_after enc [] ?calls"
  let ?K = "consumed_keys enc ?calls"
  have pc': "list_all populate_or_consume ?calls"
    using pc by (simp add: populate_or_consume_def)
  have rows': "calls_rows ?calls = calls_rows calls + length batch"
    by (simp add: calls_rows_def)
  have bytes': "calls_bytes enc ?calls = calls_bytes enc calls + batch_bytes enc batch"
    by (simp add: calls_bytes_def)
  have r': "calls_rows ?calls < 2 ^ 32" using rows rows' by simp
  have b': "length ([] :: bytes list) + calls_rows ?calls < 2 ^ 32" using r' by simp
  have by': "calls_bytes enc ?calls < 2 ^ 31" using bytes bytes' by simp
  from Grouper_run_calls_agree[OF inje inji mx r' by']
  obtain g' where run: "Grouper_run_calls enc img hash mx
                 (Grouper_Make little_endian is_large_binary_like key_types) ?calls
               = Some (g', snd ?R)"
    and ng: "Grouper_num_groups g' = GrouperImpl_num_groups (fst ?R)"
    by blast
  have inv: "grouper_inv (fst ?R) ?ksf"
    by (rule run_calls_inv[OF grouper_inv_Make b' by'])
  have n: "Grouper_num_groups g' = of_nat (length ?ksf)"
    using inv by (simp add: ng grouper_inv_def GrouperImpl_num_groups_def)
  have d: "distinct ?ksf" and l: "length ?ksf < 2 ^ 32"
    using inv by (simp_all add: grouper_inv_def)
  have ids: "returned_ids (snd ?R) = group_ids_of ?ksf ?K"
    by (rule run_calls_ids[OF grouper_inv_Make b' pc' by'])
  have sub: "set ?K \<subseteq> set ?ksf"
    by (rule consumed_subset_keys_after[OF pc'])
  have lo: "length (snd ?R) = Suc (length calls)"
    using length_run_calls[of enc GrouperImpl_Make ?calls] by simp
  have res: "snd ?R = snd (run_calls enc GrouperImpl_Make calls) @
          [Inr (ArrayDatum (UInt32Array (int (length ?rows))
                  (group_ids_of (insert_keys (keys_after enc [] calls) (map enc ?rows))
                     (map enc ?rows)) None))]"
    by (rule fallback_consume_result[OF rows bytes off])
  have last: "\<exists>ids. last (snd ?R) = Inr (ArrayDatum (UInt32Array (int (length ?rows)) ids None)) \<and>
                length ids = length ?rows"
    unfolding res by (simp add: group_ids_of_def)
  have len: "0 \<le> len \<and> offset + len \<le> int (length batch) \<longrightarrow> length ?rows = nat len"
    using off by (simp add: capped_rows_exact)
  have less: "list_all (\<lambda>g. g < Grouper_num_groups g') (returned_ids (snd ?R))"
    unfolding list_all_iff n ids using group_ids_less[OF l sub] by blast
  have dense: "set (returned_ids (snd ?R)) = {g. g < Grouper_num_groups g'} \<and>
        Grouper_num_groups g' =
          (if returned_ids (snd ?R) = [] then 0 else 1 + Max (set (returned_ids (snd ?R)))) \<and>
        (\<forall>i < length (returned_ids (snd ?R)).
           returned_ids (snd ?R) ! i \<in> set (take i (returned_ids (snd ?R))) \<or>
           returned_ids (snd ?R) ! i = of_nat (card (set (take i (returned_ids (snd ?R))))))"
    if co: "list_all is_consume calls"
  proof -
    have co': "list_all is_consume ?calls" using co by simp
    then have eq: "set ?ksf = set ?K"
      using set_keys_after_consume[of ?calls enc "[]"] by simp
    have a: "set (returned_ids (snd ?R)) = {g. g < Grouper_num_groups g'}"
      unfolding ids n by (rule group_ids_set[OF d l eq[symmetric]])
    have b: "Grouper_num_groups g' =
          (if returned_ids (snd ?R) = [] then 0 else 1 + Max (set (returned_ids (snd ?R))))"
    proof (cases "?K = []")
      case True
      then have "?ksf = []" using eq by simp
      then show ?thesis using True by (simp add: n ids group_ids_of_def)
    next
      case False
      then have "returned_ids (snd ?R) \<noteq> []"
        by (simp add: ids group_ids_of_Nil_iff)
      then show ?thesis
        unfolding n using group_ids_max[OF d l eq[symmetric] False] by (simp add: ids)
    qed
    have ksf: "?ksf = insert_keys [] ?K" by (rule keys_after_consume[OF co'])
    have lK: "length ?K < 2 ^ 32"
      using length_consumed_keys[of enc ?calls] r' by simp
    have c: "\<forall>i < length (returned_ids (snd ?R)).
           returned_ids (snd ?R) ! i \<in> set (take i (returned_ids (snd ?R))) \<or>
           returned_ids (snd ?R) ! i = of_nat (card (set (take i (returned_ids (snd ?R)))))"
    proof (intro allI impI)
      fix i assume "i < length (returned_ids (snd ?R))"
      hence i: "i < length ?K" by (simp add: ids group_ids_of_def)
      show "returned_ids (snd ?R) ! i \<in> set (take i (returned_ids (snd ?R))) \<or>
           returned_ids (snd ?R) ! i = of_nat (card (set (take i (returned_ids (snd ?R)))))"
        unfolding ids ksf by (rule group_ids_contiguous[OF lK i])
    qed
    show ?thesis using a b c by blast
  qed
  show ?thesis
    using run lo last capped_rows_eq[of batch offset len] len less dense by blast
qed

theorem returned_ids_dense_witness:
  "\<exists>g' out.
     Grouper_run_calls encode_uint8_key (\<lambda>r. r) (\<lambda>r. 0) 128
         (Grouper_Make True (\<lambda>t. False) [()])
         ([CallConsume [Some 3, Some 1] 0 (- 1)] @ [CallConsume [Some 3, None, Some 1] 0 2])
       = Some (g', out) \<and>
     length out = Suc (length [CallConsume [Some (3 :: byte), Some 1] 0 (- 1)]) \<and>
     (\<exists>ids. last out =
               Inr (ArrayDatum (UInt32Array
                      (int (length (capped_rows [Some 3, None, Some (1 :: byte)] 0 2))) ids None)) \<and>
            length ids = length (capped_rows [Some 3, None, Some (1 :: byte)] 0 2)) \<and>
     capped_rows [Some 3, None, Some (1 :: byte)] 0 2 =
       (if (2 :: int) < 0 then drop (nat 0) [Some 3, None, Some 1]
        else take (nat 2) (drop (nat 0) [Some 3, None, Some 1])) \<and>
     length (capped_rows [Some 3, None, Some (1 :: byte)] 0 2) = nat 2 \<and>
     list_all (\<lambda>g. g < Grouper_num_groups g') (returned_ids out) \<and>
     set (returned_ids out) = {g. g < Grouper_num_groups g'} \<and>
     Grouper_num_groups g' =
       (if returned_ids out = [] then 0 else 1 + Max (set (returned_ids out))) \<and>
     (\<forall>i < length (returned_ids out).
        returned_ids out ! i \<in> set (take i (returned_ids out)) \<or>
        returned_ids out ! i = of_nat (card (set (take i (returned_ids out)))))"
proof -
  have inji: "inj (\<lambda>r :: byte option. r)" by (rule injI) simp
  have mx: "minibatch_size_min \<le> 128" by (simp add: minibatch_size_min_def)
  have pc: "list_all populate_or_consume [CallConsume [Some (3 :: byte), Some 1] 0 (- 1)]"
    by (simp add: populate_or_consume_def)
  have rows: "calls_rows [CallConsume [Some (3 :: byte), Some 1] 0 (- 1)]
                 + length [Some 3, None, Some (1 :: byte)] < 2 ^ 32"
    by (simp add: calls_rows_def)
  have bytes: "calls_bytes encode_uint8_key [CallConsume [Some (3 :: byte), Some 1] 0 (- 1)]
                 + batch_bytes encode_uint8_key [Some 3, None, Some (1 :: byte)] < 2 ^ 31"
    by (simp add: calls_bytes_def batch_bytes_uint8_key)
  have off: "(0 :: int) \<le> 0" by simp
  have rng: "(0 :: int) \<le> 2 \<and> 0 + 2 \<le> int (length [Some 3, None, Some (1 :: byte)])"
    by simp
  have co: "list_all is_consume [CallConsume [Some (3 :: byte), Some 1] 0 (- 1)]"
    by simp
  from returned_ids_dense[OF inj_encode_uint8_key inji mx pc rows bytes off,
         of "\<lambda>r. 0" True "\<lambda>t. False" "[()]" 2]
  show ?thesis using rng co by blast
qed





text \<open>
  C7 does not hold for the fallback grouper after a reset. \<^verbatim>\<open>offsets_\<close> is initialised
  to \<open>{0}\<close> and \<^verbatim>\<open>GetUniques\<close> reads \<open>offsets_[i]\<close> as the start of key \<open>i\<close>, but
  \<^verbatim>\<open>Reset\<close> leaves it empty, so that afterwards \<open>offsets_[i]\<close> is the end of key \<open>i\<close>.
  Below, the keys 1 and 2 are consumed after a reset and get the ids 0 and 1; row 0 of the
  uniques is then read from the bytes of key 2 and row 1 from behind the last key byte.
  Without the reset the uniques are the keys 1 and 2.
\<close>

theorem uniques_after_reset_shifted:
  "snd (run_calls encode_uint8_key GrouperImpl_Make
          [CallReset, CallConsume [Some 1, Some 2] 0 (- 1)]) =
     [Inr NoDatum, Inr (ArrayDatum (UInt32Array 2 [0, 1] None))] \<and>
   GrouperImpl_num_groups (fst (run_calls encode_uint8_key GrouperImpl_Make
          [CallReset, CallConsume [Some 1, Some 2] 0 (- 1)])) = 2 \<and>
   GetUniques decode_uint8_key (fst (run_calls encode_uint8_key GrouperImpl_Make
          [CallReset, CallConsume [Some 1, Some 2] 0 (- 1)])) = [Some (Some 2), None] \<and>
   GetUniques decode_uint8_key (fst (run_calls encode_uint8_key GrouperImpl_Make
          [CallConsume [Some 1, Some 2] 0 (- 1)])) = [Some (Some 1), Some (Some 2)]"
  by code_simp

section \<open>Claims about \<^verbatim>\<open>MakeGroupings\<close>\<close>

text \<open>
  C5. For a uint32 id array without nulls whose ids are all below \<open>num_groups\<close>,
  \<^verbatim>\<open>MakeGroupings\<close> returns \<open>num_groups + 1\<close> offsets that are the prefix sums of the
  per-group counts (the first is 0, the last is the number of ids), and a permutation of
  the positions \<open>0 .. n - 1\<close> whose slice between the offsets of group \<open>g\<close> and of group
  \<open>g + 1\<close> lists, in ascending order, the positions whose id is \<open>g\<close>. The array holds as
  many values as its length says; the counters of the source are \<^verbatim>\<open>int32\<close> and
  \<open>num_groups + 1\<close> is computed in \<^verbatim>\<open>uint32\<close>, so the array has fewer than \<open>2^31\<close>
  ids and \<open>num_groups\<close> is below \<open>2^32 - 1\<close>.
\<close>

theorem make_groupings_partitions_by_group:
  assumes nonull: "null_count ids = 0"
    and wf: "array_length ids = int (length (array_values ids))"
    and lt: "\<forall>i < length (array_values ids). Value ids i < num_groups"
    and n31: "length (array_values ids) < 2 ^ 31"
    and nowrap: "unat num_groups < 2 ^ 32 - 1"
  shows "\<exists>offsets permutation.
           MakeGroupings ids num_groups =
             Returned (Inr \<lparr>list_length = int (unat num_groups), value_offsets = offsets,
                            list_values = permutation\<rparr>) \<and>
           length offsets = unat num_groups + 1 \<and>
           offsets ! 0 = 0 \<and>
           offsets ! unat num_groups = array_length ids \<and>
           (\<forall>g < unat num_groups.
              offsets ! Suc g = offsets ! g + int (count_list (map unat (array_values ids)) g)) \<and>
           mset permutation = mset (map int [0..<length (array_values ids)]) \<and>
           (\<forall>g < unat num_groups.
              take (nat (offsets ! Suc g - offsets ! g)) (drop (nat (offsets ! g)) permutation) =
                map int (filter (\<lambda>i. unat (array_values ids ! i) = g)
                           [0..<length (array_values ids)]))"
proof -
  define xs where "xs = map unat (array_values ids)"
  let ?m = "unat num_groups"
  let ?n = "length xs"
  define offsets where "offsets = map (\<lambda>g. int (ids_below xs g)) [0..<Suc ?m]"
  define perm where "perm = place_indices ids offsets"
  note mg = MakeGroupings_result[OF nonull wf lt nowrap xs_def]
  have below: "\<forall>x\<in>set xs. x < ?m" by (rule mg(2))
  have res: "MakeGroupings ids num_groups =
             Returned (Inr \<lparr>list_length = int ?m, value_offsets = offsets, list_values = perm\<rparr>)"
    unfolding perm_def offsets_def by (rule mg(1))
  have lperm: "length perm = ?n"
    and place: "\<forall>g<?m. \<forall>j<count_list xs g.
                  perm ! (ids_below xs g + j) = int (positions_of xs ?n g ! j)"
    unfolding perm_def offsets_def
    using place_indices_result[OF wf xs_def below] by blast+
  have og: "offsets ! g = int (ids_below xs g)" if "g \<le> ?m" for g
    using that unfolding offsets_def by (simp add: nth_append less_Suc_eq_le del: upt_Suc)
  have lo: "length offsets = ?m + 1" by (simp add: offsets_def)
  have o0: "offsets ! 0 = 0" using og[of 0] by simp
  have om: "offsets ! ?m = array_length ids"
    using og[of ?m] ids_below_all[OF below] wf by (simp add: xs_def)
  have oS: "\<forall>g < ?m. offsets ! Suc g = offsets ! g + int (count_list xs g)"
    using og by (simp add: ids_below_Suc)
  have lpos: "length (positions_of xs ?n g) = count_list xs g" for g
    using length_positions_of[of ?n xs g] by simp
  have fit: "ids_below xs g + count_list xs g \<le> ?n" if "g < ?m" for g
  proof -
    have "ids_below xs (Suc g) \<le> ids_below xs ?m" using that by (intro ids_below_mono) simp
    then show ?thesis using ids_below_all[OF below] by (simp add: ids_below_Suc)
  qed
  have seg: "take (nat (offsets ! Suc g - offsets ! g)) (drop (nat (offsets ! g)) perm)
               = map int (positions_of xs ?n g)" if g: "g < ?m" for g
  proof -
    have a: "nat (offsets ! Suc g - offsets ! g) = count_list xs g"
      using oS g by simp
    have b: "nat (offsets ! g) = ids_below xs g" using og[of g] g by simp
    show ?thesis
      unfolding a b
    proof (rule nth_equalityI)
      show "length (take (count_list xs g) (drop (ids_below xs g) perm))
              = length (map int (positions_of xs ?n g))"
        using fit[OF g] lperm lpos by simp
    next
      fix j assume "j < length (take (count_list xs g) (drop (ids_below xs g) perm))"
      then have j: "j < count_list xs g" by simp
      then show "take (count_list xs g) (drop (ids_below xs g) perm) ! j
                   = map int (positions_of xs ?n g) ! j"
        using place g fit[OF g] lperm lpos by simp
    qed
  qed
  have pos_eq: "positions_of xs ?n g
                  = filter (\<lambda>i. unat (array_values ids ! i) = g) [0..<length (array_values ids)]" for g
    unfolding positions_of_def xs_def by (rule filter_cong) simp_all
  have cover: "\<forall>i<?n. int i \<in> set perm"
  proof (intro allI impI)
    fix i assume i: "i < ?n"
    let ?g = "xs ! i"
    have g: "?g < ?m" using below i by simp
    have "i \<in> set (positions_of xs ?n ?g)" using i by (simp add: positions_of_def)
    then obtain j where j: "j < count_list xs ?g" and ij: "positions_of xs ?n ?g ! j = i"
      using lpos by (auto simp: in_set_conv_nth)
    have "perm ! (ids_below xs ?g + j) = int i" using place g j ij by simp
    moreover have "ids_below xs ?g + j < length perm" using fit[OF g] j lperm by simp
    ultimately show "int i \<in> set perm" by (metis nth_mem)
  qed
  have ms: "mset perm = mset (map int [0..<length (array_values ids)])"
    using perm_of_covering[OF lperm cover] by (simp add: xs_def)
  have oS': "\<forall>g < ?m. offsets ! Suc g = offsets ! g + int (count_list (map unat (array_values ids)) g)"
    using oS by (simp add: xs_def)
  have seg': "\<forall>g < ?m. take (nat (offsets ! Suc g - offsets ! g)) (drop (nat (offsets ! g)) perm) =
                map int (filter (\<lambda>i. unat (array_values ids ! i) = g) [0..<length (array_values ids)])"
    using seg pos_eq by simp
  show ?thesis
    using res lo o0 om oS' ms seg' by blast
qed

theorem make_groupings_partitions_by_group_witness:
  "\<exists>offsets permutation.
     MakeGroupings (UInt32Array 6 [0, 2, 0, 1, 2, 0] None) 3 =
       Returned (Inr \<lparr>list_length = int (unat (3 :: group_id_t)), value_offsets = offsets,
                      list_values = permutation\<rparr>) \<and>
     length offsets = unat (3 :: group_id_t) + 1 \<and>
     offsets ! 0 = 0 \<and>
     offsets ! unat (3 :: group_id_t) = array_length (UInt32Array 6 [0, 2, 0, 1, 2, 0] None) \<and>
     (\<forall>g < unat (3 :: group_id_t).
        offsets ! Suc g = offsets ! g
          + int (count_list (map unat (array_values (UInt32Array 6 [0, 2, 0, 1, 2, 0] None))) g)) \<and>
     mset permutation
       = mset (map int [0..<length (array_values (UInt32Array 6 [0, 2, 0, 1, 2, 0] None))]) \<and>
     (\<forall>g < unat (3 :: group_id_t).
        take (nat (offsets ! Suc g - offsets ! g)) (drop (nat (offsets ! g)) permutation) =
          map int (filter (\<lambda>i. unat (array_values (UInt32Array 6 [0, 2, 0, 1, 2, 0] None) ! i) = g)
                     [0..<length (array_values (UInt32Array 6 [0, 2, 0, 1, 2, 0] None))]))"
proof -
  have lt: "\<forall>i < length (array_values (UInt32Array 6 [0, 2, 0, 1, 2, 0] None)).
              Value (UInt32Array 6 [0, 2, 0, 1, 2, 0] None) i < 3"
    by (simp add: Value_def nth_Cons less_Suc_eq split: nat.split)
  show ?thesis
    by (rule make_groupings_partitions_by_group[OF _ _ lt]) simp_all
qed

text \<open>
  C6, as stated, fails for an id that is not below \<open>num_groups\<close>: the only guard is the
  debug assertion \<^verbatim>\<open>DCHECK_LT(ids.Value(i), num_groups)\<close>, and no \<^verbatim>\<open>Status\<close> is
  returned.
\<close>

theorem make_groupings_id_out_of_range_counterexample:
  "MakeGroupings (UInt32Array 1 [5] None) 3 = DCheckFailed \<and>
   MakeGroupings (UInt32Array 1 [5] None) 3 \<noteq> Returned (Inl Invalid)"
  by code_simp

text \<open>
  C6, amended. \<^verbatim>\<open>MakeGroupings\<close> returns the error \<^verbatim>\<open>Invalid\<close> exactly when the
  id array contains nulls. In an array without nulls, an id that is not below
  \<open>num_groups\<close> trips the debug assertion instead of being reported as an error.
\<close>

theorem make_groupings_invalid_iff_nulls:
  "(MakeGroupings ids num_groups = Returned (Inl Invalid) \<longleftrightarrow> null_count ids \<noteq> 0) \<and>
   (null_count ids = 0 \<longrightarrow> (\<exists>i < nat (array_length ids). num_groups \<le> Value ids i) \<longrightarrow>
      MakeGroupings ids num_groups = DCheckFailed)"
proof -
  have "MakeGroupings ids num_groups = Returned (Inl Invalid) \<longleftrightarrow> null_count ids \<noteq> 0"
    by (auto simp: MakeGroupings_def Let_def split: option.splits prod.splits)
  moreover have "MakeGroupings ids num_groups = DCheckFailed"
    if "null_count ids = 0" and "\<exists>i < nat (array_length ids). num_groups \<le> Value ids i"
    using that by (auto simp: MakeGroupings_def count_ids_out_of_range)
  ultimately show ?thesis by blast
qed

theorem make_groupings_invalid_iff_nulls_witness:
  "MakeGroupings (UInt32Array 2 [1, 0] (Some [True, False])) 3 = Returned (Inl Invalid) \<and>
   MakeGroupings (UInt32Array 1 [5] None) 3 = DCheckFailed"
proof -
  have a: "null_count (UInt32Array 2 [1, 0] (Some [True, False])) \<noteq> 0" by simp
  have b: "null_count (UInt32Array 1 [5] None) = 0" by simp
  have c: "\<exists>i < nat (array_length (UInt32Array 1 [5] None)). 3 \<le> Value (UInt32Array 1 [5] None) i"
    by (rule exI[of _ 0]) (simp add: Value_def)
  show ?thesis
    using make_groupings_invalid_iff_nulls[of "UInt32Array 2 [1, 0] (Some [True, False])" 3]
      make_groupings_invalid_iff_nulls[of "UInt32Array 1 [5] None" 3] a b c
    by blast
qed

section \<open>Claims about the segmenters\<close>

lemma AnyKeys_segments_spec:
  assumes inje: "inj enc" and inji: "inj img" and mx: "minibatch_size_min \<le> mx"
    and ok: "list_all (\<lambda>b. value_types b = key_types \<and> length (rows b) < 2 ^ 32 - 1 \<and>
                            batch_bytes enc (rows b) < 2 ^ 30)
               (batches @ [batch])"
  shows "\<exists>seg out seg' segs.
     AnyKeysSegmenter_run enc img hash mx key_types
         (AnyKeysSegmenter_Make little_endian is_large_binary_like key_types) batches
       = Some (Returned (Inr (seg, out))) \<and>
     AnyKeysSegmenter_GetSegments enc img hash mx key_types seg batch
       = Some (Returned (Inr (seg', segs))) \<and>
     segments_spec (concat (map rows batches)) (rows batch) segs"
proof -
  have ok': "list_all (\<lambda>b. value_types b = key_types \<and> length (rows b) < 2 ^ 32 - 1 \<and>
                            batch_bytes enc (rows b) < 2 ^ 31) (batches @ [batch])"
    by (rule list.pred_mono_strong[OF ok]) simp
  have oks: "list_all (\<lambda>b. value_types b = key_types \<and> length (rows b) < 2 ^ 32 - 1 \<and>
                            batch_bytes enc (rows b) < 2 ^ 31) batches"
    and ty: "value_types batch = key_types" and len: "length (rows batch) < 2 ^ 32 - 1"
    and bytes: "batch_bytes enc (rows batch) < 2 ^ 31"
    using ok' by simp_all
  from AnyKeysSegmenter_run_inv[OF inje inji segmenter_inv_Make[OF mx] oks]
  obtain seg out where run: "AnyKeysSegmenter_run enc img hash mx key_types
                               (AnyKeysSegmenter_Make little_endian is_large_binary_like key_types)
                               batches
                               = Some (Returned (Inr (seg, out)))"
    and inv: "segmenter_inv enc img hash mx seg ([] @ concat (map rows batches))" by blast
  from GetSegments_step[OF inje inji inv ty len bytes]
  obtain seg' segs where get: "AnyKeysSegmenter_GetSegments enc img hash mx key_types seg batch
                                 = Some (Returned (Inr (seg', segs)))"
    and props: "if rows batch = [] then segs = []
            else segs \<noteq> [] \<and>
                 segs_ok (rows batch) (span_length batch)
                   ([] @ concat (map rows batches) = [] \<or>
                    last ([] @ concat (map rows batches)) = rows batch ! 0)
                   (length (rows batch)) segs" by blast
  have "segments_spec (concat (map rows batches)) (rows batch) segs"
  proof (cases "rows batch = []")
    case True
    then show ?thesis using props by (simp add: segments_spec_def)
  next
    case False
    then have ne: "segs \<noteq> []"
      and sok: "segs_ok (rows batch) (int (length (rows batch)))
                   (concat (map rows batches) = [] \<or>
                    last (concat (map rows batches)) = rows batch ! 0)
                   (length (rows batch)) segs"
      using props by (simp_all add: span_length_def)
    show ?thesis by (rule segs_ok_spec[OF False ne sok])
  qed
  thus ?thesis using run get by blast
qed

lemma SimpleKey_segments_spec:
  assumes w: "0 < w"
    and ok: "list_all (\<lambda>b. value_types b = [key_type] \<and> key_batch_ok w b) (batches @ [batch])"
  shows "\<exists>seg out seg' segs.
     SimpleKeySegmenter_run dchecks key_type w (SimpleKeySegmenter_Make w) batches
       = Returned (Inr (seg, out)) \<and>
     SimpleKeySegmenter_GetSegments dchecks key_type w seg batch = Returned (Inr (seg', segs)) \<and>
     segments_spec (concat (map rows batches)) (rows batch) segs"
proof -
  have oks: "list_all (\<lambda>b. value_types b = [key_type] \<and> key_batch_ok w b) batches"
    and ty: "value_types batch = [key_type]" and okb: "key_batch_ok w batch"
    using ok by simp_all
  from SimpleKeySegmenter_run_inv[OF w simple_inv_Make oks]
  obtain seg out where run: "SimpleKeySegmenter_run dchecks key_type w (SimpleKeySegmenter_Make w) batches
                               = Returned (Inr (seg, out))"
    and inv: "simple_inv w seg ([] @ concat (map rows batches))" by blast
  from SimpleKey_step[OF inv ty okb w]
  obtain seg' segs where get: "SimpleKeySegmenter_GetSegments dchecks key_type w seg batch
                                 = Returned (Inr (seg', segs))"
    and spec: "segments_spec ([] @ concat (map rows batches)) (rows batch) segs" by blast
  show ?thesis using run get spec by auto
qed

lemma NoKeys_segments_spec:
  assumes "value_types batch = []"
  shows "\<exists>segs. NoKeysSegmenter_GetSegments batch = Inr segs \<and>
           segments_spec (map (\<lambda>r. ()) prev) (map (\<lambda>r. ()) (rows batch)) segs"
  using assms
  by (simp add: NoKeysSegmenter_GetSegments_def CheckForGetSegments_def span_length_def
        MakeSegment_def kDefaultExtends_def segments_spec_def)

text \<open>
  The \<^verbatim>\<open>SimpleKeySegmenter\<close> on an example: a key type of one byte, an array with the
  values 1, 1, 2 and then a scalar 2 for a batch of two rows.
\<close>

lemma SimpleKeySegmenter_run_example:
  "SimpleKeySegmenter_run True () 1 (SimpleKeySegmenter_Make 1)
     [\<lparr>value_types = [()], rows = [[1], [1], [2]], first_value = ArrayValue 0 [1, 1, 2] 3\<rparr>,
      \<lparr>value_types = [()], rows = [[2], [2]], first_value = ScalarValue True [2]\<rparr>]
   = Returned (Inr (\<lparr>save_key_data_m = [2], extend_was_called_m = True\<rparr>,
                    [[Segment 0 2 False True, Segment 2 1 True False],
                     [Segment 0 2 True True]]))"
  by code_simp

text \<open>
  The \<^verbatim>\<open>AnyKeysSegmenter\<close> on an example, with the grouper that \<^verbatim>\<open>Grouper::Make\<close>
  gives on a little-endian host: the rows 1, 1, 2 and then the rows 2, 2, 3.
\<close>

lemma AnyKeysSegmenter_run_example:
  "(case AnyKeysSegmenter_run encode_uint8_key id (case_option 0 ucast) 1024 [()]
           (AnyKeysSegmenter_Make True (\<lambda>t. False) [()])
           [\<lparr>value_types = [()], rows = [Some (1 :: byte), Some 1, Some 2]\<rparr>,
            \<lparr>value_types = [()], rows = [Some (2 :: byte), Some 2, Some 3]\<rparr>] of
      Some (Returned (Inr (seg, out))) \<Rightarrow> Some out
    | _ \<Rightarrow> None)
   = Some [[Segment 0 2 False True, Segment 2 1 True False],
           [Segment 0 2 False True, Segment 2 1 True False]]"
  by code_simp

text \<open>
  One segment for the rows true, false is not what the segments of a batch are to be, and
  neither is a segment with \<open>extends\<close> set for the row true after the row false.
\<close>

lemma boolean_key_segments_not_spec:
  "\<not> segments_spec [] [[1 :: byte], [0]] [Segment 0 2 True True] \<and>
   \<not> segments_spec [[1 :: byte], [0]] [[1]] [Segment 0 1 True True]"
proof -
  have "\<exists>i<2 :: nat. [[1 :: byte], [0]] ! i \<noteq> [1]"
    by (rule exI[of _ 1]) simp
  hence first: "\<not> segments_spec [] [[1 :: byte], [0]] [Segment 0 2 True True]"
    by (simp add: segments_spec_def)
  have second: "\<not> segments_spec [[1 :: byte], [0]] [[1]] [Segment 0 1 True True]"
    by (simp add: segments_spec_def)
  show ?thesis using first second by blast
qed

text \<open>
  C4, as stated, fails in the code for a key of byte width 0. For one key that is not
  nullable and of a fixed-width type, \<^verbatim>\<open>RowSegmenter::Make\<close> returns a
  \<^verbatim>\<open>SimpleKeySegmenter\<close>; the boolean type is a fixed-width type of 1 bit, and its
  \<^verbatim>\<open>byte_width()\<close> is 0. Here a key type is given by its bit width. The first batch is a
  boolean array with the rows true, false (one byte of bits, 1), the second one a boolean
  array with the row true. With the \<^verbatim>\<open>DCHECK\<close>s compiled in, \<^verbatim>\<open>GetValuesAsBytes\<close> fails
  its own check \<^verbatim>\<open>DCHECK_GT(byte_width, 0)\<close> on the first batch. Without them, the
  comparisons are of 0 bytes and always succeed: the first batch yields one segment for
  its two different rows, and the segment of the second batch extends the previous one,
  though the last row before it is false and its first row is true. Neither is what C4
  requires.
\<close>

theorem simple_key_segmenter_boolean_key:
  "RowSegmenter_Make True (\<lambda>t. False) (\<lambda>t. True) (\<lambda>bits. bits div 8) [1 :: nat] False
     = (SimpleKey (SimpleKeySegmenter_Make 0) :: unit RowSegmenter) \<and>
   SimpleKeySegmenter_run True (1 :: nat) 0 (SimpleKeySegmenter_Make 0)
     [\<lparr>value_types = [1], rows = [[1], [0]], first_value = ArrayValue 0 [1] 2\<rparr>,
      \<lparr>value_types = [1], rows = [[1]], first_value = ArrayValue 0 [1] 1\<rparr>]
     = DCheckFailed \<and>
   SimpleKeySegmenter_run False (1 :: nat) 0 (SimpleKeySegmenter_Make 0)
     [\<lparr>value_types = [1], rows = [[1], [0]], first_value = ArrayValue 0 [1] 2\<rparr>,
      \<lparr>value_types = [1], rows = [[1]], first_value = ArrayValue 0 [1] 1\<rparr>]
     = Returned (Inr (\<lparr>save_key_data_m = [], extend_was_called_m = True\<rparr>,
                      [[Segment 0 2 True True], [Segment 0 1 True True]]))"
proof -
  have make: "RowSegmenter_Make True (\<lambda>t. False) (\<lambda>t. True) (\<lambda>bits. bits div 8) [1 :: nat] False
     = (SimpleKey (SimpleKeySegmenter_Make 0) :: unit RowSegmenter)"
    by (simp add: RowSegmenter_Make_def)
  have debug: "SimpleKeySegmenter_run True (1 :: nat) 0 (SimpleKeySegmenter_Make 0)
     [\<lparr>value_types = [1], rows = [[1], [0]], first_value = ArrayValue 0 [1] 2\<rparr>,
      \<lparr>value_types = [1], rows = [[1]], first_value = ArrayValue 0 [1] 1\<rparr>]
     = DCheckFailed"
    by code_simp
  have release: "SimpleKeySegmenter_run False (1 :: nat) 0 (SimpleKeySegmenter_Make 0)
     [\<lparr>value_types = [1], rows = [[1], [0]], first_value = ArrayValue 0 [1] 2\<rparr>,
      \<lparr>value_types = [1], rows = [[1]], first_value = ArrayValue 0 [1] 1\<rparr>]
     = Returned (Inr (\<lparr>save_key_data_m = [], extend_was_called_m = True\<rparr>,
                      [[Segment 0 2 True True], [Segment 0 1 True True]]))"
    by code_simp
  show ?thesis using make debug release by blast
qed

text \<open>
  C9, as stated, fails for an empty batch: the no-keys segmenter returns no segment for
  it.
\<close>

theorem no_keys_empty_batch_counterexample:
  "NoKeysSegmenter_GetSegments \<lparr>value_types = ([] :: unit list), rows = ([] :: unit list)\<rparr> = Inr []"
  by (simp add: NoKeysSegmenter_GetSegments_def CheckForGetSegments_def span_length_def)

text \<open>
  C9, amended. For the no-keys segmenter a non-empty batch (without values, as the
  segmenter has no key types) yields exactly one segment, which starts at row 0, has the
  length of the batch and has \<open>extends\<close> set; \<open>is_open_end\<close> is set too. An empty batch
  yields no segment, and a batch with values is rejected as \<^verbatim>\<open>Invalid\<close>.
\<close>

theorem no_keys_single_segment:
  "NoKeysSegmenter_GetSegments batch =
     (if value_types batch \<noteq> [] then Inl Invalid
      else if rows batch = [] then Inr []
      else Inr [Segment 0 (span_length batch) True True])"
  by (simp add: NoKeysSegmenter_GetSegments_def CheckForGetSegments_def span_length_def
        MakeSegment_def kDefaultExtends_def)

theorem no_keys_single_segment_witness:
  "NoKeysSegmenter_GetSegments \<lparr>value_types = ([] :: unit list), rows = [(), (), ()]\<rparr> =
     Inr [Segment 0 3 True True]"
  using no_keys_single_segment[of "\<lparr>value_types = ([] :: unit list), rows = [(), (), ()]\<rparr>"]
  by (simp add: span_length_def)

section \<open>Claims about the two implementations\<close>

lemma fast_sim_Make:
  assumes "0 < m0" and "m0 \<le> mx"
  shows "fast_sim img hash enc mx (GrouperFastImpl_Make\<lparr>fast_minibatch_size_m := m0\<rparr>)
           GrouperImpl_Make []"
  using assms grouper_inv_Make
  by (simp add: fast_sim_def fast_inv_def GrouperFastImpl_Make_def)

text \<open>
  The fast grouper on an example, with a hash under which all rows collide, mini-batches
  of 1 and then 2 rows, and the key schema of one nullable byte column.
\<close>

lemma Fast_run_calls_example:
  "map_option snd
     (Fast_run_calls (\<lambda>r. r) (\<lambda>r. 0) 2 (GrouperFastImpl_Make\<lparr>fast_minibatch_size_m := 1\<rparr>)
        [CallPopulate [Some (7 :: byte)] 0 (- 1),
         CallConsume [Some 1, Some 2, Some 1, None, Some 7] 0 (- 1),
         CallLookup [Some 2, Some 9] 0 (- 1)])
   = Some [Inr NoDatum, Inr (ArrayDatum (UInt32Array 5 [1, 2, 1, 3, 0] None)),
           Inr (ArrayDatum (UInt32Array 2 [2, 0] (Some [True, False])))]"
  by code_simp

lemma Fast_GetUniques_example:
  "map_option (Fast_GetUniques (\<lambda>r. r) 2 \<circ> fst)
     (Fast_run_calls (\<lambda>r. r) (\<lambda>r. 0) 2 (GrouperFastImpl_Make\<lparr>fast_minibatch_size_m := 1\<rparr>)
        [CallPopulate [Some (7 :: byte)] 0 (- 1),
         CallConsume [Some 1, Some 2, Some 1, None, Some 7] 0 (- 1),
         CallLookup [Some 2, Some 9] 0 (- 1)])
   = Some (Some [Some 7, Some 1, Some 2, None])"
  by code_simp

text \<open>
  C8. A fast grouper and a fallback grouper, both fresh, are fed the same sequence of
  populate, consume, lookup and reset calls, fewer than \<open>2^32\<close> rows in all, which
  encode to fewer than \<open>2^31\<close> key bytes (the key byte offsets of the fallback grouper
  are signed 32-bit). The key
  schema is one that both can handle: the fallback encoding \<open>enc\<close> of a row can be read
  back by \<open>dec\<close> from the start of a buffer, and the row image \<open>img\<close> of the fast grouper
  can be decoded by \<open>unimg\<close>. Then every call on the fast grouper returns, and it returns
  what the same call returns on the fallback grouper: the same status or the same array
  of group ids, with the same validity bitmap for a lookup. Both groupers end with the
  same number of groups and, when no call is a reset and fewer than \<open>2^31\<close> rows are fed
  (the fallback grouper counts the rows to decode in a signed 32-bit integer), with the
  same uniques. This holds
  for every row hash \<open>hash\<close>, every maximal mini-batch size \<open>mx\<close> and every mini-batch
  size \<open>m0\<close> that the fast grouper starts with (\<open>0 < m0 \<le> mx\<close>; the code starts with
  128 and has the maximum \<^verbatim>\<open>MiniBatch::kMiniBatchLength\<close>), so that the output of the
  fast grouper does not depend on the size of its mini-batches.
\<close>

theorem fast_grouper_agrees_with_fallback:
  assumes dec: "\<And>r rest. dec (enc r @ rest) = Some r"
    and unimg: "\<And>r. unimg (img r) = r"
    and m0: "0 < m0" and mx: "m0 \<le> mx"
    and rows: "calls_rows calls < 2 ^ 32"
    and bytes: "calls_bytes enc calls < 2 ^ 31"
  shows "\<exists>sf. Fast_run_calls img hash mx (GrouperFastImpl_Make\<lparr>fast_minibatch_size_m := m0\<rparr>) calls
                = Some (sf, snd (run_calls enc GrouperImpl_Make calls)) \<and>
              GrouperFastImpl_num_groups sf
                = GrouperImpl_num_groups (fst (run_calls enc GrouperImpl_Make calls)) \<and>
              (CallReset \<notin> set calls \<and> calls_rows calls < 2 ^ 31 \<longrightarrow>
                 map_option (map Some) (Fast_GetUniques unimg mx sf)
                   = Some (GetUniques dec (fst (run_calls enc GrouperImpl_Make calls))))"
proof -
  let ?s = "fst (run_calls enc GrouperImpl_Make calls)"
  have inje: "inj enc"
  proof (rule injI)
    fix x y assume "enc x = enc y"
    hence "dec (enc x @ []) = dec (enc y @ [])" by simp
    thus "x = y" unfolding dec by simp
  qed
  have inji: "inj img"
  proof (rule injI)
    fix x y assume "img x = img y"
    hence "unimg (img x) = unimg (img y)" by simp
    thus "x = y" unfolding unimg .
  qed
  have b: "length ([] :: 'a list) + calls_rows calls < 2 ^ 32" using rows by simp
  note start = fast_sim_Make[where img = img and hash = hash and enc = enc, OF m0 mx]
  from Fast_run_calls_sim[OF inji inje start b bytes]
  obtain sf rs where
    r: "Fast_run_calls img hash mx (GrouperFastImpl_Make\<lparr>fast_minibatch_size_m := m0\<rparr>) calls
          = Some (sf, snd (run_calls enc GrouperImpl_Make calls))"
    and sim: "fast_sim img hash enc mx sf ?s rs"
    and ks: "map enc rs = keys_after enc (map enc []) calls"
    by blast
  from sim have finv: "fast_inv img hash (fast_map_m sf) (fast_rows_m sf) rs"
    and ginv: "grouper_inv ?s (map enc rs)"
    by (simp_all add: fast_sim_def)
  have ng: "GrouperFastImpl_num_groups sf = GrouperImpl_num_groups ?s"
    using finv ginv
    by (simp add: GrouperFastImpl_num_groups_def GrouperImpl_num_groups_def
          fast_inv_def grouper_inv_def)
  have mxpos: "0 < mx" using m0 mx by simp
  have fu: "Fast_GetUniques unimg mx sf = Some rs"
    by (rule Fast_GetUniques_rows[OF finv unimg mxpos])
  have un: "GetUniques dec ?s = map Some rs"
    if nr: "CallReset \<notin> set calls" and r31: "calls_rows calls < 2 ^ 31"
  proof -
    have b': "length ([] :: bytes list) + calls_rows calls < 2 ^ 32" using rows by simp
    have by': "length (concat ([] :: bytes list)) + calls_bytes enc calls < 2 ^ 31"
      using bytes by simp
    have "uniques_inv ?s (keys_after enc [] calls)"
      by (rule run_calls_uniques[OF uniques_inv_Make grouper_inv_Make b' nr by'])
    hence u: "uniques_inv ?s (map enc rs)" using ks by simp
    have "length (map enc rs) \<le> calls_rows calls"
      unfolding ks using length_keys_after[of enc "map enc []" calls] by simp
    hence small: "length rs < 2 ^ 31" using r31 by simp
    show ?thesis by (rule GetUniques_rows[OF u ginv dec small])
  qed
  show ?thesis
    using r ng un by (intro exI[of _ sf]) (simp add: fu)
qed

theorem fast_grouper_agrees_with_fallback_witness:
  "\<exists>sf. Fast_run_calls (\<lambda>r. r) (\<lambda>r. 0) 2 (GrouperFastImpl_Make\<lparr>fast_minibatch_size_m := 1\<rparr>)
           [CallPopulate [Some 7] 0 (- 1),
            CallConsume [Some 1, Some 2, Some 1, None, Some 7] 0 (- 1),
            CallLookup [Some 2, Some 9] 0 (- 1)]
         = Some (sf, snd (run_calls encode_uint8_key GrouperImpl_Make
                            [CallPopulate [Some 7] 0 (- 1),
                             CallConsume [Some 1, Some 2, Some 1, None, Some 7] 0 (- 1),
                             CallLookup [Some 2, Some 9] 0 (- 1)])) \<and>
        GrouperFastImpl_num_groups sf
          = GrouperImpl_num_groups (fst (run_calls encode_uint8_key GrouperImpl_Make
                            [CallPopulate [Some 7] 0 (- 1),
                             CallConsume [Some 1, Some 2, Some 1, None, Some 7] 0 (- 1),
                             CallLookup [Some 2, Some 9] 0 (- 1)])) \<and>
        map_option (map Some) (Fast_GetUniques (\<lambda>r. r) 2 sf)
          = Some (GetUniques decode_uint8_key (fst (run_calls encode_uint8_key GrouperImpl_Make
                            [CallPopulate [Some 7] 0 (- 1),
                             CallConsume [Some 1, Some 2, Some 1, None, Some 7] 0 (- 1),
                             CallLookup [Some 2, Some 9] 0 (- 1)])))"
proof -
  have rows: "calls_rows [CallPopulate [Some (7 :: byte)] 0 (- 1),
                CallConsume [Some 1, Some 2, Some 1, None, Some 7] 0 (- 1),
                CallLookup [Some 2, Some 9] 0 (- 1)] < 2 ^ 32"
    by (simp add: calls_rows_def)
  have m0: "0 < (1 :: nat)" and mx: "(1 :: nat) \<le> 2" by simp_all
  have bytes: "calls_bytes encode_uint8_key [CallPopulate [Some (7 :: byte)] 0 (- 1),
                CallConsume [Some 1, Some 2, Some 1, None, Some 7] 0 (- 1),
                CallLookup [Some 2, Some 9] 0 (- 1)] < 2 ^ 31"
    by (simp add: calls_bytes_def batch_bytes_uint8_key)
  have r31: "calls_rows [CallPopulate [Some (7 :: byte)] 0 (- 1),
                CallConsume [Some 1, Some 2, Some 1, None, Some 7] 0 (- 1),
                CallLookup [Some 2, Some 9] 0 (- 1)] < 2 ^ 31"
    by (simp add: calls_rows_def)
  have nr: "CallReset \<notin> set [CallPopulate [Some (7 :: byte)] 0 (- 1),
                CallConsume [Some 1, Some 2, Some 1, None, Some 7] 0 (- 1),
                CallLookup [Some 2, Some 9] 0 (- 1)]"
    by simp
  from fast_grouper_agrees_with_fallback[of decode_uint8_key encode_uint8_key "\<lambda>r. r" "\<lambda>r. r",
         OF decode_encode_uint8_key refl m0 mx rows bytes, of "\<lambda>r. 0"]
  show ?thesis using nr r31 by blast
qed

end
